(* ===== verification/Lob_Prelude.thy ===== *)
theory Lob_Prelude
  imports Main "HOL-Library.Word" "HOL-Library.While_Combinator"
begin

section \<open>Prelude: shared collections, list, option and word lemmas\<close>

text \<open>
  The generic part of the development: names for the machine types of
  include/lob/types.hpp, the theorem collections that the component theories fill, and
  the facts on lists, options and 64-bit words that several components share. Nothing in
  this theory is about order books.
\<close>

unbundle bit_operations_syntax

subsection \<open>Machine types\<close>

type_synonym u8 = "8 word"
type_synonym u16 = "16 word"
type_synonym u32 = "32 word"
type_synonym u64 = "64 word"

text \<open>
  A signed 64-bit value is a 64-bit word that is read with \<open>sint\<close> and compared with
  \<open><s\<close>; its addition wraps, and theorems that depend on it say when it does not.
\<close>

type_synonym i64 = "64 word"

text \<open>
  A \<open>size_t\<close> that counts objects which are all in memory (vector sizes, positions in a
  vector, ids that index a vector) is a \<open>nat\<close>: the memory is exhausted long before such a
  counter wraps. A \<open>size_t\<close> that counts events (ring positions) is a \<open>u64\<close>.
\<close>

type_synonym addr = nat
type_synonym ptr = "addr option"

subsection \<open>Collections\<close>

named_theorems link_simps \<open>frame and update equations of the intrusive list\<close>
named_theorems book_defs \<open>definitions of the order book's operations\<close>
named_theorems inv_intros \<open>preservation of the order book's invariant\<close>
named_theorems unat_simps \<open>64-bit arithmetic read as natural numbers\<close>

subsection \<open>First and last elements with a default pointer\<close>

definition first_or :: "'a list \<Rightarrow> 'a option \<Rightarrow> 'a option" where
  "first_or xs d = (case xs of [] \<Rightarrow> d | x # _ \<Rightarrow> Some x)"

definition last_or :: "'a list \<Rightarrow> 'a option \<Rightarrow> 'a option" where
  "last_or xs d = (if xs = [] then d else Some (last xs))"

lemma first_or_simps [simp]:
  "first_or [] d = d"
  "first_or (x # xs) d = Some x"
  by (simp_all add: first_or_def)

lemma last_or_simps [simp]:
  "last_or [] d = d"
  "last_or (xs @ [x]) d = Some x"
  by (simp_all add: last_or_def)

lemma last_or_Cons [simp]: "last_or (x # xs) d = last_or xs (Some x)"
  by (simp add: last_or_def)

lemma first_or_append [simp]: "first_or (xs @ ys) d = first_or xs (first_or ys d)"
  by (cases xs) simp_all

lemma last_or_append [simp]: "last_or (xs @ ys) d = last_or ys (last_or xs d)"
  by (simp add: last_or_def)

lemma first_or_None [simp]: "first_or xs d = None \<longleftrightarrow> xs = [] \<and> d = None"
  by (cases xs) simp_all

lemma last_or_None [simp]: "last_or xs d = None \<longleftrightarrow> xs = [] \<and> d = None"
  by (simp add: last_or_def)

lemma first_or_SomeD: "first_or xs None = Some x \<Longrightarrow> \<exists>ys. xs = x # ys"
  by (cases xs) simp_all

lemma last_or_SomeD: "last_or xs None = Some x \<Longrightarrow> \<exists>ys. xs = ys @ [x]"
  by (cases xs rule: rev_cases) simp_all

subsection \<open>Lists\<close>

lemma remove1_mid: "a \<notin> set xs \<Longrightarrow> remove1 a (xs @ a # ys) = xs @ ys"
  by (simp add: remove1_append)

lemma filter_neq_mid:
  "distinct (xs @ a # ys) \<Longrightarrow> filter (\<lambda>x. x \<noteq> a) (xs @ a # ys) = xs @ ys"
  by (auto simp: filter_True filter_empty_conv intro!: arg_cong2 [where f = append] filter_True)

lemma sum_list_map_mono:
  fixes f g :: "'a \<Rightarrow> nat"
  shows "(\<And>x. x \<in> set xs \<Longrightarrow> f x \<le> g x) \<Longrightarrow> sum_list (map f xs) \<le> sum_list (map g xs)"
  by (induction xs) (auto intro: add_mono)

lemma map_cong_fun_upd [simp]: "a \<notin> set xs \<Longrightarrow> map (f(a := v)) xs = map f xs"
  by (induction xs) auto

lemma distinct_swap_middle:
  assumes "distinct (xs @ bs @ ys @ zs)" and "distinct cs"
    and "set cs \<inter> set (xs @ bs @ ys @ zs) \<subseteq> set bs"
  shows "distinct (xs @ cs @ ys @ zs)"
    and "(set (xs @ bs @ ys @ zs) - set bs) \<union> set cs = set (xs @ cs @ ys @ zs)"
  using assms unfolding distinct_append set_append by blast+

lemma distinct_split_unique:
  "distinct (xs @ a # ys) \<Longrightarrow> xs @ a # ys = xs' @ a # ys' \<Longrightarrow> xs = xs' \<and> ys = ys'"
  by (metis append_Cons_eq_iff distinct.simps(2) distinct_append not_distinct_conv_prefix)

subsection \<open>64-bit words read as naturals\<close>

lemma unat_min [unat_simps]:
  fixes a b :: "'a::len word"
  shows "unat (min a b) = min (unat a) (unat b)"
  by (simp add: min_def word_le_nat_alt)

lemma unat_sub_le [unat_simps]:
  fixes a b :: "'a::len word"
  shows "unat b \<le> unat a \<Longrightarrow> unat (a - b) = unat a - unat b"
  by (simp add: unat_sub word_le_nat_alt)

lemma unat_add_less [unat_simps]:
  fixes a b :: u64
  shows "unat a + unat b < 2 ^ 64 \<Longrightarrow> unat (a + b) = unat a + unat b"
  using unat_add_lem [of a b] by simp

lemma unat_eq_0 [unat_simps]: "unat (a :: 'a::len word) = 0 \<longleftrightarrow> a = 0"
  by (rule unat_eq_zero)

lemma word_gt_0_unat: "(0 :: 'a::len word) < a \<longleftrightarrow> 0 < unat a"
  by (simp add: word_less_nat_alt)

lemma unat_less_64: "unat (a :: u64) < 2 ^ 64"
  using unsigned_less [of a, where ?'a = nat] by simp

lemma unat_nat_64: "n < 2 ^ 64 \<Longrightarrow> unat (of_nat n :: u64) = n"
  by (simp add: unsigned_of_nat take_bit_nat_eq_self)

text \<open>Signed comparison of differences, where the operands fit in 63 bits.\<close>

lemma uint_small: "unat (a :: u64) < 2 ^ 63 \<longleftrightarrow> uint a < 2 ^ 63"
  by (simp only: unat_eq_nat_uint nat_less_iff [OF uint_ge_0]) simp

lemma sint_uint_small:
  fixes a :: u64
  assumes "unat a < 2 ^ 63"
  shows "sint a = uint a"
proof -
  have "- (2 ^ 63) \<le> uint a" "uint a < 2 ^ 63"
    using assms uint_ge_0 [of a] unfolding uint_small by linarith+
  then have "signed_take_bit 63 (uint a) = uint a" by (rule signed_take_bit_int_eq_self)
  then show ?thesis by (simp add: sint_uint)
qed

lemma sint_diff_small:
  fixes a b :: u64
  assumes "unat a < 2 ^ 63" and "unat b < 2 ^ 63"
  shows "sint (a - b) = uint a - uint b"
proof -
  have "- (2 ^ 63) \<le> uint a - uint b" "uint a - uint b < 2 ^ 63"
    using assms uint_ge_0 [of a] uint_ge_0 [of b] unfolding uint_small by linarith+
  then have "signed_take_bit 63 (uint a - uint b) = uint a - uint b"
    by (intro signed_take_bit_int_eq_self) simp_all
  then show ?thesis using sint_word_ariths(2) [of a b] assms by (simp add: sint_uint_small)
qed

lemma nonneg_small:
  fixes a :: u64
  shows "unat a < 2 ^ 63 \<Longrightarrow> 0 \<le>s a"
  using uint_ge_0 [of a] by (simp add: word_sle_eq sint_uint_small del: uint_ge_0)

lemma nonneg_diff_small:
  fixes a b :: u64
  shows "unat a < 2 ^ 63 \<Longrightarrow> unat b < 2 ^ 63 \<Longrightarrow> 0 \<le>s a - b \<longleftrightarrow> unat b \<le> unat a"
  by (simp add: word_sle_eq sint_diff_small flip: word_le_nat_alt word_le_def)

end
