(* ===== verification/Lob_Types.thy ===== *)
theory Lob_Types
  imports Lob_Prelude
begin

section \<open>Fundamental types and the order record\<close>

text \<open>
  include/lob/types.hpp and include/lob/order.hpp: sides, order types, the 64-bit price
  (signed ticks), quantity and the \<open>Order\<close> struct with its two intrusive links. The
  links, like every \<open>Order*\<close> of the program, are addresses in a store that maps
  addresses to orders; \<open>nullptr\<close> is \<open>None\<close>. An order id indexes the dense id table of
  the book, which has an entry for every id ever issued, so ids are natural numbers.
\<close>

datatype side = Buy | Sell

datatype order_type = Limit | Market | IOC | FOK

type_synonym price_t = i64
type_synonym qty_t = u64
type_synonym order_id_t = nat

text \<open>The casts between the enums and the bytes that store them in an order.\<close>

definition side_code :: "side \<Rightarrow> u8" where
  "side_code s = (case s of Buy \<Rightarrow> 0 | Sell \<Rightarrow> 1)"

definition side_of_code :: "u8 \<Rightarrow> side" where
  "side_of_code c = (if c = 0 then Buy else Sell)"

definition order_type_code :: "order_type \<Rightarrow> u8" where
  "order_type_code t = (case t of Limit \<Rightarrow> 0 | Market \<Rightarrow> 1 | IOC \<Rightarrow> 2 | FOK \<Rightarrow> 3)"

definition opposite :: "side \<Rightarrow> side" where
  "opposite s = (case s of Buy \<Rightarrow> Sell | Sell \<Rightarrow> Buy)"

record order =
  order_id :: order_id_t
  qty :: qty_t
  timestamp :: u64
  prev :: ptr
  price :: price_t
  remaining_qty :: qty_t
  nxt :: ptr
  display_qty :: qty_t
  hidden_qty :: qty_t
  oside :: u8
  otype :: u8
  stop_type :: u8
  flags :: u8
  stop_price :: price_t

text \<open>What \<open>memset(o, 0, sizeof(Order))\<close> leaves in a slot.\<close>

definition zero_order :: order where
  "zero_order = \<lparr>order_id = 0, qty = 0, timestamp = 0, prev = None, price = 0,
     remaining_qty = 0, nxt = None, display_qty = 0, hidden_qty = 0, oside = 0,
     otype = 0, stop_type = 0, flags = 0, stop_price = 0\<rparr>"

type_synonym store = "addr \<Rightarrow> order"

lemma side_of_side_code [simp]: "side_of_code (side_code s) = s"
  by (cases s) (simp_all add: side_code_def side_of_code_def)

lemma side_code_inject [simp]: "side_code s = side_code t \<longleftrightarrow> s = t"
  by (metis side_of_side_code)

lemma side_code_simps [simp]: "side_code Buy = 0" "side_code Sell = 1"
  by (simp_all add: side_code_def)

lemma opposite_simps [simp]: "opposite Buy = Sell" "opposite Sell = Buy"
  by (simp_all add: opposite_def)

lemma opposite_opposite [simp]: "opposite (opposite s) = s"
  by (cases s) simp_all

lemma opposite_neq [simp]: "opposite s \<noteq> s" "s \<noteq> opposite s"
  by (cases s; simp)+

lemma zero_order_simps [simp]:
  "order_id zero_order = 0" "qty zero_order = 0" "prev zero_order = None"
  "price zero_order = 0" "remaining_qty zero_order = 0" "nxt zero_order = None"
  "display_qty zero_order = 0" "hidden_qty zero_order = 0" "oside zero_order = 0"
  "otype zero_order = 0" "stop_type zero_order = 0" "stop_price zero_order = 0"
  by (simp_all add: zero_order_def)

end
