(* ===== verification/Order_Pool.thy ===== *)
theory Order_Pool
  imports Lob_Types
begin

section \<open>The order pool\<close>

text \<open>
  include/lob/order_pool.hpp and src/order_pool.cpp. A pool in \<open>Pool\<close> mode owns a slab
  of \<open>capacity\<close> slots (addresses \<open>0 ..< capacity\<close>) and a stack of free slots; a pool
  in \<open>Heap\<close> mode asks \<open>operator new\<close> for each order, which is modelled by a counter
  \<open>heap_brk\<close> of addresses never handed out before. \<open>deallocate\<close> does not touch the
  memory of the slot: in \<open>Pool\<close> mode a stale pointer still reads the old order, as in
  the program.
\<close>

datatype alloc_mode = Pool | Heap

record order_pool =
  capacity :: nat
  mode :: alloc_mode
  freelist :: "addr list"
  heap_brk :: addr

definition new_pool :: "nat \<Rightarrow> alloc_mode \<Rightarrow> order_pool" where
  "new_pool cap m =
     \<lparr>capacity = cap, mode = m,
      freelist = (if m = Heap then [] else if cap = 0 then [] else [0..<cap]),
      heap_brk = 0\<rparr>"

text \<open>The free list is a stack: \<open>back\<close> and \<open>pop_back\<close> work on the end of the vector.\<close>

definition allocate :: "order_pool \<Rightarrow> store \<Rightarrow> ptr \<times> order_pool \<times> store" where
  "allocate p h =
     (if mode p = Heap then
        (let a = heap_brk p in (Some a, p\<lparr>heap_brk := Suc a\<rparr>, h(a := zero_order)))
      else if freelist p = [] then (None, p, h)
      else
        (let a = last (freelist p)
         in (Some a, p\<lparr>freelist := butlast (freelist p)\<rparr>, h(a := zero_order))))"

definition deallocate :: "order_pool \<Rightarrow> addr \<Rightarrow> order_pool" where
  "deallocate p a =
     (if mode p = Heap then p else p\<lparr>freelist := freelist p @ [a]\<rparr>)"

definition free_count :: "order_pool \<Rightarrow> nat" where
  "free_count p = length (freelist p)"

subsection \<open>Ownership\<close>

text \<open>
  \<open>pool_inv p L\<close>: the orders in use are exactly the addresses in \<open>L\<close>. In \<open>Pool\<close>
  mode, the slots in use and the free slots partition the slab, so no slot is lost and
  none is handed out twice.
\<close>

definition pool_inv :: "order_pool \<Rightarrow> addr set \<Rightarrow> bool" where
  "pool_inv p L \<longleftrightarrow> finite L \<and>
     (case mode p of
        Pool \<Rightarrow> distinct (freelist p) \<and> set (freelist p) \<inter> L = {} \<and>
                set (freelist p) \<union> L = {0..<capacity p}
      | Heap \<Rightarrow> freelist p = [] \<and> (\<forall>a \<in> L. a < heap_brk p))"

lemma pool_inv_new: "pool_inv (new_pool cap m) {}"
  by (auto simp: pool_inv_def new_pool_def split: alloc_mode.splits)

lemma pool_inv_finite: "pool_inv p L \<Longrightarrow> finite L"
  by (simp add: pool_inv_def)

lemma allocate_cases:
  obtains (full) "mode p = Pool" "freelist p = []" "allocate p h = (None, p, h)"
  | (ok) a p' where "allocate p h = (Some a, p', h(a := zero_order))"
      "mode p' = mode p" "capacity p' = capacity p"
      "mode p = Heap \<and> a = heap_brk p \<and> p' = p\<lparr>heap_brk := Suc a\<rparr> \<or>
       mode p = Pool \<and> freelist p = freelist p' @ [a] \<and> heap_brk p' = heap_brk p"
proof (cases "mode p")
  case Pool
  show thesis
  proof (cases "freelist p = []")
    case True
    with Pool show thesis by (intro full) (simp_all add: allocate_def)
  next
    case False
    with Pool show thesis
      by (intro ok [of "last (freelist p)" "p\<lparr>freelist := butlast (freelist p)\<rparr>"])
        (simp_all add: allocate_def Let_def)
  qed
next
  case Heap
  then show thesis
    by (intro ok [of "heap_brk p" "p\<lparr>heap_brk := Suc (heap_brk p)\<rparr>"])
      (simp_all add: allocate_def Let_def)
qed

lemma allocate_None:
  "allocate p h = (None, p', h') \<Longrightarrow> mode p = Pool \<and> freelist p = [] \<and> p' = p \<and> h' = h"
  by (cases rule: allocate_cases [of p h]) auto

lemma allocate_Some:
  assumes "allocate p h = (Some a, p', h')" and "pool_inv p L"
  shows "a \<notin> L" and "pool_inv p' (insert a L)" and "h' = h(a := zero_order)"
    and "mode p' = mode p" and "capacity p' = capacity p"
proof -
  show "h' = h(a := zero_order)" "mode p' = mode p" "capacity p' = capacity p"
    using assms(1) by (cases rule: allocate_cases [of p h]; simp)+
  show "a \<notin> L" "pool_inv p' (insert a L)"
    using assms
    by (cases rule: allocate_cases [of p h]; auto simp: pool_inv_def; fastforce)+
qed

lemma deallocate_inv:
  assumes "pool_inv p L" and "a \<in> L"
  shows "pool_inv (deallocate p a) (L - {a})"
  using assms by (auto simp: pool_inv_def deallocate_def split: alloc_mode.splits)

lemma deallocate_simps [simp]:
  "mode (deallocate p a) = mode p" "capacity (deallocate p a) = capacity p"
  by (simp_all add: deallocate_def)

text \<open>A slot that was just freed is the next one handed out (LIFO), cleared.\<close>

lemma allocate_deallocate:
  "mode p = Pool \<Longrightarrow> allocate (deallocate p a) h = (Some a, p, h(a := zero_order))"
  by (simp add: allocate_def deallocate_def)

lemma pool_inv_count:
  assumes "pool_inv p L" and "mode p = Pool"
  shows "free_count p + card L = capacity p"
proof -
  have "card (set (freelist p) \<union> L) = card (set (freelist p)) + card L"
    using assms by (intro card_Un_disjoint) (auto simp: pool_inv_def)
  with assms show ?thesis
    by (simp add: pool_inv_def free_count_def distinct_card)
qed

subsection \<open>What a client relies on\<close>

text \<open>
  The contract of an allocator of orders: what it hands out was not in use, and what comes
  back is not in use any more.
\<close>

locale allocator =
  fixes inv :: "'p \<Rightarrow> 'a set \<Rightarrow> bool"
    and grab :: "'p \<Rightarrow> ('a \<times> 'p) option"
    and give :: "'p \<Rightarrow> 'a \<Rightarrow> 'p"
  assumes grab_fresh: "inv p L \<Longrightarrow> grab p = Some (a, p') \<Longrightarrow> a \<notin> L \<and> inv p' (insert a L)"
    and give_back: "inv p L \<Longrightarrow> a \<in> L \<Longrightarrow> inv (give p a) (L - {a})"
begin

lemma give_all:
  "inv p L \<Longrightarrow> distinct as \<Longrightarrow> set as \<subseteq> L \<Longrightarrow> inv (fold (\<lambda>a p. give p a) as p) (L - set as)"
proof (induction as arbitrary: p L)
  case (Cons a as)
  have "inv (give p a) (L - {a})" using Cons.prems by (intro give_back) auto
  moreover have "set as \<subseteq> L - {a}" using Cons.prems by auto
  ultimately have "inv (fold (\<lambda>a p. give p a) as (give p a)) (L - {a} - set as)"
    using Cons.prems by (intro Cons.IH) auto
  then show ?case by (simp add: insert_commute Diff_insert2 [symmetric])
qed simp

lemma grab_distinct:
  assumes "inv p L" and "grab p = Some (a, p1)" and "grab p1 = Some (c, p2)"
  shows "a \<noteq> c" and "inv p2 (insert c (insert a L))"
  using grab_fresh [OF _ assms(3), of "insert a L"] grab_fresh [OF assms(1,2)] by auto

end

definition pool_grab :: "order_pool \<Rightarrow> (addr \<times> order_pool) option" where
  "pool_grab p =
     (case allocate p (\<lambda>_. zero_order) of (Some a, p', _) \<Rightarrow> Some (a, p') | _ \<Rightarrow> None)"

interpretation pool: allocator pool_inv pool_grab deallocate
proof
  fix p L a p'
  assume inv: "pool_inv p L" and "pool_grab p = Some (a, p')"
  then obtain h where "allocate p (\<lambda>_. zero_order) = (Some a, p', h)"
    by (auto simp: pool_grab_def split: prod.splits option.splits)
  from allocate_Some [OF this inv] show "a \<notin> L \<and> pool_inv p' (insert a L)" by blast
qed (rule deallocate_inv)

end
