(* ===== verification/Price_Level.thy ===== *)
theory Price_Level
  imports Lob_Types
begin

section \<open>Price levels: the intrusive FIFO list\<close>

text \<open>
  The class \<open>PriceLevel\<close> of include/lob/order_book.hpp and src/order_book.cpp: a
  doubly-linked list threaded through the orders themselves, with its head, tail, order
  count and the aggregate visible quantity. The operations update the store of orders the
  way the C++ code writes through pointers; the lemmas show that they append to, and
  remove from, the list of addresses that the links spell out.
\<close>

record price_level =
  lv_head :: ptr
  lv_tail :: ptr
  lv_agg :: qty_t
  lv_cnt :: nat

definition empty_level :: price_level where
  "empty_level = \<lparr>lv_head = None, lv_tail = None, lv_agg = 0, lv_cnt = 0\<rparr>"

definition push_back :: "price_level \<Rightarrow> addr \<Rightarrow> store \<Rightarrow> price_level \<times> store" where
  "push_back l a h =
     (let h1 = h(a := (h a)\<lparr>nxt := None, prev := lv_tail l\<rparr>);
          h2 = (case lv_tail l of None \<Rightarrow> h1
                | Some t \<Rightarrow> h1(t := (h1 t)\<lparr>nxt := Some a\<rparr>))
      in (l\<lparr>lv_tail := Some a,
            lv_head := (case lv_head l of None \<Rightarrow> Some a | Some x \<Rightarrow> Some x),
            lv_cnt := Suc (lv_cnt l),
            lv_agg := lv_agg l + remaining_qty (h2 a)\<rparr>, h2))"

definition remove :: "price_level \<Rightarrow> addr \<Rightarrow> store \<Rightarrow> price_level \<times> store" where
  "remove l a h =
     (let (l1, h1) = (case prev (h a) of
                        Some p \<Rightarrow> (l, h(p := (h p)\<lparr>nxt := nxt (h a)\<rparr>))
                      | None \<Rightarrow> (l\<lparr>lv_head := nxt (h a)\<rparr>, h));
          (l2, h2) = (case nxt (h1 a) of
                        Some n \<Rightarrow> (l1, h1(n := (h1 n)\<lparr>prev := prev (h1 a)\<rparr>))
                      | None \<Rightarrow> (l1\<lparr>lv_tail := prev (h1 a)\<rparr>, h1))
      in (l2\<lparr>lv_cnt := lv_cnt l2 - 1, lv_agg := lv_agg l2 - remaining_qty (h2 a)\<rparr>,
          h2(a := (h2 a)\<lparr>nxt := None, prev := None\<rparr>)))"

definition decrease_aggregate :: "price_level \<Rightarrow> qty_t \<Rightarrow> price_level" where
  "decrease_aggregate l amt =
     (if amt > lv_agg l then l\<lparr>lv_agg := 0\<rparr> else l\<lparr>lv_agg := lv_agg l - amt\<rparr>)"

definition adjust_aggregate :: "price_level \<Rightarrow> i64 \<Rightarrow> price_level" where
  "adjust_aggregate l delta =
     (if 0 \<le>s delta then l\<lparr>lv_agg := lv_agg l + delta\<rparr>
      else (let dec = - delta
            in if dec > lv_agg l then l\<lparr>lv_agg := 0\<rparr> else l\<lparr>lv_agg := lv_agg l - dec\<rparr>))"

subsection \<open>Segments of a doubly-linked list\<close>

text \<open>
  \<open>seg h p as q\<close>: following the links in \<open>h\<close>, the addresses \<open>as\<close> are a doubly-linked
  list whose first element points back to \<open>p\<close> and whose last points forward to \<open>q\<close>.
\<close>

primrec seg :: "store \<Rightarrow> ptr \<Rightarrow> addr list \<Rightarrow> ptr \<Rightarrow> bool" where
  "seg h p [] q = True"
| "seg h p (a # as) q =
     (prev (h a) = p \<and> nxt (h a) = first_or as q \<and> seg h (Some a) as q)"

lemma seg_append [link_simps]:
  "seg h p (xs @ ys) q \<longleftrightarrow> seg h p xs (first_or ys q) \<and> seg h (last_or xs p) ys q"
  by (induction xs arbitrary: p) auto

lemma seg_cong:
  "(\<And>a. a \<in> set as \<Longrightarrow> prev (h' a) = prev (h a) \<and> nxt (h' a) = nxt (h a)) \<Longrightarrow>
   seg h' p as q = seg h p as q"
  by (induction as arbitrary: p) auto

lemma seg_upd_other [link_simps]: "a \<notin> set as \<Longrightarrow> seg (h(a := v)) p as q = seg h p as q"
  by (rule seg_cong) auto

text \<open>What an order holds besides its two links.\<close>

definition payload :: "order \<Rightarrow> order" where
  "payload x = x\<lparr>prev := None, nxt := None\<rparr>"

lemma payload_update [simp]:
  "payload (x\<lparr>nxt := n\<rparr>) = payload x" "payload (x\<lparr>prev := p\<rparr>) = payload x"
  by (simp_all add: payload_def)

lemma payload_eqD:
  assumes "payload x = payload y"
  shows "order_id x = order_id y" "qty x = qty y" "price x = price y"
    "remaining_qty x = remaining_qty y" "display_qty x = display_qty y"
    "hidden_qty x = hidden_qty y" "oside x = oside y" "otype x = otype y"
    "stop_type x = stop_type y" "stop_price x = stop_price y" "timestamp x = timestamp y"
    "flags x = flags y"
  using assms by (cases x; cases y; simp add: payload_def)+

subsection \<open>The list of a level\<close>

definition level_links :: "store \<Rightarrow> price_level \<Rightarrow> addr list \<Rightarrow> bool" where
  "level_links h l as \<longleftrightarrow>
     lv_head l = first_or as None \<and> lv_tail l = last_or as None \<and> lv_cnt l = length as \<and>
     distinct as \<and> seg h None as None"

text \<open>The addresses reached from a pointer in at most \<open>n\<close> steps.\<close>

primrec chain :: "store \<Rightarrow> ptr \<Rightarrow> nat \<Rightarrow> addr list" where
  "chain h p 0 = []"
| "chain h p (Suc n) = (case p of None \<Rightarrow> [] | Some a \<Rightarrow> a # chain h (nxt (h a)) n)"

definition level_addrs :: "store \<Rightarrow> price_level \<Rightarrow> addr list" where
  "level_addrs h l = chain h (lv_head l) (lv_cnt l)"

lemma chain_seg: "seg h p as None \<Longrightarrow> chain h (first_or as None) (length as) = as"
  by (induction as arbitrary: p) auto

lemma level_addrs_links: "level_links h l as \<Longrightarrow> level_addrs h l = as"
  by (auto simp: level_links_def level_addrs_def dest: chain_seg)

lemma level_links_distinct: "level_links h l as \<Longrightarrow> distinct as"
  by (simp add: level_links_def)

lemma level_links_empty: "level_links h empty_level []"
  by (simp add: level_links_def empty_level_def)

lemma level_links_cong:
  "(\<And>a. a \<in> set as \<Longrightarrow> prev (h' a) = prev (h a) \<and> nxt (h' a) = nxt (h a)) \<Longrightarrow>
   level_links h' l as = level_links h l as"
  unfolding level_links_def using seg_cong [of as h' h None None] by simp

lemma level_links_head: "level_links h l as \<Longrightarrow> lv_head l = first_or as None"
  by (simp add: level_links_def)

lemma level_links_cnt: "level_links h l as \<Longrightarrow> lv_cnt l = length as"
  by (simp add: level_links_def)

lemma level_links_agg [simp]: "level_links h (l\<lparr>lv_agg := x\<rparr>) as = level_links h l as"
  by (simp add: level_links_def)

lemma push_back_links:
  assumes "level_links h l as" and "a \<notin> set as" and "push_back l a h = (l', h')"
  shows "level_links h' l' (as @ [a])"
    and "\<And>x. x \<noteq> a \<Longrightarrow> x \<notin> set as \<Longrightarrow> h' x = h x"
    and "\<And>x. payload (h' x) = payload (h x)"
    and "lv_agg l' = lv_agg l + remaining_qty (h a)"
proof -
  have "level_links h' l' (as @ [a]) \<and> (\<forall>x. x \<noteq> a \<longrightarrow> x \<notin> set as \<longrightarrow> h' x = h x) \<and>
        (\<forall>x. payload (h' x) = payload (h x)) \<and> lv_agg l' = lv_agg l + remaining_qty (h a)"
  proof (cases as rule: rev_cases)
    case Nil
    with assms show ?thesis by (auto simp: push_back_def level_links_def)
  next
    case (snoc ys t)
    with assms have "t \<noteq> a" "lv_tail l = Some t" by (auto simp: level_links_def)
    with snoc assms show ?thesis
      by (auto simp: push_back_def level_links_def Let_def link_simps
          split: option.splits)
  qed
  then show "level_links h' l' (as @ [a])"
    and "\<And>x. x \<noteq> a \<Longrightarrow> x \<notin> set as \<Longrightarrow> h' x = h x"
    and "\<And>x. payload (h' x) = payload (h x)"
    and "lv_agg l' = lv_agg l + remaining_qty (h a)"
    by blast+
qed

lemma remove_links:
  assumes "level_links h l (xs @ a # ys)" and "remove l a h = (l', h')"
  shows "level_links h' l' (xs @ ys)"
    and "\<And>x. x \<notin> set (xs @ a # ys) \<Longrightarrow> h' x = h x"
    and "\<And>x. payload (h' x) = payload (h x)"
    and "lv_agg l' = lv_agg l - remaining_qty (h a)"
proof -
  have "level_links h' l' (xs @ ys) \<and> (\<forall>x. x \<notin> set (xs @ a # ys) \<longrightarrow> h' x = h x) \<and>
        (\<forall>x. payload (h' x) = payload (h x)) \<and> lv_agg l' = lv_agg l - remaining_qty (h a)"
  proof (cases xs rule: rev_cases)
    case Nil
    show ?thesis
    proof (cases ys)
      case Nil
      with \<open>xs = []\<close> assms show ?thesis by (auto simp: remove_def level_links_def)
    next
      case (Cons n zs)
      with \<open>xs = []\<close> assms show ?thesis
        by (auto simp: remove_def level_links_def Let_def link_simps)
    qed
  next
    case (snoc us p)
    show ?thesis
    proof (cases ys)
      case Nil
      with snoc assms show ?thesis
        by (auto simp: remove_def level_links_def Let_def link_simps)
    next
      case (Cons n zs)
      with snoc assms show ?thesis
        by (auto simp: remove_def level_links_def Let_def link_simps)
    qed
  qed
  then show "level_links h' l' (xs @ ys)"
    and "\<And>x. x \<notin> set (xs @ a # ys) \<Longrightarrow> h' x = h x"
    and "\<And>x. payload (h' x) = payload (h x)"
    and "lv_agg l' = lv_agg l - remaining_qty (h a)"
    by blast+
qed

lemma aggregate_links [simp]:
  "level_links h (decrease_aggregate l q) as = level_links h l as"
  "level_links h (adjust_aggregate l d) as = level_links h l as"
  by (simp_all add: decrease_aggregate_def adjust_aggregate_def Let_def)

end
