(* ===== verification/Price_Ladder.thy ===== *)
theory Price_Ladder
  imports Price_Level
begin

section \<open>Price ladders: a sorted vector of levels\<close>

text \<open>
  include/lob/price_ladder.hpp. A ladder is a vector of nodes (a price and its level) kept
  sorted by a comparator; the comparator is the template parameter \<open>Cmp\<close>. The functions
  take it as an argument, and the locale \<open>price_order\<close> states what they need of it
  (a strict total order), with interpretations for \<open>BidCmp\<close> and \<open>std::less\<close>.
  Iterators are positions; \<open>end()\<close> as the result of a search is \<open>None\<close>.
\<close>

record node =
  nd_price :: price_t
  nd_level :: price_level

text \<open>\<open>std::lower_bound\<close>: the end of the longest prefix that compares before \<open>px\<close>.\<close>

definition ladder_lower :: "(price_t \<Rightarrow> price_t \<Rightarrow> bool) \<Rightarrow> node list \<Rightarrow> price_t \<Rightarrow> nat" where
  "ladder_lower cmp v px = length (takeWhile (\<lambda>n. cmp (nd_price n) px) v)"

definition ladder_find ::
    "(price_t \<Rightarrow> price_t \<Rightarrow> bool) \<Rightarrow> node list \<Rightarrow> price_t \<Rightarrow> nat option" where
  "ladder_find cmp v px =
     (let i = ladder_lower cmp v px
      in if i = length v \<or> nd_price (v ! i) \<noteq> px then None else Some i)"

definition find_or_emplace ::
    "(price_t \<Rightarrow> price_t \<Rightarrow> bool) \<Rightarrow> node list \<Rightarrow> price_t \<Rightarrow> nat \<times> node list" where
  "find_or_emplace cmp v px =
     (let i = ladder_lower cmp v px
      in if i \<noteq> length v \<and> nd_price (v ! i) = px then (i, v)
         else (i, take i v @ \<lparr>nd_price = px, nd_level = empty_level\<rparr> # drop i v))"

definition ladder_erase :: "node list \<Rightarrow> nat \<Rightarrow> node list" where
  "ladder_erase v i = take i v @ drop (Suc i) v"

definition erase_price ::
    "(price_t \<Rightarrow> price_t \<Rightarrow> bool) \<Rightarrow> node list \<Rightarrow> price_t \<Rightarrow> node list" where
  "erase_price cmp v px =
     (case ladder_find cmp v px of None \<Rightarrow> v | Some i \<Rightarrow> ladder_erase v i)"

text \<open>The comparators of the two sides.\<close>

definition bid_cmp :: "price_t \<Rightarrow> price_t \<Rightarrow> bool" where
  "bid_cmp a b \<longleftrightarrow> b <s a"

definition ask_cmp :: "price_t \<Rightarrow> price_t \<Rightarrow> bool" where
  "ask_cmp a b \<longleftrightarrow> a <s b"

definition side_cmp :: "side \<Rightarrow> price_t \<Rightarrow> price_t \<Rightarrow> bool" where
  "side_cmp s = (case s of Buy \<Rightarrow> bid_cmp | Sell \<Rightarrow> ask_cmp)"

definition ladder_sorted :: "(price_t \<Rightarrow> price_t \<Rightarrow> bool) \<Rightarrow> node list \<Rightarrow> bool" where
  "ladder_sorted cmp v \<longleftrightarrow> sorted_wrt cmp (map nd_price v)"

lemma ladder_erase_mid [simp]: "ladder_erase (xs @ nd # ys) (length xs) = xs @ ys"
  by (simp add: ladder_erase_def)

lemma ladder_sorted_remove:
  "ladder_sorted cmp (xs @ nd # ys) \<Longrightarrow> ladder_sorted cmp (xs @ ys)"
  by (auto simp: ladder_sorted_def sorted_wrt_append)

lemma ladder_sorted_replace:
  "nd_price nd' = nd_price nd \<Longrightarrow>
   ladder_sorted cmp (xs @ nd' # ys) = ladder_sorted cmp (xs @ nd # ys)"
  by (simp add: ladder_sorted_def)

lemma ladder_find_Some_mid:
  assumes "ladder_find cmp v px = Some i"
  obtains xs nd ys where "v = xs @ nd # ys" and "i = length xs" and "nd_price nd = px"
proof -
  from assms have i: "i \<noteq> length v" "nd_price (v ! i) = px"
    by (auto simp: ladder_find_def Let_def split: if_splits)
  moreover from assms have "i \<le> length v"
    by (auto simp: ladder_find_def ladder_lower_def Let_def length_takeWhile_le split: if_splits)
  ultimately have "i < length v" by simp
  with i that [of "take i v" "v ! i" "drop (Suc i) v"] show thesis
    by (simp add: id_take_nth_drop)
qed

subsection \<open>What the ladder needs of its comparator\<close>

locale price_order =
  fixes cmp :: "price_t \<Rightarrow> price_t \<Rightarrow> bool"
  assumes cmp_irrefl: "\<not> cmp a a"
    and cmp_trans: "cmp a b \<Longrightarrow> cmp b c \<Longrightarrow> cmp a c"
    and cmp_total: "cmp a b \<or> a = b \<or> cmp b a"
begin

lemma cmp_asym: "cmp a b \<Longrightarrow> \<not> cmp b a"
  using cmp_irrefl cmp_trans by blast

lemma cmp_neq: "cmp a b \<Longrightarrow> a \<noteq> b"
  using cmp_irrefl by blast

lemma lower_split:
  assumes "ladder_sorted cmp v"
  obtains xs ys where "v = xs @ ys" and "ladder_lower cmp v px = length xs"
    and "\<forall>nd \<in> set xs. cmp (nd_price nd) px"
    and "\<forall>nd \<in> set ys. nd_price nd = px \<or> cmp px (nd_price nd)"
    and "\<forall>nd \<in> set (tl ys). cmp px (nd_price nd)"
proof -
  let ?P = "\<lambda>n. cmp (nd_price n) px"
  define xs ys where "xs = takeWhile ?P v" and "ys = dropWhile ?P v"
  then have v: "v = xs @ ys" by simp
  have sorted: "sorted_wrt cmp (map nd_price ys)"
    using assms v by (simp add: ladder_sorted_def sorted_wrt_append)
  have hd: "ys \<noteq> [] \<Longrightarrow> nd_price (hd ys) = px \<or> cmp px (nd_price (hd ys))"
    using hd_dropWhile [of ?P v] cmp_total unfolding ys_def by blast
  have tl: "\<forall>nd \<in> set (tl ys). cmp px (nd_price nd)"
    using sorted hd by (cases ys) (auto intro: cmp_trans)
  show thesis
  proof (rule that [of xs ys])
    show "\<forall>nd \<in> set xs. cmp (nd_price nd) px"
      unfolding xs_def by (auto dest: set_takeWhileD)
    show "\<forall>nd \<in> set ys. nd_price nd = px \<or> cmp px (nd_price nd)"
      using hd tl by (cases ys) auto
    show "ladder_lower cmp v px = length xs" by (simp add: ladder_lower_def xs_def)
  qed (use v tl in simp_all)
qed

lemma find_mid:
  assumes "ladder_sorted cmp (xs @ nd # ys)"
  shows "ladder_find cmp (xs @ nd # ys) (nd_price nd) = Some (length xs)"
proof -
  have "\<forall>x \<in> set xs. cmp (nd_price x) (nd_price nd)"
    using assms by (auto simp: ladder_sorted_def sorted_wrt_append)
  then have "ladder_lower cmp (xs @ nd # ys) (nd_price nd) = length xs"
    by (simp add: ladder_lower_def takeWhile_append2 cmp_irrefl)
  then show ?thesis by (simp add: ladder_find_def)
qed

lemma find_None:
  assumes "ladder_sorted cmp v" and "ladder_find cmp v px = None"
  shows "\<forall>nd \<in> set v. nd_price nd \<noteq> px"
proof
  fix nd assume "nd \<in> set v"
  then obtain xs ys where "v = xs @ nd # ys" by (auto simp: in_set_conv_decomp)
  with find_mid [of xs nd ys] assms show "nd_price nd \<noteq> px" by auto
qed

lemma erase_price_mid:
  "ladder_sorted cmp (xs @ nd # ys) \<Longrightarrow> erase_price cmp (xs @ nd # ys) (nd_price nd) = xs @ ys"
  by (simp add: erase_price_def find_mid)

lemma sorted_distinct_price:
  "ladder_sorted cmp v \<Longrightarrow> nd \<in> set v \<Longrightarrow> nd' \<in> set v \<Longrightarrow> nd_price nd = nd_price nd' \<Longrightarrow> nd = nd'"
  by (auto simp: ladder_sorted_def in_set_conv_decomp sorted_wrt_append cmp_irrefl
      append_eq_append_conv2 append_eq_Cons_conv Cons_eq_append_conv)

lemma distinct_prices: "ladder_sorted cmp v \<Longrightarrow> distinct (map nd_price v)"
  unfolding ladder_sorted_def by (induction v) (auto simp: cmp_irrefl)

lemma find_or_emplace_cases:
  assumes "ladder_sorted cmp v"
  obtains (found) xs nd ys where "v = xs @ nd # ys" and "nd_price nd = px"
      and "find_or_emplace cmp v px = (length xs, v)"
  | (fresh) xs ys where "v = xs @ ys" and "\<forall>nd \<in> set v. nd_price nd \<noteq> px"
      and "\<forall>nd \<in> set xs. cmp (nd_price nd) px" and "\<forall>nd \<in> set ys. cmp px (nd_price nd)"
      and "find_or_emplace cmp v px =
             (length xs, xs @ \<lparr>nd_price = px, nd_level = empty_level\<rparr> # ys)"
proof -
  from assms obtain xs ys where v: "v = xs @ ys" and i: "ladder_lower cmp v px = length xs"
    and xs: "\<forall>nd \<in> set xs. cmp (nd_price nd) px"
    and ys: "\<forall>nd \<in> set ys. nd_price nd = px \<or> cmp px (nd_price nd)"
    and tl: "\<forall>nd \<in> set (tl ys). cmp px (nd_price nd)"
    by (rule lower_split)
  show thesis
  proof (cases "ys \<noteq> [] \<and> nd_price (hd ys) = px")
    case True
    then obtain nd zs where "ys = nd # zs" "nd_price nd = px" by (cases ys) auto
    with v i show thesis
      by (intro found [of xs nd zs]) (simp_all add: find_or_emplace_def)
  next
    case False
    with ys tl have ys': "\<forall>nd \<in> set ys. cmp px (nd_price nd)" by (cases ys) auto
    have "\<forall>nd \<in> set v. nd_price nd \<noteq> px" using v xs ys' cmp_irrefl by auto
    moreover have "find_or_emplace cmp v px =
        (length xs, xs @ \<lparr>nd_price = px, nd_level = empty_level\<rparr> # ys)"
      using False v i by (cases ys) (auto simp: find_or_emplace_def)
    ultimately show thesis using fresh v xs ys' by blast
  qed
qed

lemma sorted_insert_node:
  assumes "ladder_sorted cmp (xs @ ys)" and "\<forall>nd \<in> set xs. cmp (nd_price nd) (nd_price new)"
    and "\<forall>nd \<in> set ys. cmp (nd_price new) (nd_price nd)"
  shows "ladder_sorted cmp (xs @ new # ys)"
  using assms by (auto simp: ladder_sorted_def sorted_wrt_append)

end

interpretation bid: price_order bid_cmp
  by unfold_locales (auto simp: bid_cmp_def)

interpretation ask: price_order ask_cmp
  by unfold_locales (auto simp: ask_cmp_def)

interpretation lad: price_order "side_cmp s" for s
  by (cases s) (simp_all add: side_cmp_def bid.price_order_axioms ask.price_order_axioms)

end
