(* ===== verification/Order_Book.thy ===== *)
theory Order_Book
  imports Order_Pool Price_Ladder "HOL-Library.Signed_Division"
begin

section \<open>The order book\<close>

text \<open>
  The class \<open>OrderBook\<close> of include/lob/order_book.hpp and src/order_book.cpp, one
  definition per member function. A member that changes the book returns the new book
  after its result. Where the C++ has one branch for bids and a copy of it for asks, the
  definition takes the side: \<open>ladder s\<close> is \<open>bids_\<close> or \<open>asks_\<close>, with the comparator
  \<open>side_cmp s\<close>.
\<close>

record fill =
  resting_order_id :: order_id_t
  fill_price :: price_t
  fill_qty :: qty_t

record order_book =
  mem :: store
  bids :: "node list"
  asks :: "node list"
  id_slots :: "ptr list"
  next_order_id :: order_id_t
  pool :: order_pool
  pending_stop_storage :: "addr list"

definition ladder :: "side \<Rightarrow> order_book \<Rightarrow> node list" where
  "ladder s b = (case s of Buy \<Rightarrow> bids b | Sell \<Rightarrow> asks b)"

definition set_ladder :: "side \<Rightarrow> node list \<Rightarrow> order_book \<Rightarrow> order_book" where
  "set_ladder s v b = (case s of Buy \<Rightarrow> b\<lparr>bids := v\<rparr> | Sell \<Rightarrow> b\<lparr>asks := v\<rparr>)"

definition find_level :: "side \<Rightarrow> price_t \<Rightarrow> order_book \<Rightarrow> nat option" where
  "find_level s px b = ladder_find (side_cmp s) (ladder s b) px"

definition level_at :: "side \<Rightarrow> nat \<Rightarrow> order_book \<Rightarrow> price_level" where
  "level_at s i b = nd_level (ladder s b ! i)"

definition set_level :: "side \<Rightarrow> nat \<Rightarrow> price_level \<Rightarrow> order_book \<Rightarrow> order_book" where
  "set_level s i l b =
     set_ladder s ((ladder s b)[i := (ladder s b ! i)\<lparr>nd_level := l\<rparr>]) b"

definition erase_level :: "side \<Rightarrow> nat \<Rightarrow> order_book \<Rightarrow> order_book" where
  "erase_level s i b = set_ladder s (ladder_erase (ladder s b) i) b"

text \<open>The memory of the slab is not read before \<open>allocate\<close> has cleared it.\<close>

definition new_book :: "nat \<Rightarrow> alloc_mode \<Rightarrow> order_book" where
  "new_book expected m =
     \<lparr>mem = (\<lambda>_. zero_order), bids = [], asks = [],
      id_slots = replicate (expected * 2 + 8) None, next_order_id = 1,
      pool = new_pool expected m, pending_stop_storage = []\<rparr>"

subsection \<open>The dense id table\<close>

definition find_id :: "order_id_t \<Rightarrow> order_book \<Rightarrow> ptr" where
  "find_id oid b = (if oid \<ge> length (id_slots b) then None else id_slots b ! oid)"

definition put_id :: "addr \<Rightarrow> order_book \<Rightarrow> order_book" where
  "put_id a b =
     (let oid = order_id (mem b a); n = length (id_slots b);
          slots = (if oid \<ge> n then id_slots b @ replicate (max (oid + 1) (n * 2) - n) None
                   else id_slots b)
      in b\<lparr>id_slots := slots[oid := Some a]\<rparr>)"

definition drop_id :: "order_id_t \<Rightarrow> order_book \<Rightarrow> order_book" where
  "drop_id oid b =
     (if oid < length (id_slots b) then b\<lparr>id_slots := (id_slots b)[oid := None]\<rparr> else b)"

definition get_order :: "order_id_t \<Rightarrow> order_book \<Rightarrow> ptr" where
  "get_order oid b = find_id oid b"

definition dealloc :: "addr \<Rightarrow> order_book \<Rightarrow> order_book" where
  "dealloc a b = b\<lparr>pool := deallocate (pool b) a\<rparr>"

text \<open>The destructor gives every order of the id table back to the pool.\<close>

definition destroy_book :: "order_book \<Rightarrow> order_book" where
  "destroy_book b =
     (fold (\<lambda>p b. case p of None \<Rightarrow> b | Some a \<Rightarrow> dealloc a b) (id_slots b) b)
       \<lparr>id_slots := [], pending_stop_storage := []\<rparr>"

subsection \<open>Pending stop orders\<close>

definition add_pending_stop ::
    "side \<Rightarrow> price_t \<Rightarrow> qty_t \<Rightarrow> u8 \<Rightarrow> price_t \<Rightarrow> qty_t \<Rightarrow> order_book \<Rightarrow> order_id_t \<times> order_book"
  where
  "add_pending_stop s stop_px q st limit_px display b =
     (case allocate (pool b) (mem b) of
        (None, _, _) \<Rightarrow> (0, b)
      | (Some a, p, h) \<Rightarrow>
          (let oid = next_order_id b;
               h1 = h(a := (h a)\<lparr>order_id := oid, oside := side_code s,
                       stop_price := stop_px, stop_type := st, price := limit_px, qty := q,
                       remaining_qty := q, display_qty := display,
                       hidden_qty := (if display > 0 \<and> q > display then q - display else 0)\<rparr>);
               b1 = put_id a (b\<lparr>mem := h1, pool := p, next_order_id := oid + 1\<rparr>)
           in (oid, b1\<lparr>pending_stop_storage := pending_stop_storage b1 @ [a]\<rparr>)))"

definition take_pending_stops :: "order_book \<Rightarrow> addr list \<times> order_book" where
  "take_pending_stops b = (pending_stop_storage b, b\<lparr>pending_stop_storage := []\<rparr>)"

definition detach_pending :: "order_id_t \<Rightarrow> order_book \<Rightarrow> ptr \<times> order_book" where
  "detach_pending oid b =
     (let (found, b1) =
            (case List.extract (\<lambda>a. order_id (mem b a) = oid) (pending_stop_storage b) of
               None \<Rightarrow> (None, b)
             | Some (xs, a, ys) \<Rightarrow> (Some a, b\<lparr>pending_stop_storage := xs @ ys\<rparr>))
      in case find_id oid b1 of
           None \<Rightarrow> (found, b1)
         | Some mapped \<Rightarrow> (if found = None then Some mapped else found, drop_id oid b1))"

definition free_order :: "ptr \<Rightarrow> order_book \<Rightarrow> order_book" where
  "free_order p b = (case p of None \<Rightarrow> b | Some a \<Rightarrow> dealloc a b)"

subsection \<open>Walking a level\<close>

text \<open>
  The loop follows \<open>next\<close> until it is null; on a list that never ends it does not return,
  which is \<open>None\<close>.
\<close>

definition walk :: "store \<Rightarrow> ptr \<Rightarrow> addr list option" where
  "walk h p =
     map_option snd
       (while_option (\<lambda>(cur, list). cur \<noteq> None)
          (\<lambda>(cur, list). case cur of None \<Rightarrow> (cur, list) | Some a \<Rightarrow> (nxt (h a), list @ [a]))
          (p, []))"

definition get_level_orders :: "side \<Rightarrow> price_t \<Rightarrow> order_book \<Rightarrow> addr list option" where
  "get_level_orders s px b =
     (case find_level s px b of
        None \<Rightarrow> Some []
      | Some i \<Rightarrow> walk (mem b) (lv_head (level_at s i b)))"

subsection \<open>Adding and cancelling\<close>

definition add_limit_order ::
    "side \<Rightarrow> price_t \<Rightarrow> qty_t \<Rightarrow> order_book \<Rightarrow> order_id_t \<times> order_book" where
  "add_limit_order s px q b =
     (case allocate (pool b) (mem b) of
        (None, _, _) \<Rightarrow> (0, b)
      | (Some a, p, h) \<Rightarrow>
          (let oid = next_order_id b;
               h1 = h(a := (h a)\<lparr>order_id := oid, price := px, qty := q, remaining_qty := q,
                       oside := side_code s, otype := order_type_code Limit, timestamp := 0\<rparr>);
               (i, v) = find_or_emplace (side_cmp s) (ladder s b) px;
               (l, h2) = push_back (nd_level (v ! i)) a h1;
               b1 = set_level s i l
                      (set_ladder s v (b\<lparr>mem := h2, pool := p, next_order_id := oid + 1\<rparr>))
           in (oid, put_id a b1)))"

definition unlink_order :: "side \<Rightarrow> nat \<Rightarrow> addr \<Rightarrow> order_book \<Rightarrow> order_book" where
  "unlink_order s i a b =
     (let (l, h) = remove (level_at s i b) a (mem b);
          b1 = set_level s i l (b\<lparr>mem := h\<rparr>)
      in if lv_cnt l = 0 then erase_level s i b1 else b1)"

definition cancel_order :: "order_id_t \<Rightarrow> order_book \<Rightarrow> bool \<times> order_book" where
  "cancel_order oid b =
     (case find_id oid b of
        None \<Rightarrow> (False, b)
      | Some a \<Rightarrow>
          (let s = side_of_code (oside (mem b a));
               b1 = (case find_level s (price (mem b a)) b of
                       None \<Rightarrow> b
                     | Some i \<Rightarrow> unlink_order s i a b)
           in (True, dealloc a (drop_id oid b1))))"

subsection \<open>Icebergs\<close>

definition try_replenish_iceberg ::
    "addr \<Rightarrow> price_level \<Rightarrow> store \<Rightarrow> bool \<times> price_level \<times> store" where
  "try_replenish_iceberg a l h =
     (if display_qty (h a) = 0 \<or> hidden_qty (h a) = 0 then (False, l, h)
      else
        (let (l1, h1) = remove l a h;
             slice = min (display_qty (h1 a)) (hidden_qty (h1 a));
             h2 = h1(a := (h1 a)\<lparr>hidden_qty := hidden_qty (h1 a) - slice,
                             remaining_qty := slice\<rparr>);
             (l2, h3) = push_back l1 a h2
         in (True, l2, h3)))"

definition configure_iceberg :: "order_id_t \<Rightarrow> qty_t \<Rightarrow> order_book \<Rightarrow> bool \<times> order_book" where
  "configure_iceberg oid display b =
     (case find_id oid b of
        None \<Rightarrow> (False, b)
      | Some a \<Rightarrow>
          (if display = 0 then (False, b)
           else
             (let x = mem b a;
                  x1 = x\<lparr>display_qty := display,
                         hidden_qty := (if qty x > display then qty x - display else 0),
                         remaining_qty := min display (qty x)\<rparr>;
                  delta = remaining_qty x1 - remaining_qty x;
                  b1 = b\<lparr>mem := (mem b)(a := x1)\<rparr>;
                  s = side_of_code (oside x1)
              in (True,
                  case find_level s (price x1) b1 of
                    None \<Rightarrow> b1
                  | Some i \<Rightarrow> set_level s i (adjust_aggregate (level_at s i b1) delta) b1))))"

definition apply_fill :: "order_id_t \<Rightarrow> qty_t \<Rightarrow> order_book \<Rightarrow> qty_t \<times> order_book" where
  "apply_fill oid q b =
     (case find_id oid b of
        None \<Rightarrow> (0, b)
      | Some a \<Rightarrow>
          (let filled = min q (remaining_qty (mem b a));
               x1 = (mem b a)\<lparr>remaining_qty := remaining_qty (mem b a) - filled\<rparr>;
               b1 = b\<lparr>mem := (mem b)(a := x1)\<rparr>;
               s = side_of_code (oside x1)
           in case find_level s (price x1) b1 of
                None \<Rightarrow> (filled, b1)
              | Some i \<Rightarrow>
                  (let l1 = adjust_aggregate (level_at s i b1) (- filled);
                       b2 = set_level s i l1 b1
                   in if remaining_qty x1 \<noteq> 0 then (filled, b2)
                      else
                        (case try_replenish_iceberg a l1 (mem b2) of
                           (True, l2, h2) \<Rightarrow> (filled, set_level s i l2 (b2\<lparr>mem := h2\<rparr>))
                         | (False, _, _) \<Rightarrow>
                             (let (l2, h2) = remove l1 a (mem b2);
                                  b3 = set_level s i l2 (b2\<lparr>mem := h2\<rparr>);
                                  b4 = (if lv_cnt l2 = 0
                                        then set_ladder s
                                               (erase_price (side_cmp s) (ladder s b3)
                                                  (price (h2 a))) b3
                                        else b3)
                              in (filled, dealloc a (drop_id oid b4)))))))"

subsection \<open>Modifying\<close>

definition modify_order ::
    "order_id_t \<Rightarrow> price_t \<Rightarrow> qty_t \<Rightarrow> order_book \<Rightarrow> bool \<times> order_book" where
  "modify_order oid new_price new_qty b =
     (case find_id oid b of
        None \<Rightarrow> (False, b)
      | Some a \<Rightarrow>
          (let x = mem b a; s = side_of_code (oside x)
           in if new_price = price x then
                (True,
                 case find_level s (price x) b of
                   None \<Rightarrow> b
                 | Some i \<Rightarrow>
                     (let old_rem = remaining_qty x;
                          delta_total = new_qty - qty x;
                          new_rem = (if 0 \<le>s delta_total then old_rem + delta_total
                                     else min old_rem new_qty);
                          delta_rem = new_rem - old_rem;
                          b1 = b\<lparr>mem := (mem b)(a := x\<lparr>qty := new_qty,
                                                          remaining_qty := new_rem\<rparr>)\<rparr>
                      in set_level s i (adjust_aggregate (level_at s i b1) delta_rem) b1))
              else
                (True, snd (add_limit_order s new_price new_qty (snd (cancel_order oid b))))))"

subsection \<open>Market orders\<close>

type_synonym market_state = "qty_t \<times> order_book \<times> fill list"

definition market_cond :: "side \<Rightarrow> market_state \<Rightarrow> bool" where
  "market_cond s = (\<lambda>(to_fill, b, fills). to_fill > 0 \<and> ladder (opposite s) b \<noteq> [])"

text \<open>
  One round of the loop: it works on the first level of the opposite ladder (\<open>it\<close> is
  \<open>begin()\<close> throughout, since \<open>erase(begin())\<close> returns the new \<open>begin()\<close>).
\<close>

definition market_step :: "side \<Rightarrow> market_state \<Rightarrow> market_state" where
  "market_step s = (\<lambda>(to_fill, b, fills).
     (let sd = opposite s; l = level_at sd 0 b
      in case lv_head l of
           None \<Rightarrow> (to_fill, erase_level sd 0 b, fills)
         | Some cur \<Rightarrow>
             (let take = min to_fill (remaining_qty (mem b cur));
                  h1 = (mem b)(cur := (mem b cur)
                         \<lparr>remaining_qty := remaining_qty (mem b cur) - take\<rparr>);
                  l1 = decrease_aggregate l take;
                  f = \<lparr>resting_order_id = order_id (h1 cur), fill_price = price (h1 cur),
                       fill_qty = take\<rparr>;
                  (l2, b2) =
                    (if remaining_qty (h1 cur) = 0 then
                       (case try_replenish_iceberg cur l1 h1 of
                          (True, l2, h2) \<Rightarrow> (l2, b\<lparr>mem := h2\<rparr>)
                        | (False, _, _) \<Rightarrow>
                            (let b1 = drop_id (order_id (h1 cur)) (b\<lparr>mem := h1\<rparr>);
                                 (l2, h2) = remove l1 cur (mem b1)
                             in (l2, dealloc cur (b1\<lparr>mem := h2\<rparr>))))
                     else (l1, b\<lparr>mem := h1\<rparr>));
                  b3 = set_level sd 0 l2 b2;
                  b4 = (if lv_cnt l2 = 0 then erase_level sd 0 b3 else b3)
              in (to_fill - take, b4, fills @ [f]))))"

definition market_order :: "side \<Rightarrow> qty_t \<Rightarrow> order_book \<Rightarrow> (fill list \<times> order_book) option" where
  "market_order s q b =
     map_option (\<lambda>(_, b', fills). (fills, b'))
       (while_option (market_cond s) (market_step s) (q, b, []))"

subsection \<open>Quotes\<close>

definition best :: "side \<Rightarrow> order_book \<Rightarrow> price_t option" where
  "best s b = (case ladder s b of [] \<Rightarrow> None | nd # _ \<Rightarrow> Some (nd_price nd))"

definition best_bid :: "order_book \<Rightarrow> price_t option" where
  "best_bid b = (case bids b of [] \<Rightarrow> None | nd # _ \<Rightarrow> Some (nd_price nd))"

definition best_ask :: "order_book \<Rightarrow> price_t option" where
  "best_ask b = (case asks b of [] \<Rightarrow> None | nd # _ \<Rightarrow> Some (nd_price nd))"

definition best_bid_qty :: "order_book \<Rightarrow> qty_t" where
  "best_bid_qty b = (case bids b of [] \<Rightarrow> 0 | nd # _ \<Rightarrow> lv_agg (nd_level nd))"

definition best_ask_qty :: "order_book \<Rightarrow> qty_t" where
  "best_ask_qty b = (case asks b of [] \<Rightarrow> 0 | nd # _ \<Rightarrow> lv_agg (nd_level nd))"

definition midprice :: "order_book \<Rightarrow> price_t option" where
  "midprice b =
     (case (best_bid b, best_ask b) of
        (Some bb, Some ba) \<Rightarrow> Some (word_of_int (sint (bb + ba) sdiv 2))
      | _ \<Rightarrow> None)"

end
