(* ===== verification/Book_Invariant.thy ===== *)
theory Book_Invariant
  imports Order_Book
begin

section \<open>Well-formed order books\<close>

text \<open>
  What the members of \<open>OrderBook\<close> keep true between its fields. A layout gives, for each
  side, the list of addresses that each level of the ladder holds; \<open>book_rel L E b\<close> says
  that the book \<open>b\<close> has layout \<open>L\<close> and, besides the orders in the layout, the pending
  stop orders \<open>E\<close>: every level is a well-linked list of orders of its price and side,
  its aggregate is the exact sum of the visible quantities, the ladders are sorted, the
  id table maps exactly the ids of the orders in use to their addresses, and the pool owns
  exactly the rest of the slab.
\<close>

subsection \<open>Projections of the book's updates\<close>

lemma ladder_set_ladder [simp]:
  "ladder t (set_ladder s v b) = (if t = s then v else ladder t b)"
  by (cases s; cases t) (simp_all add: ladder_def set_ladder_def)

lemma set_ladder_simps [simp]:
  "mem (set_ladder s v b) = mem b" "id_slots (set_ladder s v b) = id_slots b"
  "next_order_id (set_ladder s v b) = next_order_id b" "pool (set_ladder s v b) = pool b"
  "pending_stop_storage (set_ladder s v b) = pending_stop_storage b"
  by (cases s; simp add: set_ladder_def)+

lemma ladder_update [simp]:
  "ladder s (b\<lparr>mem := x1\<rparr>) = ladder s b" "ladder s (b\<lparr>id_slots := x2\<rparr>) = ladder s b"
  "ladder s (b\<lparr>next_order_id := x3\<rparr>) = ladder s b" "ladder s (b\<lparr>pool := x4\<rparr>) = ladder s b"
  "ladder s (b\<lparr>pending_stop_storage := x5\<rparr>) = ladder s b"
  by (cases s; simp add: ladder_def)+

lemma set_level_simps [simp]:
  "mem (set_level s i l b) = mem b" "id_slots (set_level s i l b) = id_slots b"
  "next_order_id (set_level s i l b) = next_order_id b" "pool (set_level s i l b) = pool b"
  "pending_stop_storage (set_level s i l b) = pending_stop_storage b"
  "ladder t (set_level s i l b) =
     (if t = s then (ladder s b)[i := (ladder s b ! i)\<lparr>nd_level := l\<rparr>] else ladder t b)"
  by (simp_all add: set_level_def)

lemma erase_level_simps [simp]:
  "mem (erase_level s i b) = mem b" "id_slots (erase_level s i b) = id_slots b"
  "next_order_id (erase_level s i b) = next_order_id b" "pool (erase_level s i b) = pool b"
  "pending_stop_storage (erase_level s i b) = pending_stop_storage b"
  "ladder t (erase_level s i b) = (if t = s then ladder_erase (ladder s b) i else ladder t b)"
  by (simp_all add: erase_level_def)

lemma drop_id_simps [simp]:
  "mem (drop_id i b) = mem b" "id_slots (drop_id i b) = (id_slots b)[i := None]"
  "next_order_id (drop_id i b) = next_order_id b" "pool (drop_id i b) = pool b"
  "pending_stop_storage (drop_id i b) = pending_stop_storage b"
  "ladder t (drop_id i b) = ladder t b"
  by (auto simp: drop_id_def list_update_beyond)

lemma put_id_simps [simp]:
  "mem (put_id a b) = mem b" "next_order_id (put_id a b) = next_order_id b"
  "pool (put_id a b) = pool b" "pending_stop_storage (put_id a b) = pending_stop_storage b"
  "ladder t (put_id a b) = ladder t b"
  by (simp_all add: put_id_def Let_def)

lemma dealloc_simps [simp]:
  "mem (dealloc a b) = mem b" "id_slots (dealloc a b) = id_slots b"
  "next_order_id (dealloc a b) = next_order_id b" "pool (dealloc a b) = deallocate (pool b) a"
  "pending_stop_storage (dealloc a b) = pending_stop_storage b"
  "ladder t (dealloc a b) = ladder t b"
  by (simp_all add: dealloc_def)

lemma level_at_simps [simp]:
  "level_at s i (b\<lparr>mem := h\<rparr>) = level_at s i b"
  "ladder s b = us @ nd # vs \<Longrightarrow> i = length us \<Longrightarrow> level_at s i b = nd_level nd"
  by (simp_all add: level_at_def)

lemma set_level_mid:
  "ladder s b = us @ nd # vs \<Longrightarrow>
   ladder s (set_level s (length us) l b) = us @ nd\<lparr>nd_level := l\<rparr> # vs"
  by simp

subsection \<open>Levels\<close>

definition level_rems :: "store \<Rightarrow> addr list \<Rightarrow> nat" where
  "level_rems h as = sum_list (map (\<lambda>a. unat (remaining_qty (h a))) as)"

definition level_total :: "store \<Rightarrow> addr list \<Rightarrow> nat" where
  "level_total h as = sum_list (map (\<lambda>a. unat (remaining_qty (h a)) + unat (hidden_qty (h a))) as)"

definition node_rel :: "side \<Rightarrow> store \<Rightarrow> node \<Rightarrow> addr list \<Rightarrow> bool" where
  "node_rel s h nd as \<longleftrightarrow>
     level_links h (nd_level nd) as \<and> as \<noteq> [] \<and>
     unat (lv_agg (nd_level nd)) = level_rems h as \<and> level_total h as < 2 ^ 64 \<and>
     (\<forall>a \<in> set as. price (h a) = nd_price nd \<and> oside (h a) = side_code s \<and>
        stop_type (h a) = 0 \<and> (display_qty (h a) = 0 \<longrightarrow> hidden_qty (h a) = 0))"

definition ladder_rel :: "side \<Rightarrow> store \<Rightarrow> node list \<Rightarrow> addr list list \<Rightarrow> bool" where
  "ladder_rel s h v ls \<longleftrightarrow> ladder_sorted (side_cmp s) v \<and> list_all2 (node_rel s h) v ls"

lemma level_sums_simps [simp]:
  "level_rems h [] = 0" "level_total h [] = 0"
  "level_rems h (a # as) = unat (remaining_qty (h a)) + level_rems h as"
  "level_total h (a # as) =
     unat (remaining_qty (h a)) + unat (hidden_qty (h a)) + level_total h as"
  "level_rems h (xs @ ys) = level_rems h xs + level_rems h ys"
  "level_total h (xs @ ys) = level_total h xs + level_total h ys"
  by (simp_all add: level_rems_def level_total_def)

lemma level_rems_le_total: "level_rems h as \<le> level_total h as"
  by (induction as) auto

lemma level_sums_cong:
  assumes "\<And>a. a \<in> set as \<Longrightarrow> remaining_qty (h' a) = remaining_qty (h a)"
    and "\<And>a. a \<in> set as \<Longrightarrow> hidden_qty (h' a) = hidden_qty (h a)"
  shows "level_rems h' as = level_rems h as" and "level_total h' as = level_total h as"
  using assms by (induction as) auto

lemma level_sums_upd [simp]:
  "a \<notin> set as \<Longrightarrow> level_rems (h(a := x)) as = level_rems h as"
  "a \<notin> set as \<Longrightarrow> level_total (h(a := x)) as = level_total h as"
  by (rule level_sums_cong; auto)+

lemma node_rel_cong:
  assumes "node_rel s h nd as" and "\<And>a. a \<in> set as \<Longrightarrow> h' a = h a"
  shows "node_rel s h' nd as"
  using assms level_links_cong [of as h' h "nd_level nd"] level_sums_cong [of as h' h]
  by (simp add: node_rel_def)

lemma ladder_rel_cong:
  assumes "ladder_rel s h v ls" and "\<And>a. a \<in> set (concat ls) \<Longrightarrow> h' a = h a"
  shows "ladder_rel s h' v ls"
proof -
  from assms(1) have all2: "list_all2 (node_rel s h) v ls" by (simp add: ladder_rel_def)
  then have "list_all2 (node_rel s h') v ls"
    by (rule list.rel_mono_strong) (use assms(2) in \<open>auto intro: node_rel_cong\<close>)
  with assms(1) show ?thesis by (simp add: ladder_rel_def)
qed

lemma ladder_rel_mid:
  "length xs = length us \<Longrightarrow>
   ladder_rel s h (us @ nd # vs) (xs @ as # ys) \<longleftrightarrow>
     ladder_sorted (side_cmp s) (us @ nd # vs) \<and> list_all2 (node_rel s h) us xs \<and>
     node_rel s h nd as \<and> list_all2 (node_rel s h) vs ys"
  by (auto simp: ladder_rel_def list_all2_append)

lemma ladder_rel_length: "ladder_rel s h v ls \<Longrightarrow> length ls = length v"
  by (auto simp: ladder_rel_def dest: list_all2_lengthD)

lemma ladder_rel_split:
  assumes "ladder_rel s h v ls" and "a \<in> set (concat ls)"
  obtains us nd vs xs p q ys where "v = us @ nd # vs" and "ls = xs @ (p @ a # q) # ys"
    and "length xs = length us" and "node_rel s h nd (p @ a # q)"
proof -
  from assms(2) obtain as where "as \<in> set ls" "a \<in> set as" by auto
  then obtain xs ys p q where ls: "ls = xs @ (p @ a # q) # ys"
    by (metis in_set_conv_decomp)
  from assms(1) have len: "length ls = length v" by (rule ladder_rel_length)
  define us nd vs where "us = take (length xs) v" and "nd = v ! length xs"
    and "vs = drop (Suc (length xs)) v"
  have "length xs < length v" using ls len by simp
  then have v: "v = us @ nd # vs" and us: "length xs = length us"
    by (simp_all add: us_def nd_def vs_def id_take_nth_drop)
  with assms(1) ls have "node_rel s h nd (p @ a # q)" by (simp add: ladder_rel_mid)
  with v ls us show thesis by (rule that)
qed

lemma node_rel_distinct: "node_rel s h nd as \<Longrightarrow> distinct as"
  unfolding node_rel_def by (blast intro: level_links_distinct)

lemma node_rel_level: "node_rel s h nd as \<Longrightarrow> level_addrs h (nd_level nd) = as"
  by (simp add: node_rel_def level_addrs_links)

subsection \<open>The id table\<close>

definition slot_at :: "ptr list \<Rightarrow> nat \<Rightarrow> ptr" where
  "slot_at slots i = (if i < length slots then slots ! i else None)"

lemma find_id_slot: "find_id oid b = slot_at (id_slots b) oid"
  by (simp add: find_id_def slot_at_def)

lemma slot_at_None [simp]: "slot_at (slots[i := None]) j = (if j = i then None else slot_at slots j)"
  by (simp add: slot_at_def nth_list_update)

lemma slot_at_Some [simp]:
  "i < length slots \<Longrightarrow>
   slot_at (slots[i := Some a]) j = (if j = i then Some a else slot_at slots j)"
  by (simp add: slot_at_def nth_list_update)

lemma slot_at_grow [simp]: "slot_at (slots @ replicate k None) j = slot_at slots j"
  by (simp add: slot_at_def nth_append)

text \<open>
  The table maps exactly the ids of the live orders. Ids below the counter are never given
  out again, so the id a freed slot still holds is not the id of any live order.
\<close>

definition ids_rel :: "store \<Rightarrow> ptr list \<Rightarrow> nat \<Rightarrow> addr set \<Rightarrow> bool" where
  "ids_rel h slots n live \<longleftrightarrow>
     (\<forall>i a. slot_at slots i = Some a \<longleftrightarrow> a \<in> live \<and> order_id (h a) = i) \<and>
     (\<forall>a \<in> live. 0 < order_id (h a) \<and> (\<forall>c. order_id (h c) = order_id (h a) \<longrightarrow> c = a)) \<and>
     (\<forall>a. order_id (h a) < n)"

lemma ids_relD:
  assumes "ids_rel h slots n live"
  shows "slot_at slots i = Some a \<longleftrightarrow> a \<in> live \<and> order_id (h a) = i"
    and "a \<in> live \<Longrightarrow> 0 < order_id (h a)" and "order_id (h a) < n"
    and "a \<in> live \<Longrightarrow> order_id (h c) = order_id (h a) \<Longrightarrow> c = a"
  using assms unfolding ids_rel_def by blast+

lemma ids_rel_cong:
  assumes "\<And>a. order_id (h' a) = order_id (h a)" and "ids_rel h slots n live"
  shows "ids_rel h' slots n live"
  using assms unfolding ids_rel_def by simp

lemma ids_rel_unique:
  "ids_rel h slots n live \<Longrightarrow> a \<in> live \<Longrightarrow> c \<in> live \<Longrightarrow> order_id (h a) = order_id (h c) \<Longrightarrow> a = c"
  by (metis ids_relD(4))

lemma ids_rel_drop:
  assumes "ids_rel h slots n live" and "a \<in> live"
  shows "ids_rel h (slots[order_id (h a) := None]) n (live - {a})"
  unfolding ids_rel_def
proof (intro conjI allI ballI)
  fix i c
  show "slot_at (slots[order_id (h a) := None]) i = Some c \<longleftrightarrow>
        c \<in> live - {a} \<and> order_id (h c) = i"
    using ids_relD(1) [OF assms(1), of i c] ids_rel_unique [OF assms(1) assms(2), of c] assms(2)
    by auto
qed (use ids_relD(2-4) [OF assms(1)] in auto)

lemma ids_rel_put:
  assumes rel: "ids_rel h slots n live" and a: "a \<notin> live" "order_id (h' a) = n"
    and frame: "\<And>x. x \<noteq> a \<Longrightarrow> order_id (h' x) = order_id (h x)" and n: "n < length slots"
  shows "ids_rel h' (slots[n := Some a]) (Suc n) (insert a live)"
  unfolding ids_rel_def
proof (intro conjI allI ballI impI)
  have below: "order_id (h' x) < n" if "x \<noteq> a" for x
    using ids_relD(3) [OF rel] frame [OF that] by simp
  show "slot_at (slots[n := Some a]) i = Some c \<longleftrightarrow>
        c \<in> insert a live \<and> order_id (h' c) = i" for i c
    using ids_relD(1) [OF rel, of i c] below [of c] frame [of c] a n by (cases "c = a") auto
  show "order_id (h' c) < Suc n" for c using below [of c] a by (cases "c = a") auto
  fix c assume c: "c \<in> insert a live"
  show "0 < order_id (h' c)"
    using c ids_relD(2) [OF rel, of c] ids_relD(3) [OF rel, of c] frame [of c] a by (cases "c = a") auto
  fix d assume eq: "order_id (h' d) = order_id (h' c)"
  show "d = c"
  proof (cases "c = a \<or> d = a")
    case True
    then show ?thesis using eq below [of c] below [of d] a(2) by fastforce
  next
    case False
    then have "c \<in> live" "order_id (h d) = order_id (h c)"
      using eq c by (simp_all add: frame)
    then show ?thesis by - (rule ids_relD(4) [OF rel])
  qed
qed

lemma put_id_rel:
  assumes "ids_rel h (id_slots b) n live" and "a \<notin> live" and "order_id (mem b a) = n"
    and "\<And>x. x \<noteq> a \<Longrightarrow> order_id (mem b x) = order_id (h x)"
  shows "ids_rel (mem b) (id_slots (put_id a b)) (Suc n) (insert a live)"
proof -
  let ?len = "length (id_slots b)"
  define slots where "slots = (if n \<ge> ?len
    then id_slots b @ replicate (max (n + 1) (?len * 2) - ?len) None else id_slots b)"
  have "ids_rel h slots n live" using assms(1) by (simp add: slots_def ids_rel_def)
  moreover have "n < length slots" by (auto simp: slots_def)
  ultimately have "ids_rel (mem b) (slots[n := Some a]) (Suc n) (insert a live)"
    using assms(2,3,4) by (intro ids_rel_put)
  then show ?thesis using assms(3) by (simp add: put_id_def Let_def slots_def)
qed

subsection \<open>The invariant of the book\<close>

type_synonym layout = "side \<Rightarrow> addr list list"

definition resting :: "layout \<Rightarrow> addr list" where
  "resting L = concat (L Buy) @ concat (L Sell)"

definition live :: "layout \<Rightarrow> addr list \<Rightarrow> addr set" where
  "live L E = set (resting L) \<union> set E"

definition pending_ok :: "addr list \<Rightarrow> addr list \<Rightarrow> bool" where
  "pending_ok ps E \<longleftrightarrow> distinct ps \<and> set ps \<subseteq> set E"

definition book_rel :: "layout \<Rightarrow> addr list \<Rightarrow> order_book \<Rightarrow> bool" where
  "book_rel L E b \<longleftrightarrow>
     (\<forall>s. ladder_rel s (mem b) (ladder s b) (L s)) \<and>
     distinct (resting L @ E) \<and>
     ids_rel (mem b) (id_slots b) (next_order_id b) (live L E) \<and>
     pool_inv (pool b) (live L E) \<and>
     pending_ok (pending_stop_storage b) E"

text \<open>The layout is determined by the book: the invariant as a predicate of the book.\<close>

definition layout_of :: "order_book \<Rightarrow> layout" where
  "layout_of b = (\<lambda>s. map (\<lambda>nd. level_addrs (mem b) (nd_level nd)) (ladder s b))"

definition book_inv :: "addr list \<Rightarrow> order_book \<Rightarrow> bool" where
  "book_inv E b \<longleftrightarrow> book_rel (layout_of b) E b"

lemma ladder_rel_layout:
  "ladder_rel s h v ls \<Longrightarrow> map (\<lambda>nd. level_addrs h (nd_level nd)) v = ls"
  unfolding ladder_rel_def
  by (auto simp: list_eq_iff_nth_eq list_all2_conv_all_nth node_rel_level)

lemma book_rel_layout: "book_rel L E b \<Longrightarrow> layout_of b = L"
  unfolding layout_of_def book_rel_def by (rule ext) (blast dest: ladder_rel_layout)

lemma book_inv_iff: "book_inv E b \<longleftrightarrow> (\<exists>L. book_rel L E b)"
  unfolding book_inv_def using book_rel_layout by blast

lemma book_relI [inv_intros]: "book_rel L E b \<Longrightarrow> book_inv E b"
  by (auto simp: book_inv_iff)

lemma set_resting: "set (resting L) = set (concat (L s)) \<union> set (concat (L (opposite s)))"
  by (cases s) (auto simp: resting_def)

lemma distinct_resting:
  "distinct (resting L @ E) \<longleftrightarrow> distinct (concat (L s) @ concat (L (opposite s)) @ E)"
  by (cases s) (auto simp: resting_def)

lemma in_liveE:
  assumes "a \<in> live L E" and "a \<notin> set E"
  obtains s where "a \<in> set (concat (L s))"
  using assms by (auto simp: live_def resting_def)

lemma resting_upd:
  "set (resting (L(s := ls))) = set (concat ls) \<union> set (concat (L (opposite s)))"
  using set_resting [of "L(s := ls)" s] by simp

lemma find_id_live:
  assumes "book_rel L E b" and "find_id oid b = Some a"
  shows "a \<in> live L E" and "order_id (mem b a) = oid"
  using assms ids_relD(1) [of "mem b" "id_slots b" _ "live L E" oid a]
  by (auto simp: book_rel_def find_id_slot)

lemma find_id_Some:
  "book_rel L E b \<Longrightarrow> a \<in> live L E \<Longrightarrow> find_id (order_id (mem b a)) b = Some a"
  using ids_relD(1) [of "mem b" "id_slots b" _ "live L E" _ a]
  by (auto simp: book_rel_def find_id_slot)

lemma book_rel_locate:
  assumes "book_rel L E b" and "a \<in> set (concat (L s))"
  obtains us nd vs xs p q ys where "ladder s b = us @ nd # vs"
    and "L s = xs @ (p @ a # q) # ys" and "length xs = length us"
    and "node_rel s (mem b) nd (p @ a # q)"
    and "oside (mem b a) = side_code s" and "price (mem b a) = nd_price nd"
    and "find_level s (nd_price nd) b = Some (length us)"
proof -
  from assms(1) have lr: "ladder_rel s (mem b) (ladder s b) (L s)" by (simp add: book_rel_def)
  from ladder_rel_split [OF lr assms(2)] obtain us nd vs xs p q ys
    where v: "ladder s b = us @ nd # vs" and L: "L s = xs @ (p @ a # q) # ys"
      and len: "length xs = length us" and node: "node_rel s (mem b) nd (p @ a # q)" by metis
  from lr v have "ladder_sorted (side_cmp s) (us @ nd # vs)" by (simp add: ladder_rel_def)
  then have "find_level s (nd_price nd) b = Some (length us)"
    by (simp add: find_level_def v lad.find_mid)
  with v L len node show thesis by (intro that) (auto simp: node_rel_def)
qed

lemma book_rel_new: "book_rel (\<lambda>_. []) [] (new_book n m)"
proof -
  have "ladder s (new_book n m) = []" for s by (cases s) (simp_all add: ladder_def new_book_def)
  then show ?thesis
    by (simp add: book_rel_def ladder_rel_def ladder_sorted_def resting_def live_def ids_rel_def
        new_book_def pool_inv_new slot_at_def zero_order_def pending_ok_def)
qed

lemma new_book_inv [inv_intros]: "book_inv [] (new_book n m)"
  by (rule book_relI) (rule book_rel_new)

end
