(* ===== verification/Book_Spec.thy ===== *)
theory Book_Spec
  imports Lob_Types
begin

section \<open>What an order book promises: price-time priority on lists\<close>

text \<open>
  The abstract book that the pointer structure of \<open>Order_Book\<close> implements. A side is a
  list of levels in ladder order, a level a price with its queue of orders, an order its
  id, original quantity, visible quantity, display size and hidden quantity, as naturals.
  The operations are the ones a reader would write down from docs/matching_semantics.md;
  the theorems of this theory are about them alone.
\<close>

record aorder =
  ao_id :: nat
  ao_qty :: nat
  ao_vis :: nat
  ao_disp :: nat
  ao_hid :: nat

type_synonym alevel = "price_t \<times> aorder list"
type_synonym aside = "alevel list"
type_synonym afill = "nat \<times> price_t \<times> nat"

subsection \<open>Operations\<close>

text \<open>A new order goes to the end of its level; a missing level is made at its place.\<close>

fun sp_add :: "(price_t \<Rightarrow> price_t \<Rightarrow> bool) \<Rightarrow> price_t \<Rightarrow> aorder \<Rightarrow> aside \<Rightarrow> aside" where
  "sp_add cmp p x [] = [(p, [x])]"
| "sp_add cmp p x ((p', xs) # ls) =
     (if p' = p then (p', xs @ [x]) # ls
      else if cmp p' p then (p', xs) # sp_add cmp p x ls
      else (p, [x]) # (p', xs) # ls)"

text \<open>Removing an order by id; a level that becomes empty disappears.\<close>

definition sp_remove :: "nat \<Rightarrow> aside \<Rightarrow> aside" where
  "sp_remove i ls =
     filter (\<lambda>(p, xs). xs \<noteq> [])
       (map (\<lambda>(p, xs). (p, filter (\<lambda>x. ao_id x \<noteq> i) xs)) ls)"

text \<open>Changing an order in place: it keeps its place in the queue.\<close>

definition sp_update :: "nat \<Rightarrow> (aorder \<Rightarrow> aorder) \<Rightarrow> aside \<Rightarrow> aside" where
  "sp_update i f ls = map (\<lambda>(p, xs). (p, map (\<lambda>x. if ao_id x = i then f x else x) xs)) ls"

text \<open>
  The head order \<open>x\<close> of the best level gives \<open>t\<close>: it stays at the head with what is
  left of its slice; when the slice is used up, the order is done (and an empty level
  disappears), or a new slice is peeled off the hidden quantity and the order goes to the
  back of its level.
\<close>

definition sp_consume :: "nat \<Rightarrow> price_t \<Rightarrow> aorder \<Rightarrow> aorder list \<Rightarrow> aside \<Rightarrow> aside" where
  "sp_consume t p x xs ls =
     (let x' = x\<lparr>ao_vis := ao_vis x - t\<rparr>; slice = min (ao_disp x) (ao_hid x)
      in if ao_vis x' \<noteq> 0 then (p, x' # xs) # ls
         else if ao_disp x = 0 \<or> ao_hid x = 0 then (if xs = [] then ls else (p, xs) # ls)
         else (p, xs @ [x'\<lparr>ao_vis := slice, ao_hid := ao_hid x - slice\<rparr>]) # ls)"

definition order_weight :: "aorder \<Rightarrow> nat" where
  "order_weight x = ao_vis x + ao_hid x + (if ao_vis x = 0 then 2 else 1)"

definition side_weight :: "aside \<Rightarrow> nat" where
  "side_weight ls = sum_list (map (\<lambda>(p, xs). Suc (sum_list (map order_weight xs))) ls)"

lemma side_weight_simps [simp]:
  "side_weight [] = 0"
  "side_weight ((p, xs) # ls) = Suc (sum_list (map order_weight xs) + side_weight ls)"
  by (simp_all add: side_weight_def)

lemma sp_consume_weight:
  "0 < q \<Longrightarrow> side_weight (sp_consume (min q (ao_vis x)) p x xs ls) < side_weight ((p, x # xs) # ls)"
  by (auto simp: sp_consume_def order_weight_def Let_def)

text \<open>A market order takes from the head of the best level until it is filled.\<close>

function sp_match :: "nat \<Rightarrow> aside \<Rightarrow> afill list \<times> aside" where
  "sp_match q [] = ([], [])"
| "sp_match q ((p, []) # ls) = (if q = 0 then ([], (p, []) # ls) else sp_match q ls)"
| "sp_match q ((p, x # xs) # ls) =
     (if q = 0 then ([], (p, x # xs) # ls)
      else
        (let t = min q (ao_vis x); (fs, r) = sp_match (q - t) (sp_consume t p x xs ls)
         in ((ao_id x, p, t) # fs, r)))"
  by pat_completeness auto
termination
  by (relation "measure (\<lambda>(q, ls). side_weight ls)") (auto intro: sp_consume_weight [simplified])

text \<open>
  Induction along a run of \<open>sp_match\<close>: it stops, or skips an empty level, or takes from
  the head order and goes on.
\<close>

lemma sp_match_induct [consumes 1, case_names stop skip take]:
  assumes "sp_match q ls = (fs, r)"
    and stop: "\<And>q ls. q = 0 \<or> ls = [] \<Longrightarrow> P q ls [] ls"
    and skip: "\<And>q p ls fs r. 0 < q \<Longrightarrow> P q ls fs r \<Longrightarrow> P q ((p, []) # ls) fs r"
    and take: "\<And>q p x xs ls fs r t. 0 < q \<Longrightarrow> t = min q (ao_vis x) \<Longrightarrow>
      sp_match (q - t) (sp_consume t p x xs ls) = (fs, r) \<Longrightarrow>
      P (q - t) (sp_consume t p x xs ls) fs r \<Longrightarrow> P q ((p, x # xs) # ls) ((ao_id x, p, t) # fs) r"
  shows "P q ls fs r"
  using assms(1)
proof (induction q ls arbitrary: fs r rule: sp_match.induct)
  case (1 q)
  then show ?case by (auto intro: stop)
next
  case (2 q p ls)
  then show ?case by (auto intro: stop skip split: if_splits)
next
  case (3 q p x xs ls)
  show ?case
  proof (cases "q = 0")
    case True
    with 3 show ?thesis by (auto intro: stop)
  next
    case False
    define t where "t = min q (ao_vis x)"
    obtain fs' where rec: "sp_match (q - t) (sp_consume t p x xs ls) = (fs', r)"
      and fs: "fs = (ao_id x, p, t) # fs'"
      using "3.prems" False by (auto simp: Let_def t_def split: prod.splits)
    have "P (q - t) (sp_consume t p x xs ls) fs' r"
      by (rule "3.IH" [OF False t_def]) (rule rec)
    then show ?thesis unfolding fs using False rec by (intro take) (simp_all add: t_def)
  qed
qed

subsection \<open>Liquidity\<close>

definition order_liq :: "aorder \<Rightarrow> nat" where
  "order_liq x = ao_vis x + ao_hid x"

definition liquidity :: "aside \<Rightarrow> nat" where
  "liquidity ls = sum_list (map (\<lambda>(p, xs). sum_list (map order_liq xs)) ls)"

definition filled :: "afill list \<Rightarrow> nat" where
  "filled fs = sum_list (map (\<lambda>(i, p, q). q) fs)"

text \<open>What the book keeps true of its orders: hidden quantity only with a display size.\<close>

definition side_ok :: "aside \<Rightarrow> bool" where
  "side_ok ls \<longleftrightarrow> (\<forall>(p, xs) \<in> set ls. \<forall>x \<in> set xs. ao_disp x = 0 \<longrightarrow> ao_hid x = 0)"

lemma liquidity_simps [simp]:
  "liquidity [] = 0"
  "liquidity ((p, xs) # ls) = sum_list (map order_liq xs) + liquidity ls"
  by (simp_all add: liquidity_def)

lemma filled_simps [simp]: "filled [] = 0" "filled ((i, p, q) # fs) = q + filled fs"
  by (simp_all add: filled_def)

lemma filled_append [simp]: "filled (fs @ gs) = filled fs + filled gs"
  by (simp add: filled_def)

lemma side_ok_simps [simp]:
  "side_ok []"
  "side_ok ((p, xs) # ls) \<longleftrightarrow> (\<forall>x \<in> set xs. ao_disp x = 0 \<longrightarrow> ao_hid x = 0) \<and> side_ok ls"
  by (auto simp: side_ok_def)

lemma sp_consume_ok: "side_ok ((p, x # xs) # ls) \<Longrightarrow> side_ok (sp_consume t p x xs ls)"
  by (auto simp: sp_consume_def Let_def)

lemma sp_consume_liquidity:
  "side_ok ((p, x # xs) # ls) \<Longrightarrow> t \<le> ao_vis x \<Longrightarrow>
   liquidity (sp_consume t p x xs ls) + t = liquidity ((p, x # xs) # ls)"
  by (auto simp: sp_consume_def Let_def order_liq_def)

text \<open>The fills add up to exactly what was asked for or what there was, whichever is less.\<close>

lemma sp_match_filled:
  assumes "sp_match q ls = (fs, r)" and "side_ok ls"
  shows "filled fs = min q (liquidity ls)" and "liquidity r + filled fs = liquidity ls"
    and "side_ok r"
proof -
  have "filled fs = min q (liquidity ls) \<and> liquidity r + filled fs = liquidity ls \<and> side_ok r"
    using assms
  proof (induction rule: sp_match_induct)
    case (take q p x xs ls fs r t)
    from take.prems have "side_ok (sp_consume t p x xs ls)" by (rule sp_consume_ok)
    moreover have "liquidity (sp_consume t p x xs ls) + t = liquidity ((p, x # xs) # ls)"
      using take.prems take.hyps by (intro sp_consume_liquidity) simp_all
    ultimately show ?case using take.IH take.hyps by auto
  qed auto
  then show "filled fs = min q (liquidity ls)" "liquidity r + filled fs = liquidity ls"
    "side_ok r" by blast+
qed

subsection \<open>Price priority\<close>

definition side_sorted :: "(price_t \<Rightarrow> price_t \<Rightarrow> bool) \<Rightarrow> aside \<Rightarrow> bool" where
  "side_sorted cmp ls \<longleftrightarrow> sorted_wrt cmp (map fst ls)"

definition fill_prices :: "afill list \<Rightarrow> price_t list" where
  "fill_prices fs = map (\<lambda>(i, p, q). p) fs"

lemma fill_prices_simps [simp]:
  "fill_prices [] = []" "fill_prices ((i, p, q) # fs) = p # fill_prices fs"
  by (simp_all add: fill_prices_def)

lemma sp_consume_prices:
  "map fst (sp_consume t p x xs ls) = p # map fst ls \<or>
   map fst (sp_consume t p x xs ls) = map fst ls"
  by (auto simp: sp_consume_def Let_def)

lemma sp_consume_price_set: "fst ` set (sp_consume t p x xs ls) \<subseteq> insert p (fst ` set ls)"
  by (auto simp: sp_consume_def Let_def)

lemma sp_consume_sorted:
  "side_sorted cmp ((p, x # xs) # ls) \<Longrightarrow> side_sorted cmp (sp_consume t p x xs ls)"
  using sp_consume_prices [of t p x xs ls] unfolding side_sorted_def by (elim disjE) simp_all

lemma sp_match_prices:
  assumes "sp_match q ls = (fs, r)"
  shows "set (fill_prices fs) \<union> fst ` set r \<subseteq> fst ` set ls"
  using assms
proof (induction rule: sp_match_induct)
  case (take q p x xs ls fs r t)
  from take.IH sp_consume_price_set [of t p x xs ls]
  have "set (fill_prices fs) \<union> fst ` set r \<subseteq> insert p (fst ` set ls)" by (rule subset_trans)
  then show ?case by simp
qed auto

lemma sp_match_sorted:
  assumes "sp_match q ls = (fs, r)" and "side_sorted cmp ls"
  shows "side_sorted cmp r"
  using assms
proof (induction rule: sp_match_induct)
  case (skip q p ls fs r)
  then show ?case by (simp add: side_sorted_def)
next
  case (take q p x xs ls fs r t)
  from sp_consume_sorted [OF take.prems] show ?case by (rule take.IH)
qed simp

text \<open>
  Fills come from the best price outwards, and no level that compares before the price of
  a fill is left in the book: a worse price trades only when the better ones are gone.
\<close>

lemma sp_match_price_priority:
  assumes "sp_match q ls = (fs, r)" and "side_sorted cmp ls"
    and irrefl: "\<And>a. \<not> cmp a a" and trans: "\<And>a b c. cmp a b \<Longrightarrow> cmp b c \<Longrightarrow> cmp a c"
  shows "sorted_wrt (\<lambda>p p'. p = p' \<or> cmp p p') (fill_prices fs) \<and>
    (\<forall>p \<in> set (fill_prices fs). \<forall>p' \<in> fst ` set r. \<not> cmp p' p)"
  using assms(1,2)
proof (induction rule: sp_match_induct)
  case (skip q p ls fs r)
  then show ?case by (simp add: side_sorted_def)
next
  case (take q p x xs ls fs r t)
  from sp_match_prices [OF take.hyps(3)] sp_consume_price_set [of t p x xs ls]
  have within: "set (fill_prices fs) \<subseteq> insert p (fst ` set ls)"
    "fst ` set r \<subseteq> insert p (fst ` set ls)" by blast+
  have first: "\<forall>p' \<in> fst ` set ls. cmp p p'"
    using take.prems by (simp add: side_sorted_def)
  then have p: "(p = p' \<or> cmp p p') \<and> \<not> cmp p' p" if "p' \<in> insert p (fst ` set ls)" for p'
    using irrefl trans that by blast
  have "\<forall>p' \<in> set (fill_prices fs). p = p' \<or> cmp p p'" "\<forall>p' \<in> fst ` set r. \<not> cmp p' p"
    using within p by blast+
  with take.IH [OF sp_consume_sorted [OF take.prems]] show ?case by simp
qed simp

subsection \<open>Filling an order by id\<close>

text \<open>
  The queue of a level after its order \<open>x\<close>, between \<open>pre\<close> and \<open>post\<close>, has given \<open>t\<close>.
  \<open>sp_consume\<close> is the case of the head order.
\<close>

definition after_fill :: "nat \<Rightarrow> aorder list \<Rightarrow> aorder \<Rightarrow> aorder list \<Rightarrow> aorder list" where
  "after_fill t pre x post =
     (let x' = x\<lparr>ao_vis := ao_vis x - t\<rparr>; slice = min (ao_disp x) (ao_hid x)
      in if ao_vis x' \<noteq> 0 then pre @ x' # post
         else if ao_disp x = 0 \<or> ao_hid x = 0 then pre @ post
         else pre @ post @ [x'\<lparr>ao_vis := slice, ao_hid := ao_hid x - slice\<rparr>])"

definition with_level :: "price_t \<Rightarrow> aorder list \<Rightarrow> aside" where
  "with_level p xs = (if xs = [] then [] else [(p, xs)])"

definition fill_queue :: "nat \<Rightarrow> nat \<Rightarrow> aorder list \<Rightarrow> aorder list" where
  "fill_queue i t xs =
     (case List.extract (\<lambda>x. ao_id x = i) xs of
        None \<Rightarrow> xs
      | Some (pre, x, post) \<Rightarrow> after_fill t pre x post)"

definition sp_fill :: "nat \<Rightarrow> nat \<Rightarrow> aside \<Rightarrow> aside" where
  "sp_fill i t ls = concat (map (\<lambda>(p, xs). with_level p (fill_queue i t xs)) ls)"

lemma sp_consume_after: "sp_consume t p x xs ls = with_level p (after_fill t [] x xs) @ ls"
  by (auto simp: sp_consume_def after_fill_def with_level_def Let_def)

lemma with_level_simps [simp]:
  "with_level p [] = []" "xs \<noteq> [] \<Longrightarrow> with_level p xs = [(p, xs)]"
  by (simp_all add: with_level_def)

lemma fill_queue_absent: "i \<notin> ao_id ` set xs \<Longrightarrow> fill_queue i t xs = xs"
  by (auto simp: fill_queue_def extract_None_iff split: option.splits dest!: extract_SomeE)

lemma extract_mid:
  "\<forall>y \<in> set pre. \<not> P y \<Longrightarrow> P x \<Longrightarrow> List.extract P (pre @ x # post) = Some (pre, x, post)"
  by (induction pre) (auto simp: extract_Cons_code)

lemma fill_queue_mid:
  "ao_id x \<notin> ao_id ` set pre \<Longrightarrow> fill_queue (ao_id x) t (pre @ x # post) = after_fill t pre x post"
  unfolding fill_queue_def by (subst extract_mid) (auto simp: image_iff)

subsection \<open>Operations at a known place\<close>

definition side_ids :: "aside \<Rightarrow> nat list" where
  "side_ids ls = concat (map (\<lambda>(p, xs). map ao_id xs) ls)"

definition side_full :: "aside \<Rightarrow> bool" where
  "side_full ls \<longleftrightarrow> (\<forall>(p, xs) \<in> set ls. xs \<noteq> [])"

definition level_liq :: "price_t \<Rightarrow> aside \<Rightarrow> nat" where
  "level_liq p ls = liquidity (filter (\<lambda>(p', xs). p' = p) ls)"

lemma side_ids_simps [simp]:
  "side_ids [] = []" "side_ids ((p, xs) # ls) = map ao_id xs @ side_ids ls"
  "side_ids (ls @ ms) = side_ids ls @ side_ids ms"
  by (simp_all add: side_ids_def)

lemma side_full_simps [simp]:
  "side_full []" "side_full ((p, xs) # ls) \<longleftrightarrow> xs \<noteq> [] \<and> side_full ls"
  "side_full (ls @ ms) \<longleftrightarrow> side_full ls \<and> side_full ms"
  by (auto simp: side_full_def)

lemma liquidity_append [simp]: "liquidity (ls @ ms) = liquidity ls + liquidity ms"
  by (simp add: liquidity_def)

lemma level_liq_simps [simp]:
  "level_liq p [] = 0"
  "level_liq p ((p', xs) # ls) = (if p' = p then sum_list (map order_liq xs) else 0) + level_liq p ls"
  "level_liq p (ls @ ms) = level_liq p ls + level_liq p ms"
  by (simp_all add: level_liq_def)

lemma level_liq_le: "level_liq p ls \<le> liquidity ls"
  by (induction ls) auto

lemma level_liq_absent: "p \<notin> fst ` set ls \<Longrightarrow> level_liq p ls = 0"
  by (induction ls) auto

lemma sp_remove_simps:
  "sp_remove i [] = []"
  "sp_remove i (ls @ ms) = sp_remove i ls @ sp_remove i ms"
  "sp_remove i ((p, xs) # ls) =
     (let ys = filter (\<lambda>x. ao_id x \<noteq> i) xs
      in (if ys = [] then [] else [(p, ys)]) @ sp_remove i ls)"
  by (simp_all add: sp_remove_def Let_def)

lemma filter_ids_absent: "i \<notin> ao_id ` set xs \<Longrightarrow> filter (\<lambda>x. ao_id x \<noteq> i) xs = xs"
  by (induction xs) auto

lemma map_ids_absent:
  "i \<notin> ao_id ` set xs \<Longrightarrow> map (\<lambda>x. if ao_id x = i then f x else x) xs = xs"
  by (induction xs) auto

lemma sp_remove_absent: "side_full ls \<Longrightarrow> i \<notin> set (side_ids ls) \<Longrightarrow> sp_remove i ls = ls"
  by (induction ls) (auto simp: sp_remove_simps filter_ids_absent)

lemma sp_update_simps:
  "sp_update i f [] = []"
  "sp_update i f (ls @ ms) = sp_update i f ls @ sp_update i f ms"
  "sp_update i f ((p, xs) # ls) =
     (p, map (\<lambda>x. if ao_id x = i then f x else x) xs) # sp_update i f ls"
  by (simp_all add: sp_update_def)

lemma sp_update_absent: "i \<notin> set (side_ids ls) \<Longrightarrow> sp_update i f ls = ls"
  by (induction ls) (auto simp: sp_update_simps map_ids_absent)

lemma sp_remove_mid:
  assumes "distinct (side_ids (ls @ (p, xs @ x # ys) # ms))" and "side_full (ls @ ms)"
  shows "sp_remove (ao_id x) (ls @ (p, xs @ x # ys) # ms) =
    ls @ (if xs @ ys = [] then [] else [(p, xs @ ys)]) @ ms"
  using assms by (auto simp: sp_remove_simps sp_remove_absent filter_ids_absent Let_def)

lemma sp_update_mid:
  assumes "distinct (side_ids (ls @ (p, xs @ x # ys) # ms))"
  shows "sp_update (ao_id x) f (ls @ (p, xs @ x # ys) # ms) = ls @ (p, xs @ f x # ys) # ms"
  using assms by (auto simp: sp_update_simps sp_update_absent map_ids_absent)

lemma sp_add_found:
  "\<forall>p' \<in> fst ` set ls. p' \<noteq> p \<and> cmp p' p \<Longrightarrow>
   sp_add cmp p x (ls @ (p, xs) # ms) = ls @ (p, xs @ [x]) # ms"
  by (induction ls) auto

lemma sp_add_fresh:
  "\<forall>p' \<in> fst ` set ls. p' \<noteq> p \<and> cmp p' p \<Longrightarrow> \<forall>p' \<in> fst ` set ms. p' \<noteq> p \<and> \<not> cmp p' p \<Longrightarrow>
   sp_add cmp p x (ls @ ms) = ls @ (p, [x]) # ms"
  by (induction ls) (cases ms; auto)+

lemma sp_fill_absent: "side_full ls \<Longrightarrow> i \<notin> set (side_ids ls) \<Longrightarrow> sp_fill i t ls = ls"
  by (induction ls) (auto simp: sp_fill_def fill_queue_absent)

lemma sp_fill_mid:
  assumes "distinct (side_ids (ls @ (p, xs @ x # ys) # ms))" and "side_full (ls @ ms)"
  shows "sp_fill (ao_id x) t (ls @ (p, xs @ x # ys) # ms) =
    ls @ with_level p (after_fill t xs x ys) @ ms"
proof -
  have "sp_fill (ao_id x) t ls = ls" "sp_fill (ao_id x) t ms = ms"
    using assms by (intro sp_fill_absent; auto)+
  moreover have "fill_queue (ao_id x) t (xs @ x # ys) = after_fill t xs x ys"
    using assms by (intro fill_queue_mid) auto
  ultimately show ?thesis by (simp add: sp_fill_def)
qed

text \<open>Adding a fresh order and removing it again.\<close>

lemma sp_remove_add:
  assumes "side_full ls" and "ao_id x \<notin> set (side_ids ls)"
  shows "sp_remove (ao_id x) (sp_add cmp p x ls) = ls"
  using assms
  by (induction ls) (auto simp: sp_remove_simps sp_remove_absent filter_ids_absent Let_def)

end
