(* ===== verification/Book_View.thy ===== *)
theory Book_View
  imports Book_Invariant Book_Spec
begin

section \<open>The abstract view of a book, and how a level may change\<close>

text \<open>
  \<open>book_view b\<close> reads a well-formed pointer book as the list book of \<open>Book_Spec\<close>. The
  lemmas of the second part are the framework of every operation proof: an operation
  replaces at most one level of one side, so they derive the invariant and the view of the
  new book from facts about that level alone.
\<close>

definition abs_order :: "order \<Rightarrow> aorder" where
  "abs_order x = \<lparr>ao_id = order_id x, ao_qty = unat (qty x), ao_vis = unat (remaining_qty x),
     ao_disp = unat (display_qty x), ao_hid = unat (hidden_qty x)\<rparr>"

definition abs_level :: "store \<Rightarrow> addr list \<Rightarrow> aorder list" where
  "abs_level h as = map (\<lambda>a. abs_order (h a)) as"

definition view_of :: "store \<Rightarrow> node list \<Rightarrow> addr list list \<Rightarrow> aside" where
  "view_of h v ls = map2 (\<lambda>nd as. (nd_price nd, abs_level h as)) v ls"

definition book_view :: "order_book \<Rightarrow> side \<Rightarrow> aside" where
  "book_view b s = view_of (mem b) (ladder s b) (layout_of b s)"

definition abs_fill :: "fill \<Rightarrow> afill" where
  "abs_fill f = (resting_order_id f, fill_price f, unat (fill_qty f))"

lemma book_view_rel: "book_rel L E b \<Longrightarrow> book_view b s = view_of (mem b) (ladder s b) (L s)"
  by (simp add: book_view_def book_rel_layout)

lemma new_book_view: "book_view (new_book n m) s = []"
  by (simp add: book_view_rel [OF book_rel_new] view_of_def)

lemma abs_level_simps [simp]:
  "abs_level h [] = []"
  "abs_level h (a # as) = abs_order (h a) # abs_level h as"
  "abs_level h (xs @ ys) = abs_level h xs @ abs_level h ys"
  "abs_level h as = [] \<longleftrightarrow> as = []"
  by (simp_all add: abs_level_def)

lemma abs_level_cong: "(\<And>a. a \<in> set as \<Longrightarrow> abs_order (h' a) = abs_order (h a)) \<Longrightarrow>
    abs_level h' as = abs_level h as"
  by (simp add: abs_level_def)

lemma abs_order_payload:
  assumes "payload x = payload y"
  shows "abs_order x = abs_order y"
  unfolding abs_order_def payload_eqD [OF assms] ..

lemma abs_order_sel [simp]:
  "ao_id (abs_order x) = order_id x" "ao_qty (abs_order x) = unat (qty x)"
  "ao_vis (abs_order x) = unat (remaining_qty x)" "ao_disp (abs_order x) = unat (display_qty x)"
  "ao_hid (abs_order x) = unat (hidden_qty x)"
  by (simp_all add: abs_order_def)

lemma view_of_simps [simp]:
  "view_of h [] [] = []"
  "view_of h (nd # v) (as # ls) = (nd_price nd, abs_level h as) # view_of h v ls"
  by (simp_all add: view_of_def)

lemma view_of_append:
  "length us = length xs \<Longrightarrow> view_of h (us @ vs) (xs @ ys) = view_of h us xs @ view_of h vs ys"
  by (simp add: view_of_def)

lemma view_of_cong:
  assumes "\<And>a. a \<in> set (concat ls) \<Longrightarrow> h' a = h a"
  shows "view_of h' v ls = view_of h v ls"
proof -
  have "abs_level h' as = abs_level h as" if "as \<in> set ls" for as
    using that by (intro abs_level_cong arg_cong [where f = abs_order] assms) auto
  then show ?thesis unfolding view_of_def by (auto dest!: set_zip_rightD)
qed

lemma view_prices:
  "length ls = length v \<Longrightarrow> map fst (view_of h v ls) = map nd_price v"
  by (simp add: view_of_def list_eq_iff_nth_eq)

lemma level_total_view: "level_total h as = sum_list (map order_liq (abs_level h as))"
  by (simp add: level_total_def abs_level_def order_liq_def comp_def)

subsection \<open>The two sides of a book\<close>

lemma book_rel_side:
  "book_rel L E b \<longleftrightarrow>
     ladder_rel s (mem b) (ladder s b) (L s) \<and>
     ladder_rel (opposite s) (mem b) (ladder (opposite s) b) (L (opposite s)) \<and>
     distinct (concat (L s) @ concat (L (opposite s)) @ E) \<and>
     ids_rel (mem b) (id_slots b) (next_order_id b)
       (set (concat (L s)) \<union> set (concat (L (opposite s))) \<union> set E) \<and>
     pool_inv (pool b) (set (concat (L s)) \<union> set (concat (L (opposite s))) \<union> set E) \<and>
     pending_ok (pending_stop_storage b) E"
proof -
  have all: "(\<forall>t. P t) \<longleftrightarrow> P s \<and> P (opposite s)" for P
    by (cases s; simp; metis side.exhaust)
  show ?thesis
    unfolding book_rel_def live_def set_resting [of L s] distinct_resting [of L E s]
      all [of "\<lambda>t. ladder_rel t (mem b) (ladder t b) (L t)"] by (simp only: conj_assoc)
qed

lemma fun_side_eqI: "f s = g s \<Longrightarrow> f (opposite s) = g (opposite s) \<Longrightarrow> f = g"
  by (rule ext) (metis opposite_simps side.exhaust)

text \<open>
  The framework: a book whose side \<open>s\<close> is \<open>us @ nds @ vs\<close> with layout \<open>xs @ ass @ ys\<close>,
  and a new book where \<open>nds\<close> and \<open>ass\<close> (none or one level each) are replaced, everything
  else keeping its orders.
\<close>

lemma book_rel_replace:
  assumes rel: "book_rel L E b"
    and lad: "ladder s b = us @ nds @ vs" and L: "L s = xs @ ass @ ys"
    and len: "length xs = length us" "length ass = length nds"
    and lad': "ladder s b' = us @ nds' @ vs"
    and other: "ladder (opposite s) b' = ladder (opposite s) b"
    and sorted: "ladder_sorted (side_cmp s) (us @ nds' @ vs)"
    and nodes: "list_all2 (node_rel s (mem b')) nds' ass'"
    and frame: "\<And>x. x \<in> live L E \<Longrightarrow> x \<notin> set (concat ass) \<Longrightarrow> mem b' x = mem b x"
    and dist: "distinct (concat ass')"
    and new: "set (concat ass') \<inter> live L E \<subseteq> set (concat ass)"
    and liv: "live' = (live L E - set (concat ass)) \<union> set (concat ass')"
    and ids: "ids_rel (mem b') (id_slots b') (next_order_id b') live'"
    and pool: "pool_inv (pool b') live'"
    and pend: "pending_ok (pending_stop_storage b') E"
  shows "book_rel (L(s := xs @ ass' @ ys)) E b' \<and>
    book_view b' s = view_of (mem b) us xs @ view_of (mem b') nds' ass' @ view_of (mem b) vs ys \<and>
    book_view b s = view_of (mem b) us xs @ view_of (mem b) nds ass @ view_of (mem b) vs ys \<and>
    book_view b' (opposite s) = book_view b (opposite s)"
proof (intro conjI)
  note side = rel [unfolded book_rel_side [of L E b s]]
  let ?o = "concat (L (opposite s))"
  have flat: "live L E = set (concat xs @ concat ass @ concat ys @ ?o @ E)"
    unfolding live_def set_resting [of L s] L
    by (simp only: concat_append set_append Un_assoc)
  from side have D: "distinct (concat xs @ concat ass @ concat ys @ ?o @ E)"
    unfolding L by (simp only: concat_append append_assoc)
  have lr: "ladder_rel s (mem b) (us @ nds @ vs) (xs @ ass @ ys)" using side lad L by simp
  then have all2: "list_all2 (node_rel s (mem b)) us xs" "list_all2 (node_rel s (mem b)) vs ys"
    using len by (auto simp: ladder_rel_def list_all2_append)
  have fr: "\<And>x. x \<in> set (concat xs) \<Longrightarrow> mem b' x = mem b x"
    "\<And>x. x \<in> set (concat ys) \<Longrightarrow> mem b' x = mem b x"
    "\<And>x. x \<in> set (concat (L (opposite s))) \<Longrightarrow> mem b' x = mem b x"
    using D by (intro frame; unfold flat set_append distinct_append; blast)+
  have all2': "list_all2 (node_rel s (mem b')) us xs"
    by (rule list.rel_mono_strong [OF all2(1)]) (use fr(1) in \<open>auto intro: node_rel_cong\<close>)
  have all2'': "list_all2 (node_rel s (mem b')) vs ys"
    by (rule list.rel_mono_strong [OF all2(2)]) (use fr(2) in \<open>auto intro: node_rel_cong\<close>)
  have lr': "ladder_rel s (mem b') (us @ nds' @ vs) (xs @ ass' @ ys)"
    using sorted all2' nodes all2'' by (simp add: ladder_rel_def list_all2_appendI)
  have opp: "ladder_rel (opposite s) (mem b') (ladder (opposite s) b') (L (opposite s))"
    unfolding other by (rule ladder_rel_cong) (use side fr(3) in auto)
  note swap = distinct_swap_middle [OF D dist new [unfolded flat]]
  have D': "distinct (concat (xs @ ass' @ ys) @ ?o @ E)"
    using swap(1) by (simp only: concat_append append_assoc)
  have liv': "live' = set (concat (xs @ ass' @ ys)) \<union> set ?o \<union> set E"
    using swap(2) unfolding liv flat by (simp only: concat_append set_append Un_assoc)
  show rel': "book_rel (L(s := xs @ ass' @ ys)) E b'"
    unfolding book_rel_side [of _ _ _ s] using lr' opp D' ids pool pend
    by (simp add: lad' liv')
  have views: "view_of (mem b') v xs = view_of (mem b) v xs"
    "view_of (mem b') v ys = view_of (mem b) v ys"
    "view_of (mem b') v (L (opposite s)) = view_of (mem b) v (L (opposite s))" for v
    by (rule view_of_cong, erule fr)+
  have len': "length nds' = length ass'" using nodes by (auto dest: list_all2_lengthD)
  show "book_view b' s =
      view_of (mem b) us xs @ view_of (mem b') nds' ass' @ view_of (mem b) vs ys"
    using len len' unfolding book_view_rel [OF rel'] lad'
    by (simp add: view_of_append views)
  show "book_view b s =
      view_of (mem b) us xs @ view_of (mem b) nds ass @ view_of (mem b) vs ys"
    using len unfolding book_view_rel [OF rel] lad L by (simp add: view_of_append)
  show "book_view b' (opposite s) = book_view b (opposite s)"
    unfolding book_view_rel [OF rel'] book_view_rel [OF rel] other fun_upd_other [OF opposite_neq(1)]
    by (rule views)
qed

text \<open>The three ways an operation changes a level: the same orders, one less, one more.\<close>

lemma book_rel_keep:
  assumes rel: "book_rel L E b"
    and lad: "ladder s b = us @ nd # vs" and L: "L s = xs @ as # ys"
    and len: "length xs = length us"
    and lad': "ladder s b' = us @ nd' # vs"
    and other: "ladder (opposite s) b' = ladder (opposite s) b"
    and price: "nd_price nd' = nd_price nd"
    and node: "node_rel s (mem b') nd' as'" and set: "set as' = set as"
    and frame: "\<forall>x. x \<notin> set as \<longrightarrow> mem b' x = mem b x"
    and oid: "\<forall>x. order_id (mem b' x) = order_id (mem b x)"
    and same: "id_slots b' = id_slots b" "next_order_id b' = next_order_id b"
      "pool b' = pool b" "pending_stop_storage b' = pending_stop_storage b"
  shows "book_rel (L(s := xs @ as' # ys)) E b'"
    and "book_view b' = (book_view b)(s := view_of (mem b) us xs @
      (nd_price nd, abs_level (mem b') as') # view_of (mem b) vs ys)"
    and "book_view b s = view_of (mem b) us xs @
      (nd_price nd, abs_level (mem b) as) # view_of (mem b) vs ys"
proof -
  have in_live: "set as \<subseteq> live L E" using L by (auto simp: live_def set_resting [of L s])
  have ids: "ids_rel (mem b') (id_slots b') (next_order_id b') (live L E)"
    using rel oid unfolding book_rel_def same by (blast intro: ids_rel_cong)
  have sorted: "ladder_sorted (side_cmp s) (us @ [nd'] @ vs)"
    using rel lad ladder_sorted_replace [OF price] unfolding book_rel_side [of L E b s]
    by (simp add: ladder_rel_def)
  have "book_rel (L(s := xs @ [as'] @ ys)) E b' \<and>
    book_view b' s = view_of (mem b) us xs @ view_of (mem b') [nd'] [as'] @ view_of (mem b) vs ys \<and>
    book_view b s = view_of (mem b) us xs @ view_of (mem b) [nd] [as] @ view_of (mem b) vs ys \<and>
    book_view b' (opposite s) = book_view b (opposite s)"
    by (rule book_rel_replace [OF rel, where live' = "live L E"];
      use rel lad L len lad' other node set frame ids sorted same in_live in
        \<open>auto simp: book_rel_def node_rel_def level_links_distinct\<close>)
  then show "book_rel (L(s := xs @ as' # ys)) E b'"
    and "book_view b s = view_of (mem b) us xs @
      (nd_price nd, abs_level (mem b) as) # view_of (mem b) vs ys"
    and "book_view b' = (book_view b)(s := view_of (mem b) us xs @
      (nd_price nd, abs_level (mem b') as') # view_of (mem b) vs ys)"
    using price by (auto intro!: fun_side_eqI [where s = s])
qed

lemma book_rel_take:
  assumes rel: "book_rel L E b"
    and lad: "ladder s b = us @ nd # vs" and L: "L s = xs @ as # ys"
    and len: "length xs = length us"
    and set: "set as = insert a (set as')" "a \<notin> set as'" "distinct as'"
    and lad': "ladder s b' = us @ (if as' = [] then [] else [nd']) @ vs"
    and other: "ladder (opposite s) b' = ladder (opposite s) b"
    and price: "nd_price nd' = nd_price nd"
    and node: "as' \<noteq> [] \<longrightarrow> node_rel s (mem b') nd' as'"
    and frame: "\<forall>x. x \<notin> set as \<longrightarrow> mem b' x = mem b x"
    and oid: "\<forall>x. order_id (mem b' x) = order_id (mem b x)"
    and same: "id_slots b' = (id_slots b)[order_id (mem b a) := None]"
      "next_order_id b' = next_order_id b" "pool b' = deallocate (pool b) a"
      "pending_stop_storage b' = pending_stop_storage b"
  shows "book_rel (L(s := xs @ (if as' = [] then [] else [as']) @ ys)) E b'"
    and "book_view b' = (book_view b)(s := view_of (mem b) us xs @
      (if as' = [] then [] else [(nd_price nd, abs_level (mem b') as')]) @ view_of (mem b) vs ys)"
    and "book_view b s = view_of (mem b) us xs @
      (nd_price nd, abs_level (mem b) as) # view_of (mem b) vs ys"
proof -
  let ?nds = "if as' = [] then [] else [nd']" and ?ass = "if as' = [] then [] else [as']"
  have in_live: "set as \<subseteq> live L E" using L by (auto simp: live_def set_resting [of L s])
  then have a: "a \<in> live L E" using set by auto
  have ids: "ids_rel (mem b') (id_slots b') (next_order_id b') (live L E - {a})"
    unfolding same using rel a
    by (intro ids_rel_cong [OF _ ids_rel_drop]) (simp_all add: oid book_rel_def)
  have pool: "pool_inv (pool b') (live L E - {a})"
    unfolding same using rel a by (intro deallocate_inv) (simp_all add: book_rel_def)
  have "ladder_sorted (side_cmp s) (us @ nd # vs)"
    using rel lad unfolding book_rel_side [of L E b s] by (simp add: ladder_rel_def)
  then have sorted: "ladder_sorted (side_cmp s) (us @ ?nds @ vs)"
    by (auto simp: ladder_sorted_replace [OF price] intro: ladder_sorted_remove)
  have "book_rel (L(s := xs @ ?ass @ ys)) E b' \<and>
    book_view b' s = view_of (mem b) us xs @ view_of (mem b') ?nds ?ass @ view_of (mem b) vs ys \<and>
    book_view b s = view_of (mem b) us xs @ view_of (mem b) [nd] [as] @ view_of (mem b) vs ys \<and>
    book_view b' (opposite s) = book_view b (opposite s)"
  proof (rule book_rel_replace [OF rel, where live' = "live L E - {a}"])
    show "live L E - {a} = live L E - set (concat [as]) \<union> set (concat ?ass)"
      using set in_live by auto
    show "pending_ok (pending_stop_storage b') E" using rel same by (simp add: book_rel_def)
  qed (use lad L len lad' other node set frame ids pool sorted in_live in auto)
  then show "book_rel (L(s := xs @ ?ass @ ys)) E b'"
    and "book_view b s = view_of (mem b) us xs @
      (nd_price nd, abs_level (mem b) as) # view_of (mem b) vs ys"
    and "book_view b' = (book_view b)(s := view_of (mem b) us xs @
      (if as' = [] then [] else [(nd_price nd, abs_level (mem b') as')]) @ view_of (mem b) vs ys)"
    using price by (auto intro!: fun_side_eqI [where s = s])
qed

lemma book_rel_give:
  assumes rel: "book_rel L E b"
    and lad: "ladder s b = us @ nds @ vs" and L: "L s = xs @ ass @ ys"
    and len: "length xs = length us" "length ass = length nds"
    and a: "a \<notin> live L E"
    and lad': "ladder s b' = us @ nd' # vs"
    and other: "ladder (opposite s) b' = ladder (opposite s) b"
    and sorted: "ladder_sorted (side_cmp s) (us @ nd' # vs)"
    and node: "node_rel s (mem b') nd' (concat ass @ [a])"
    and frame: "\<forall>x. x \<notin> set (concat ass) \<longrightarrow> x \<noteq> a \<longrightarrow> mem b' x = mem b x"
    and ids: "ids_rel (mem b') (id_slots b') (next_order_id b') (insert a (live L E))"
    and pool: "pool_inv (pool b') (insert a (live L E))"
    and same: "pending_stop_storage b' = pending_stop_storage b"
  shows "book_rel (L(s := xs @ (concat ass @ [a]) # ys)) E b'"
    and "book_view b' = (book_view b)(s := view_of (mem b) us xs @
      (nd_price nd', abs_level (mem b') (concat ass @ [a])) # view_of (mem b) vs ys)"
    and "book_view b s = view_of (mem b) us xs @ view_of (mem b) nds ass @ view_of (mem b) vs ys"
proof -
  have in_live: "set (concat ass) \<subseteq> live L E"
    using L by (auto simp: live_def set_resting [of L s])
  have "book_rel (L(s := xs @ [concat ass @ [a]] @ ys)) E b' \<and>
    book_view b' s = view_of (mem b) us xs @ view_of (mem b') [nd'] [concat ass @ [a]] @
      view_of (mem b) vs ys \<and>
    book_view b s = view_of (mem b) us xs @ view_of (mem b) nds ass @ view_of (mem b) vs ys \<and>
    book_view b' (opposite s) = book_view b (opposite s)"
  proof (rule book_rel_replace [OF rel, where live' = "insert a (live L E)"])
    show "insert a (live L E) =
        live L E - set (concat ass) \<union> set (concat [concat ass @ [a]])"
      using in_live by auto
    show "pending_ok (pending_stop_storage b') E" using rel same by (simp add: book_rel_def)
    show "mem b' x = mem b x" if "x \<in> live L E" "x \<notin> set (concat ass)" for x
      using that a frame by auto
    show "distinct (concat [concat ass @ [a]])"
      using node_rel_distinct [OF node] by simp
  qed (use lad L len lad' other node a ids pool sorted in_live in auto)
  then show "book_rel (L(s := xs @ (concat ass @ [a]) # ys)) E b'"
    and "book_view b s = view_of (mem b) us xs @ view_of (mem b) nds ass @ view_of (mem b) vs ys"
    and "book_view b' = (book_view b)(s := view_of (mem b) us xs @
      (nd_price nd', abs_level (mem b') (concat ass @ [a])) # view_of (mem b) vs ys)"
    by (auto intro!: fun_side_eqI [where s = s])
qed

end
