(* ===== verification/Level_Ops.thy ===== *)
theory Level_Ops
  imports Book_View
begin

section \<open>What the primitive operations do to one level\<close>

text \<open>
  Filling an order, unlinking it, requeueing an iceberg slice and linking a new order, each
  as a fact about one level: the level's invariant \<open>node_rel\<close> and its abstract queue.
\<close>

lemma same_payload:
  assumes "\<And>x. payload (h' x) = payload (h x)"
  shows "abs_order (h' x) = abs_order (h x)" "remaining_qty (h' x) = remaining_qty (h x)"
    "hidden_qty (h' x) = hidden_qty (h x)" "display_qty (h' x) = display_qty (h x)"
    "order_id (h' x) = order_id (h x)" "price (h' x) = price (h x)"
    "oside (h' x) = oside (h x)" "stop_type (h' x) = stop_type (h x)" "qty (h' x) = qty (h x)"
    "abs_level h' as = abs_level h as" "level_rems h' as = level_rems h as"
    "level_total h' as = level_total h as"
  using payload_eqD [OF assms] abs_order_payload [OF assms]
  by (simp_all add: abs_level_def level_rems_def level_total_def)

lemma node_rel_nonempty: "node_rel s h nd as \<Longrightarrow> as \<noteq> []"
  by (simp add: node_rel_def)

lemma node_rel_links: "node_rel s h nd as \<Longrightarrow> level_links h (nd_level nd) as"
  by (simp add: node_rel_def)

lemma node_rel_member:
  assumes "node_rel s h nd as" and "a \<in> set as"
  shows "price (h a) = nd_price nd" "oside (h a) = side_code s" "stop_type (h a) = 0"
    "display_qty (h a) = 0 \<Longrightarrow> hidden_qty (h a) = 0"
  using assms by (auto simp: node_rel_def)

text \<open>Unlinking an order.\<close>

lemma node_rel_remove:
  assumes node: "node_rel s h nd (p @ a # q)" and rem: "remove (nd_level nd) a h = (l, h')"
  shows "p @ q \<noteq> [] \<Longrightarrow> node_rel s h' (nd\<lparr>nd_level := l\<rparr>) (p @ q)"
    and "lv_cnt l = 0 \<longleftrightarrow> p @ q = []"
    and "\<And>x. x \<notin> set (p @ a # q) \<Longrightarrow> h' x = h x"
    and "\<And>x. payload (h' x) = payload (h x)"
    and "level_links h' l (p @ q)"
    and "unat (lv_agg l) = level_rems h' (p @ q)"
proof -
  note rl = remove_links [OF node_rel_links [OF node] rem]
  show frame: "\<And>x. x \<notin> set (p @ a # q) \<Longrightarrow> h' x = h x" by (rule rl(2))
  show pay: "\<And>x. payload (h' x) = payload (h x)" by (rule rl(3))
  show links: "level_links h' l (p @ q)" by (rule rl(1))
  show "lv_cnt l = 0 \<longleftrightarrow> p @ q = []" using links by (simp add: level_links_cnt)
  note same = same_payload [of h' h, OF pay]
  show agg: "unat (lv_agg l) = level_rems h' (p @ q)"
    using node by (simp add: rl(4) same unat_simps node_rel_def)
  show "p @ q \<noteq> [] \<Longrightarrow> node_rel s h' (nd\<lparr>nd_level := l\<rparr>) (p @ q)"
    using node links agg by (auto simp: node_rel_def same)
qed

text \<open>Taking \<open>t\<close> from the visible quantity of an order, with the aggregate adjusted.\<close>

lemma node_rel_fill:
  assumes node: "node_rel s h nd (p @ a # q)" and t: "unat t \<le> unat (remaining_qty (h a))"
    and h1: "h1 = h(a := (h a)\<lparr>remaining_qty := remaining_qty (h a) - t\<rparr>)"
    and l: "l = (nd_level nd)\<lparr>lv_agg := lv_agg (nd_level nd) - t\<rparr>"
  shows "node_rel s h1 (nd\<lparr>nd_level := l\<rparr>) (p @ a # q)"
proof -
  have "distinct (p @ a # q)" using node by (rule node_rel_distinct)
  moreover have "level_links h1 (nd_level nd) (p @ a # q)"
    using node by (subst level_links_cong [of _ _ h]) (auto simp: h1 node_rel_def)
  ultimately show ?thesis
    using node t by (auto simp: node_rel_def h1 l unat_simps)
qed

lemma decrease_aggregate_le:
  "unat t \<le> unat (lv_agg l) \<Longrightarrow> decrease_aggregate l t = l\<lparr>lv_agg := lv_agg l - t\<rparr>"
  by (auto simp: decrease_aggregate_def word_less_nat_alt)

lemma node_rel_agg_ge:
  "node_rel s h nd (p @ a # q) \<Longrightarrow> unat (remaining_qty (h a)) \<le> unat (lv_agg (nd_level nd))"
  by (simp add: node_rel_def)

text \<open>Linking a new order at the end of a level (an empty one, or one of the ladder).\<close>

lemma node_rel_push:
  assumes links: "level_links h l as" and agg: "unat (lv_agg l) = level_rems h as"
    and a: "a \<notin> set as" and push: "push_back l a h = (l', h')"
    and room: "level_total h as + unat (remaining_qty (h a)) + unat (hidden_qty (h a)) < 2 ^ 64"
    and mem: "\<forall>x \<in> set (as @ [a]). price (h x) = px \<and> oside (h x) = side_code s \<and>
      stop_type (h x) = 0 \<and> (display_qty (h x) = 0 \<longrightarrow> hidden_qty (h x) = 0)"
    and nd: "nd_price nd = px" "nd_level nd = l'"
  shows "node_rel s h' nd (as @ [a])"
    and "\<And>x. x \<noteq> a \<Longrightarrow> x \<notin> set as \<Longrightarrow> h' x = h x"
    and "\<And>x. payload (h' x) = payload (h x)"
proof -
  note pl = push_back_links [OF links a push]
  show "\<And>x. x \<noteq> a \<Longrightarrow> x \<notin> set as \<Longrightarrow> h' x = h x" by (rule pl(2))
  show pay: "\<And>x. payload (h' x) = payload (h x)" by (rule pl(3))
  note same = same_payload [of h' h, OF pay]
  have "level_rems h as \<le> level_total h as" by (rule level_rems_le_total)
  with room agg have "unat (lv_agg l') = level_rems h as + unat (remaining_qty (h a))"
    by (simp add: pl(4) unat_add_less)
  with pl(1) room mem nd show "node_rel s h' nd (as @ [a])"
    by (simp add: node_rel_def same)
qed

text \<open>Replenishing an iceberg whose slice is used up: it goes to the back of its level.\<close>

lemma node_rel_replenish:
  assumes node: "node_rel s h nd (p @ a # q)" and rem0: "remaining_qty (h a) = 0"
    and rep: "try_replenish_iceberg a (nd_level nd) h = (True, l2, h2)"
  shows "node_rel s h2 (nd\<lparr>nd_level := l2\<rparr>) (p @ q @ [a])"
    and "\<And>x. x \<notin> set (p @ a # q) \<Longrightarrow> h2 x = h x"
    and "\<And>x. order_id (h2 x) = order_id (h x)"
    and "abs_level h2 (p @ q) = abs_level h (p @ q)"
    and "abs_order (h2 a) = (abs_order (h a))
      \<lparr>ao_vis := min (unat (display_qty (h a))) (unat (hidden_qty (h a))),
       ao_hid := unat (hidden_qty (h a)) - min (unat (display_qty (h a))) (unat (hidden_qty (h a)))\<rparr>"
    and "\<And>x. x \<noteq> a \<Longrightarrow> payload (h2 x) = payload (h x)"
proof -
  obtain l1 h1 where r: "remove (nd_level nd) a h = (l1, h1)" by (cases "remove (nd_level nd) a h")
  define slice where "slice = min (display_qty (h a)) (hidden_qty (h a))"
  define g where "g = h1(a := (h1 a)\<lparr>hidden_qty := hidden_qty (h1 a) - slice,
                                     remaining_qty := slice\<rparr>)"
  note rm = node_rel_remove [OF node r]
  note same1 = same_payload [of h1 h, OF rm(4)]
  have push: "push_back l1 a g = (l2, h2)"
    using rep by (auto simp: try_replenish_iceberg_def r g_def slice_def same1 Let_def
        split: if_splits prod.splits)
  have dist: "distinct (p @ a # q)" using node by (rule node_rel_distinct)
  have slice: "unat slice = min (unat (display_qty (h a))) (unat (hidden_qty (h a)))"
    by (simp add: slice_def unat_simps)
  then have le: "unat slice \<le> unat (hidden_qty (h a))" by simp
  have links: "level_links g l1 (p @ q)"
    using rm(5) dist by (subst level_links_cong [of _ _ h1]) (auto simp: g_def)
  have agg: "unat (lv_agg l1) = level_rems g (p @ q)" using rm(6) dist by (simp add: g_def)
  have a: "a \<notin> set (p @ q)" using dist by simp
  have room: "level_total g (p @ q) + unat (remaining_qty (g a)) + unat (hidden_qty (g a)) < 2 ^ 64"
    using node dist rem0 le by (simp add: g_def same1 node_rel_def unat_simps)
  have mem: "\<forall>x \<in> set ((p @ q) @ [a]). price (g x) = nd_price nd \<and> oside (g x) = side_code s \<and>
      stop_type (g x) = 0 \<and> (display_qty (g x) = 0 \<longrightarrow> hidden_qty (g x) = 0)"
    using node dist by (auto simp: g_def same1 node_rel_def slice_def)
  note pu = node_rel_push [OF links agg a push room mem, of "nd\<lparr>nd_level := l2\<rparr>"]
  then show "node_rel s h2 (nd\<lparr>nd_level := l2\<rparr>) (p @ q @ [a])" by simp
  show "h2 x = h x" if "x \<notin> set (p @ a # q)" for x
    using pu(2) [of x] rm(3) [of x] that by (simp add: g_def)
  have pay: "\<And>x. payload (h2 x) = payload (g x)" by (rule pu(3)) simp_all
  note same2 = same_payload [of h2 g, OF pay]
  show "order_id (h2 x) = order_id (h x)" for x by (simp add: same2 g_def same1)
  show "payload (h2 x) = payload (h x)" if "x \<noteq> a" for x
    using that pay [of x] rm(4) [of x] by (simp add: g_def)
  show "abs_level h2 (p @ q) = abs_level h (p @ q)"
    using a by (simp add: same2 g_def same1 abs_level_def)
  show "abs_order (h2 a) = (abs_order (h a))
      \<lparr>ao_vis := min (unat (display_qty (h a))) (unat (hidden_qty (h a))),
       ao_hid := unat (hidden_qty (h a)) - min (unat (display_qty (h a))) (unat (hidden_qty (h a)))\<rparr>"
    using le by (simp add: same2 g_def abs_order_def same1 unat_simps slice)
qed

lemma try_replenish_False:
  "try_replenish_iceberg a l h = (False, l', h') \<longleftrightarrow>
     (display_qty (h a) = 0 \<or> hidden_qty (h a) = 0) \<and> l' = l \<and> h' = h"
  by (auto simp: try_replenish_iceberg_def Let_def split: prod.splits)

lemma try_replenish_cases:
  obtains (finished) "display_qty (h a) = 0 \<or> hidden_qty (h a) = 0"
      "try_replenish_iceberg a l h = (False, l, h)"
  | (requeued) l2 h2 where "display_qty (h a) \<noteq> 0" "hidden_qty (h a) \<noteq> 0"
      "try_replenish_iceberg a l h = (True, l2, h2)"
proof (cases "display_qty (h a) = 0 \<or> hidden_qty (h a) = 0")
  case True
  then show thesis by (intro finished) (simp_all add: try_replenish_iceberg_def)
next
  case False
  moreover from False obtain l2 h2 where "try_replenish_iceberg a l h = (True, l2, h2)"
    by (auto simp: try_replenish_iceberg_def Let_def case_prod_beta) (metis surj_pair)
  ultimately show thesis by (intro requeued) simp_all
qed

text \<open>
  Changing an order in place. The aggregate moves by the difference of the visible
  quantities, which \<open>adjust_aggregate\<close> gets right when an increase fits in 63 bits.
\<close>

lemma adjust_aggregate_exact:
  assumes ge: "unat r0 \<le> unat (lv_agg l)"
    and small: "unat r0 \<le> unat r1 \<Longrightarrow> unat r1 - unat r0 < 2 ^ 63"
    and room: "unat (lv_agg l) - unat r0 + unat r1 < 2 ^ 64"
  shows "adjust_aggregate l (r1 - r0) = l\<lparr>lv_agg := lv_agg l - r0 + r1\<rparr>"
    and "unat (lv_agg l - r0 + r1) = unat (lv_agg l) - unat r0 + unat r1"
proof -
  show "unat (lv_agg l - r0 + r1) = unat (lv_agg l) - unat r0 + unat r1"
    using ge room by (simp add: unat_simps)
  show "adjust_aggregate l (r1 - r0) = l\<lparr>lv_agg := lv_agg l - r0 + r1\<rparr>"
  proof (cases "0 \<le>s r1 - r0")
    case True
    then show ?thesis by (simp add: adjust_aggregate_def algebra_simps)
  next
    case False
    have lt: "unat r1 < unat r0"
    proof (rule ccontr)
      assume "\<not> unat r1 < unat r0"
      then have "0 \<le>s r1 - r0" using small by (intro nonneg_small) (simp add: unat_simps)
      with False show False by blast
    qed
    then have "unat (r0 - r1) = unat r0 - unat r1" by (simp add: unat_simps)
    then have "\<not> lv_agg l < r0 - r1" using ge by (simp add: word_less_nat_alt)
    with False show ?thesis by (simp add: adjust_aggregate_def Let_def algebra_simps)
  qed
qed

lemma node_rel_change:
  assumes node: "node_rel s h nd (p @ a # q)"
    and links: "prev x = prev (h a)" "nxt x = nxt (h a)"
    and fixed: "price x = price (h a)" "oside x = oside (h a)" "stop_type x = stop_type (h a)"
    and disp: "display_qty x = 0 \<longrightarrow> hidden_qty x = 0"
    and agg: "unat g = level_rems h (p @ q) + unat (remaining_qty x)"
    and room: "level_total h (p @ q) + unat (remaining_qty x) + unat (hidden_qty x) < 2 ^ 64"
  shows "node_rel s (h(a := x)) (nd\<lparr>nd_level := (nd_level nd)\<lparr>lv_agg := g\<rparr>\<rparr>) (p @ a # q)"
proof -
  have "distinct (p @ a # q)" using node by (rule node_rel_distinct)
  moreover have "level_links (h(a := x)) (nd_level nd) (p @ a # q)"
    using node links by (subst level_links_cong [of _ _ h]) (auto simp: node_rel_def)
  ultimately show ?thesis
    using node fixed disp agg room by (auto simp: node_rel_def)
qed

end
