(* ===== verification/Book_Ops.thy ===== *)
theory Book_Ops
  imports Level_Ops
begin

section \<open>The operations keep the book well formed and refine the list book\<close>

text \<open>
  One lemma per member function: from a well-formed book it leads to a well-formed book
  whose view is the list operation of \<open>Book_Spec\<close> applied to the old view.
\<close>

subsection \<open>Facts about the view of a well-formed book\<close>

lemma view_of_ids:
  "length ls = length v \<Longrightarrow>
   side_ids (view_of h v ls) = map (\<lambda>a. order_id (h a)) (concat ls)"
proof (induction ls arbitrary: v)
  case Nil
  then show ?case by simp
next
  case (Cons as ls)
  then obtain nd w where "v = nd # w" by (cases v) auto
  with Cons show ?case by (simp add: abs_level_def comp_def)
qed

lemma view_of_full:
  "list_all2 (node_rel s h) v ls \<Longrightarrow> side_full (view_of h v ls)"
  by (induction rule: list_all2_induct) (auto simp: node_rel_nonempty)

lemma view_of_ok: "list_all2 (node_rel s h) v ls \<Longrightarrow> side_ok (view_of h v ls)"
proof (induction rule: list_all2_induct)
  case (Cons nd v as ls)
  then have "ao_hid x = 0" if "x \<in> set (abs_level h as)" "ao_disp x = 0" for x
    using that node_rel_member(4) [of s h nd as]
    by (auto simp: abs_level_def unat_eq_zero)
  with Cons show ?case by simp
qed simp

lemma book_rel_ladder: "book_rel L E b \<Longrightarrow> ladder_rel s (mem b) (ladder s b) (L s)"
  by (simp add: book_rel_def)

lemma book_rel_nodes: "book_rel L E b \<Longrightarrow> list_all2 (node_rel s (mem b)) (ladder s b) (L s)"
  using book_rel_ladder [of L E b s] by (simp add: ladder_rel_def)

lemma book_rel_sorted: "book_rel L E b \<Longrightarrow> ladder_sorted (side_cmp s) (ladder s b)"
  using book_rel_ladder [of L E b s] by (simp add: ladder_rel_def)

lemma book_rel_length: "book_rel L E b \<Longrightarrow> length (L s) = length (ladder s b)"
  using book_rel_ladder [of L E b s] by (rule ladder_rel_length)

lemma book_view_full: "book_rel L E b \<Longrightarrow> side_full (book_view b s)"
  using book_rel_nodes [of L E b s] by (simp add: book_view_rel view_of_full)

lemma book_view_ok: "book_rel L E b \<Longrightarrow> side_ok (book_view b s)"
  using book_rel_nodes [of L E b s] by (simp add: book_view_rel view_of_ok)

lemma book_view_sorted: "book_rel L E b \<Longrightarrow> side_sorted (side_cmp s) (book_view b s)"
  using book_rel_sorted [of L E b s] book_rel_length [of L E b s]
  by (simp add: side_sorted_def book_view_rel view_prices ladder_sorted_def)

lemma book_view_ids:
  "book_rel L E b \<Longrightarrow> side_ids (book_view b s) = map (\<lambda>a. order_id (mem b a)) (concat (L s))"
  using book_rel_length [of L E b s] by (simp add: book_view_rel view_of_ids)

lemma book_rel_ids_inj: "book_rel L E b \<Longrightarrow> inj_on (\<lambda>a. order_id (mem b a)) (live L E)"
  unfolding book_rel_def by (blast intro: inj_onI ids_rel_unique)

lemma book_ids_distinct:
  assumes "book_rel L E b"
  shows "distinct (side_ids (book_view b s) @ side_ids (book_view b (opposite s)))"
proof -
  let ?as = "concat (L s) @ concat (L (opposite s))"
  have "distinct (?as @ E)" using assms unfolding book_rel_side [of L E b s] by simp
  moreover have "set ?as \<subseteq> live L E" by (auto simp: live_def set_resting [of L s])
  with book_rel_ids_inj [OF assms] have "inj_on (\<lambda>a. order_id (mem b a)) (set ?as)"
    by (rule inj_on_subset)
  ultimately have "distinct (map (\<lambda>a. order_id (mem b a)) ?as)"
    unfolding distinct_map by (metis distinct_append)
  then show ?thesis by (simp add: book_view_ids [OF assms])
qed

lemma book_ids_distinct1:
  "book_rel L E b \<Longrightarrow> distinct (side_ids (book_view b s))"
  using book_ids_distinct [of L E b s] unfolding distinct_append by blast

lemma book_view_other:
  assumes "book_rel L E b" and "i \<in> set (side_ids (book_view b s))"
  shows "i \<notin> set (side_ids (book_view b (opposite s)))"
  using book_ids_distinct [OF assms(1), of s] assms(2) by auto

text \<open>
  What no operation on resting orders touches: the pending stops, wherever their owner
  keeps them, and the kind of pool.
\<close>

definition book_frame :: "addr list \<Rightarrow> order_book \<Rightarrow> order_book \<Rightarrow> bool" where
  "book_frame E b b' \<longleftrightarrow>
     pending_stop_storage b' = pending_stop_storage b \<and> (\<forall>x \<in> set E. mem b' x = mem b x) \<and>
     mode (pool b') = mode (pool b) \<and> capacity (pool b') = capacity (pool b)"

lemma book_frameI:
  assumes rel: "book_rel L E b" and L: "L s = xs @ as # ys"
    and frame: "\<forall>x. x \<notin> set as \<longrightarrow> mem b' x = mem b x"
    and same: "pending_stop_storage b' = pending_stop_storage b"
      "mode (pool b') = mode (pool b)" "capacity (pool b') = capacity (pool b)"
  shows "book_frame E b b'"
proof -
  have "distinct (concat (L s) @ concat (L (opposite s)) @ E)"
    using rel unfolding book_rel_side [of L E b s] by simp
  then have "set E \<inter> set as = {}" unfolding L by auto
  with frame have "\<forall>x \<in> set E. mem b' x = mem b x" by blast
  with same show ?thesis by (simp add: book_frame_def)
qed

lemma book_frame_refl: "book_frame E b b"
  by (simp add: book_frame_def)

lemma book_frame_trans: "book_frame E a b \<Longrightarrow> book_frame E b c \<Longrightarrow> book_frame E a c"
  by (simp add: book_frame_def)

subsection \<open>Cancelling\<close>

lemma unlink_rel:
  assumes rel: "book_rel L E b" and lad: "ladder s b = us @ nd # vs"
    and L: "L s = xs @ (p @ a # q) # ys" and len: "length xs = length us"
    and node: "node_rel s (mem b) nd (p @ a # q)"
    and b': "b' = dealloc a (drop_id (order_id (mem b a)) (unlink_order s (length us) a b))"
  shows "book_inv E b'"
    and "book_view b' = (\<lambda>t. sp_remove (order_id (mem b a)) (book_view b t))"
    and "next_order_id b' = next_order_id b" "book_frame E b b'"
    and "pool b' = deallocate (pool b) a"
    and "\<And>x. payload (mem b' x) = payload (mem b x)"
    and "id_slots b' = (id_slots b)[order_id (mem b a) := None]"
proof -
  obtain l h where r: "remove (nd_level nd) a (mem b) = (l, h)"
    by (cases "remove (nd_level nd) a (mem b)")
  note rm = node_rel_remove [OF node r]
  note pay = same_payload [of h "mem b", OF rm(4)]
  let ?b = "dealloc a (drop_id (order_id (mem b a)) (unlink_order s (length us) a b))"
  have fields: "mem ?b = h" "next_order_id ?b = next_order_id b" "pool ?b = deallocate (pool b) a"
    "pending_stop_storage ?b = pending_stop_storage b"
    "id_slots ?b = (id_slots b)[order_id (mem b a) := None]"
    "ladder (opposite s) ?b = ladder (opposite s) b"
    "ladder s ?b = us @ (if p @ q = [] then [] else [nd\<lparr>nd_level := l\<rparr>]) @ vs"
    using lad r rm(2) by (simp_all add: unlink_order_def Let_def)
  have set: "set (p @ a # q) = insert a (set (p @ q))" "a \<notin> set (p @ q)" "distinct (p @ q)"
    using node_rel_distinct [OF node] by auto
  have node': "p @ q \<noteq> [] \<longrightarrow> node_rel s (mem ?b) (nd\<lparr>nd_level := l\<rparr>) (p @ q)"
    and frame: "\<forall>x. x \<notin> set (p @ a # q) \<longrightarrow> mem ?b x = mem b x"
    and oid: "\<forall>x. order_id (mem ?b x) = order_id (mem b x)"
    unfolding fields(1) pay by (intro impI allI rm refl; assumption)+
  have price: "nd_price (nd\<lparr>nd_level := l\<rparr>) = nd_price nd" by simp
  note take = book_rel_take [OF rel lad L len set fields(7,6) price node' frame oid fields(5,2,3,4)]
  show "book_inv E b'" unfolding b' by (rule book_relI) (rule take)
  have ids: "distinct (side_ids (book_view b s))" and full: "side_full (book_view b s)"
    using book_ids_distinct [OF rel, of s] book_view_full [OF rel] by auto
  let ?A = "view_of (mem b) us xs" and ?B = "view_of (mem b) vs ys"
  have view: "book_view b s = ?A @ (nd_price nd, abs_level (mem b) p @ abs_order (mem b a) #
      abs_level (mem b) q) # ?B" using take(3) by simp
  have full': "side_full (?A @ ?B)" using full unfolding view by simp
  have "sp_remove (order_id (mem b a)) (book_view b s) = ?A @
      (if p @ q = [] then [] else [(nd_price nd, abs_level (mem b) (p @ q))]) @ ?B"
    using sp_remove_mid [OF ids [unfolded view] full'] unfolding view by simp
  moreover have "order_id (mem b a) \<in> set (side_ids (book_view b s))" unfolding view by simp
  then have "sp_remove (order_id (mem b a)) (book_view b (opposite s)) = book_view b (opposite s)"
    using book_view_other [OF rel] book_view_full [OF rel] by (intro sp_remove_absent)
  ultimately show "book_view b' = (\<lambda>t. sp_remove (order_id (mem b a)) (book_view b t))"
    unfolding b' take(2) fields(1) pay by (intro fun_side_eqI [where s = s]) simp_all
  show "book_frame E b b'"
    by (rule book_frameI [where L = L and s = s and as = "p @ a # q" and xs = xs and ys = ys, OF rel L])
      (use frame fields in \<open>simp_all add: b'\<close>)
  show "next_order_id b' = next_order_id b"
    "pool b' = deallocate (pool b) a" "id_slots b' = (id_slots b)[order_id (mem b a) := None]"
    "payload (mem b' x) = payload (mem b x)" for x
    using fields rm(4) by (simp_all add: b')
qed

lemma cancel_unknown: "find_id oid b = None \<Longrightarrow> cancel_order oid b = (False, b)"
  by (simp add: cancel_order_def)

lemma cancel_resting:
  assumes rel: "book_rel L E b" and found: "find_id oid b = Some a" and a: "a \<notin> set E"
  obtains b' where "cancel_order oid b = (True, b')" and "book_inv E b'"
    and "book_view b' = (\<lambda>t. sp_remove oid (book_view b t))"
    and "next_order_id b' = next_order_id b" "book_frame E b b'"
    and "pool b' = deallocate (pool b) a"
    and "\<And>x. payload (mem b' x) = payload (mem b x)"
    and "id_slots b' = (id_slots b)[oid := None]"
proof -
  from find_id_live [OF rel found] have live: "a \<in> live L E" and oid: "order_id (mem b a) = oid"
    by auto
  from live a obtain s where "a \<in> set (concat (L s))" by (rule in_liveE)
  with rel obtain us nd vs xs p q ys where loc: "ladder s b = us @ nd # vs"
    "L s = xs @ (p @ a # q) # ys" "length xs = length us" "node_rel s (mem b) nd (p @ a # q)"
    and side: "oside (mem b a) = side_code s" and px: "price (mem b a) = nd_price nd"
    and find: "find_level s (nd_price nd) b = Some (length us)"
    by (rule book_rel_locate)
  define b' where "b' = dealloc a (drop_id (order_id (mem b a)) (unlink_order s (length us) a b))"
  have "cancel_order oid b = (True, b')"
    using found side px find oid by (simp add: cancel_order_def b'_def Let_def)
  then show thesis
    using unlink_rel [OF rel loc b'_def] unfolding oid by (rule that)
qed

subsection \<open>Adding a limit order\<close>

lemma ladder_rel_splitAt:
  assumes "ladder_rel s h (us @ vs) ls"
  obtains xs ys where "ls = xs @ ys" and "length xs = length us"
    and "list_all2 (node_rel s h) us xs" and "list_all2 (node_rel s h) vs ys"
  using assms by (auto simp: ladder_rel_def list_all2_append1)

text \<open>
  The level an order of price \<open>px\<close> goes to: one of the ladder, or a new empty one at its
  place; in both cases the list book's \<open>sp_add\<close> puts the order there.
\<close>

lemma emplace_cases:
  assumes rel: "book_rel L E b"
  obtains us nds vs xs ass ys nd where "ladder s b = us @ nds @ vs" and "L s = xs @ ass @ ys"
    and "length xs = length us" and "length ass = length nds"
    and "find_or_emplace (side_cmp s) (ladder s b) px = (length us, us @ nd # vs)"
    and "nd_price nd = px" and "ladder_sorted (side_cmp s) (us @ nd # vs)"
    and "level_links (mem b) (nd_level nd) (concat ass)"
    and "unat (lv_agg (nd_level nd)) = level_rems (mem b) (concat ass)"
    and "level_total (mem b) (concat ass) \<le> level_liq px (book_view b s)"
    and "\<forall>x \<in> set (concat ass). price (mem b x) = px \<and> oside (mem b x) = side_code s \<and>
      stop_type (mem b x) = 0 \<and> (display_qty (mem b x) = 0 \<longrightarrow> hidden_qty (mem b x) = 0)"
    and "\<And>y. sp_add (side_cmp s) px y (book_view b s) = view_of (mem b) us xs @
      (px, abs_level (mem b) (concat ass) @ [y]) # view_of (mem b) vs ys"
proof -
  note lr = book_rel_ladder [OF rel, of s] and sorted = book_rel_sorted [OF rel, of s]
  show thesis
    using sorted
  proof (cases rule: lad.find_or_emplace_cases [where px = px])
    case (found us nd vs)
    from lr found(1) have "ladder_rel s (mem b) (us @ nd # vs) (L s)" by simp
    then obtain xs zs where L: "L s = xs @ zs" and len: "length xs = length us"
      and "list_all2 (node_rel s (mem b)) (nd # vs) zs" by (rule ladder_rel_splitAt)
    then obtain as ys where zs: "zs = as # ys" and node: "node_rel s (mem b) nd as"
      and all: "list_all2 (node_rel s (mem b)) vs ys" by (auto simp: list_all2_Cons1)
    have view: "book_view b s = view_of (mem b) us xs @ (px, abs_level (mem b) as) #
        view_of (mem b) vs ys"
      using len found by (simp add: book_view_rel [OF rel] L zs view_of_append)
    have before: "\<forall>p' \<in> fst ` set (view_of (mem b) us xs). p' \<noteq> px \<and> side_cmp s p' px"
    proof -
      have "fst ` set (view_of (mem b) us xs) = nd_price ` set us"
        using view_prices [of xs us "mem b"] len by (metis list.set_map)
      then show ?thesis
        using sorted found(1,2) lad.cmp_irrefl
        by (auto simp: ladder_sorted_def sorted_wrt_append)
    qed
    show thesis
    proof (rule that [of us "[nd]" vs xs "[as]" ys nd])
      show "level_total (mem b) (concat [as]) \<le> level_liq px (book_view b s)"
        by (simp add: view level_total_view)
      show "sp_add (side_cmp s) px y (book_view b s) = view_of (mem b) us xs @
          (px, abs_level (mem b) (concat [as]) @ [y]) # view_of (mem b) vs ys" for y
        unfolding view using sp_add_found [where cmp = "side_cmp s", OF before] by simp
    qed (use found L zs len node sorted in \<open>auto simp: node_rel_def\<close>)
  next
    case (fresh us vs)
    from lr fresh(1) have "ladder_rel s (mem b) (us @ vs) (L s)" by simp
    then obtain xs ys where L: "L s = xs @ ys" and len: "length xs = length us"
      and all: "list_all2 (node_rel s (mem b)) vs ys" by (rule ladder_rel_splitAt)
    let ?nd = "\<lparr>nd_price = px, nd_level = empty_level\<rparr>"
    have view: "book_view b s = view_of (mem b) us xs @ view_of (mem b) vs ys"
      using len fresh by (simp add: book_view_rel [OF rel] L view_of_append)
    have before: "\<forall>p' \<in> fst ` set (view_of (mem b) us xs). p' \<noteq> px \<and> side_cmp s p' px"
    proof -
      have "fst ` set (view_of (mem b) us xs) = nd_price ` set us"
        using view_prices [of xs us "mem b"] len by (metis list.set_map)
      then show ?thesis using fresh(3) by (auto dest: lad.cmp_neq)
    qed
    have after: "\<forall>p' \<in> fst ` set (view_of (mem b) vs ys). p' \<noteq> px \<and> \<not> side_cmp s p' px"
    proof -
      have "length ys = length vs" using all by (auto dest: list_all2_lengthD)
      then have "fst ` set (view_of (mem b) vs ys) = nd_price ` set vs"
        using view_prices [of ys vs "mem b"] by (metis list.set_map)
      then show ?thesis using fresh(4) by (auto dest: lad.cmp_asym lad.cmp_neq)
    qed
    show thesis
    proof (rule that [of us "[]" vs xs "[]" ys ?nd])
      show "ladder_sorted (side_cmp s) (us @ ?nd # vs)"
        using sorted fresh by (intro lad.sorted_insert_node) simp_all
      show "sp_add (side_cmp s) px y (book_view b s) = view_of (mem b) us xs @
          (px, abs_level (mem b) (concat []) @ [y]) # view_of (mem b) vs ys" for y
        unfolding view using sp_add_fresh [where cmp = "side_cmp s", OF before after] by simp
    qed (use fresh L len in \<open>simp_all add: level_links_empty, simp add: empty_level_def\<close>)
  qed
qed

definition new_aorder :: "order_id_t \<Rightarrow> qty_t \<Rightarrow> aorder" where
  "new_aorder oid q = \<lparr>ao_id = oid, ao_qty = unat q, ao_vis = unat q, ao_disp = 0, ao_hid = 0\<rparr>"

definition pool_full :: "order_book \<Rightarrow> bool" where
  "pool_full b \<longleftrightarrow> mode (pool b) = Pool \<and> freelist (pool b) = []"

lemma add_limit_full: "pool_full b \<Longrightarrow> add_limit_order s px q b = (0, b)"
  by (simp add: add_limit_order_def pool_full_def allocate_def)

lemma add_limit_found:
  assumes rel: "book_rel L E b" and room: "level_liq px (book_view b s) + unat q < 2 ^ 64"
    and space: "\<not> pool_full b"
  obtains b' c where "add_limit_order s px q b = (next_order_id b, b')" and "book_inv E b'"
    and "book_view b' = (book_view b)(s := sp_add (side_cmp s) px
           (new_aorder (next_order_id b) q) (book_view b s))"
    and "next_order_id b' = next_order_id b + 1" and "book_frame E b b'"
    and "find_id (next_order_id b) b' = Some c" and "c \<notin> set E" and "price (mem b' c) = px"
    and "oside (mem b' c) = side_code s" and "qty (mem b' c) = q"
proof -
  obtain a p h where alloc: "allocate (pool b) (mem b) = (Some a, p, h)"
    using space by (cases rule: allocate_cases [of "pool b" "mem b"]) (auto simp: pool_full_def)
  have pinv: "pool_inv (pool b) (live L E)" using rel by (simp add: book_rel_def)
  note al = allocate_Some [OF alloc pinv]
  define n where "n = next_order_id b"
  define h1 where "h1 = h(a := (h a)\<lparr>order_id := n, price := px, qty := q,
    remaining_qty := q, oside := side_code s, otype := order_type_code Limit, timestamp := 0\<rparr>)"
  from rel obtain us nds vs xs ass ys nd where lad: "ladder s b = us @ nds @ vs"
    and L: "L s = xs @ ass @ ys" and len: "length xs = length us" "length ass = length nds"
    and emp: "find_or_emplace (side_cmp s) (ladder s b) px = (length us, us @ nd # vs)"
    and px: "nd_price nd = px" and sorted: "ladder_sorted (side_cmp s) (us @ nd # vs)"
    and links: "level_links (mem b) (nd_level nd) (concat ass)"
    and agg: "unat (lv_agg (nd_level nd)) = level_rems (mem b) (concat ass)"
    and total: "level_total (mem b) (concat ass) \<le> level_liq px (book_view b s)"
    and members: "\<forall>x \<in> set (concat ass). price (mem b x) = px \<and> oside (mem b x) = side_code s \<and>
      stop_type (mem b x) = 0 \<and> (display_qty (mem b x) = 0 \<longrightarrow> hidden_qty (mem b x) = 0)"
    and spec: "\<And>y. sp_add (side_cmp s) px y (book_view b s) = view_of (mem b) us xs @
      (px, abs_level (mem b) (concat ass) @ [y]) # view_of (mem b) vs ys"
    by (rule emplace_cases [where s = s and px = px]) blast
  obtain l h2 where push: "push_back (nd_level nd) a h1 = (l, h2)"
    by (cases "push_back (nd_level nd) a h1")
  have "set (concat ass) \<subseteq> live L E" using L by (auto simp: live_def set_resting [of L s])
  then have fresh: "a \<notin> set (concat ass)" using al(1) by blast
  have h1_other: "h1 x = mem b x" if "x \<noteq> a" for x using that by (simp add: h1_def al(3))
  have h1_a: "remaining_qty (h1 a) = q" "hidden_qty (h1 a) = 0" "display_qty (h1 a) = 0"
    "price (h1 a) = px" "oside (h1 a) = side_code s" "stop_type (h1 a) = 0" "order_id (h1 a) = n"
    "abs_order (h1 a) = new_aorder n q"
    by (simp_all add: h1_def al(3) abs_order_def new_aorder_def)
  have h1_eq: "h1 x = mem b x" if "x \<in> set (concat ass)" for x
    by (rule h1_other) (use that fresh in blast)
  have sums: "level_rems h1 (concat ass) = level_rems (mem b) (concat ass)"
    "level_total h1 (concat ass) = level_total (mem b) (concat ass)"
    by (rule level_sums_cong; simp only: h1_eq)+
  have links1: "level_links h1 (nd_level nd) (concat ass)"
    using links by (subst level_links_cong [of _ _ "mem b"]) (simp_all only: h1_eq)
  have agg1: "unat (lv_agg (nd_level nd)) = level_rems h1 (concat ass)" by (simp add: agg sums)
  have room1: "level_total h1 (concat ass) + unat (remaining_qty (h1 a)) +
      unat (hidden_qty (h1 a)) < 2 ^ 64"
    using room total by (simp add: sums h1_a)
  have mem1: "\<forall>x \<in> set (concat ass @ [a]). price (h1 x) = px \<and> oside (h1 x) = side_code s \<and>
      stop_type (h1 x) = 0 \<and> (display_qty (h1 x) = 0 \<longrightarrow> hidden_qty (h1 x) = 0)"
    using members h1_a h1_other by (metis Un_iff empty_iff list.set(1,2) insert_iff set_append)
  define nd' where "nd' = nd\<lparr>nd_level := l\<rparr>"
  note pu = node_rel_push [OF links1 agg1 fresh push room1 mem1, of nd', unfolded nd'_def]
  have node': "node_rel s h2 (nd\<lparr>nd_level := l\<rparr>) (concat ass @ [a])"
    and pay: "\<And>x. payload (h2 x) = payload (h1 x)"
    and frame: "\<And>x. x \<noteq> a \<Longrightarrow> x \<notin> set (concat ass) \<Longrightarrow> h2 x = h1 x"
    using pu px by simp_all
  note same = same_payload [of h2 h1, OF pay]
  define b1 where "b1 = set_level s (length us) l
    (set_ladder s (us @ nd # vs) (b\<lparr>mem := h2, pool := p, next_order_id := n + 1\<rparr>))"
  define b' where "b' = put_id a b1"
  have fields1: "mem b1 = h2" "id_slots b1 = id_slots b" "next_order_id b1 = n + 1" "pool b1 = p"
    "pending_stop_storage b1 = pending_stop_storage b"
    "ladder s b1 = us @ nd\<lparr>nd_level := l\<rparr> # vs" "ladder (opposite s) b1 = ladder (opposite s) b"
    by (simp_all add: b1_def)
  have ids: "ids_rel (mem b') (id_slots b') (next_order_id b') (insert a (live L E))"
  proof -
    have "ids_rel (mem b) (id_slots b) n (live L E)" using rel by (simp add: book_rel_def n_def)
    moreover have "order_id (mem b1 x) = order_id (mem b x)" if "x \<noteq> a" for x
      using that h1_other [of x] by (simp add: fields1 same)
    ultimately have "ids_rel (mem b1) (id_slots (put_id a b1)) (Suc n) (insert a (live L E))"
      using al(1) by (intro put_id_rel) (simp_all add: fields1 same h1_a)
    then show ?thesis by (simp add: b'_def fields1)
  qed
  have give: "book_rel (L(s := xs @ (concat ass @ [a]) # ys)) E b'"
    "book_view b' = (book_view b)(s := view_of (mem b) us xs @ (nd_price (nd\<lparr>nd_level := l\<rparr>),
      abs_level (mem b') (concat ass @ [a])) # view_of (mem b) vs ys)"
  proof -
    have f: "\<forall>x. x \<notin> set (concat ass) \<longrightarrow> x \<noteq> a \<longrightarrow> mem b' x = mem b x"
      using frame h1_other by (simp add: b'_def fields1)
    have sorted': "ladder_sorted (side_cmp s) (us @ nd\<lparr>nd_level := l\<rparr> # vs)"
      using sorted by (simp add: ladder_sorted_def)
    have o: "ladder s b' = us @ nd\<lparr>nd_level := l\<rparr> # vs"
      "ladder (opposite s) b' = ladder (opposite s) b"
      "node_rel s (mem b') (nd\<lparr>nd_level := l\<rparr>) (concat ass @ [a])"
      "pool_inv (pool b') (insert a (live L E))"
      "pending_stop_storage b' = pending_stop_storage b"
      using node' al(2) by (simp_all add: b'_def fields1)
    note g = book_rel_give [OF rel lad L len al(1) o(1,2) sorted' o(3) f ids o(4,5)]
    show "book_rel (L(s := xs @ (concat ass @ [a]) # ys)) E b'"
      "book_view b' = (book_view b)(s := view_of (mem b) us xs @ (nd_price (nd\<lparr>nd_level := l\<rparr>),
        abs_level (mem b') (concat ass @ [a])) # view_of (mem b) vs ys)"
      by (rule g)+
  qed
  have "abs_level (mem b') (concat ass @ [a]) = abs_level (mem b) (concat ass) @ [new_aorder n q]"
    using abs_level_cong [of "concat ass" h1 "mem b"] h1_eq
    by (simp add: b'_def fields1 same h1_a)
  then have view: "book_view b' = (book_view b)(s := sp_add (side_cmp s) px (new_aorder n q) (book_view b s))"
    unfolding give(2) spec by (simp add: px)
  have "add_limit_order s px q b = (n, b')"
    using alloc emp push
    by (simp add: add_limit_order_def Let_def h1_def n_def b'_def b1_def)
  moreover have "book_frame E b b'"
  proof -
    have E: "set E \<subseteq> live L E" by (auto simp: live_def)
    have "mem b' x = mem b x" if "x \<in> set E" for x
    proof -
      have D: "distinct (concat (L s) @ concat (L (opposite s)) @ E)"
        using rel unfolding book_rel_side [of L E b s] by simp
      have "set (concat ass) \<subseteq> set (concat (L s))" unfolding L by auto
      with D that have "x \<notin> set (concat ass)" unfolding distinct_append set_append by blast
      moreover have "x \<noteq> a" using that E al(1) by auto
      ultimately show ?thesis using frame h1_other by (simp add: b'_def fields1)
    qed
    then show ?thesis using al(4,5) by (simp add: book_frame_def b'_def fields1)
  qed
  moreover have "book_inv E b'" using give(1) by (rule book_relI)
  moreover have "next_order_id b' = next_order_id b + 1" by (simp add: b'_def fields1 n_def)
  moreover have "find_id n b' = Some a"
    using ids_relD(1) [OF ids, of n a] by (simp add: find_id_slot b'_def fields1 same h1_a)
  moreover have "a \<notin> set E" using al(1) by (simp add: live_def)
  moreover have "price (mem b' a) = px" "oside (mem b' a) = side_code s" "qty (mem b' a) = q"
    by (simp_all add: b'_def fields1 same h1_a) (simp add: h1_def)
  ultimately show thesis using view unfolding n_def by (intro that [of b' a])
qed

lemma add_limit_ok:
  assumes "book_rel L E b" and "level_liq px (book_view b s) + unat q < 2 ^ 64"
    and "\<not> pool_full b"
  obtains b' where "add_limit_order s px q b = (next_order_id b, b')" and "book_inv E b'"
    and "book_view b' = (book_view b)(s := sp_add (side_cmp s) px
           (new_aorder (next_order_id b) q) (book_view b s))"
    and "next_order_id b' = next_order_id b + 1" and "book_frame E b b'"
  by (rule add_limit_found [OF assms]) (rule that)

end
