(* ===== verification/Book_Fills.thy ===== *)
theory Book_Fills
  imports Book_Ops
begin

section \<open>Fills: market orders and fills by id\<close>

text \<open>
  \<open>settle\<close> is what \<open>market_step\<close> and \<open>apply_fill\<close> have in common: an order of a level
  gives \<open>t\<close>. It is proved once to be \<open>after_fill\<close> on the list book, and the loop of
  \<open>market_order\<close> then to be \<open>sp_match\<close>, with its termination.
\<close>

lemma book_eqI:
  assumes "mem b = mem b'" "ladder s b = ladder s b'" "ladder (opposite s) b = ladder (opposite s) b'"
    "id_slots b = id_slots b'" "next_order_id b = next_order_id b'" "pool b = pool b'"
    "pending_stop_storage b = pending_stop_storage b'"
  shows "b = b'"
  using assms by (cases s) (simp_all add: ladder_def)

definition settle :: "side \<Rightarrow> nat \<Rightarrow> addr \<Rightarrow> qty_t \<Rightarrow> order_book \<Rightarrow> order_book" where
  "settle s i a t b =
     (let h1 = (mem b)(a := (mem b a)\<lparr>remaining_qty := remaining_qty (mem b a) - t\<rparr>);
          l1 = (level_at s i b)\<lparr>lv_agg := lv_agg (level_at s i b) - t\<rparr>
      in if remaining_qty (h1 a) \<noteq> 0 then set_level s i l1 (b\<lparr>mem := h1\<rparr>)
         else
           (case try_replenish_iceberg a l1 h1 of
              (True, l2, h2) \<Rightarrow> set_level s i l2 (b\<lparr>mem := h2\<rparr>)
            | (False, _, _) \<Rightarrow>
                dealloc a (drop_id (order_id (mem b a)) (unlink_order s i a
                  (set_level s i l1 (b\<lparr>mem := h1\<rparr>))))))"

text \<open>Only the order itself and its id change hands; every other order keeps its data.\<close>

definition settled :: "addr \<Rightarrow> order_book \<Rightarrow> order_book \<Rightarrow> bool" where
  "settled a b b' \<longleftrightarrow>
     (\<forall>x. x \<noteq> a \<longrightarrow> payload (mem b' x) = payload (mem b x)) \<and>
     (\<forall>x. order_id (mem b' x) = order_id (mem b x)) \<and>
     (\<forall>i. i \<noteq> order_id (mem b a) \<longrightarrow> find_id i b' = find_id i b)"

lemma settle_rel:
  assumes rel: "book_rel L E b" and lad: "ladder s b = us @ nd # vs"
    and L: "L s = xs @ (p @ a # q) # ys" and len: "length xs = length us"
    and node: "node_rel s (mem b) nd (p @ a # q)"
    and t: "unat t \<le> unat (remaining_qty (mem b a))"
    and b': "b' = settle s (length us) a t b"
  shows "\<exists>A B. book_view b s = A @ (nd_price nd, abs_level (mem b) (p @ a # q)) # B \<and>
      length A = length us \<and>
      book_inv E b' \<and>
      book_view b' = (book_view b)(s := A @ with_level (nd_price nd)
        (after_fill (unat t) (abs_level (mem b) p) (abs_order (mem b a)) (abs_level (mem b) q)) @ B) \<and>
      next_order_id b' = next_order_id b \<and> book_frame E b b' \<and> settled a b b'"
    (is "?goal b'")
proof -
  define h1 where "h1 = (mem b)(a := (mem b a)\<lparr>remaining_qty := remaining_qty (mem b a) - t\<rparr>)"
  define l1 where "l1 = (nd_level nd)\<lparr>lv_agg := lv_agg (nd_level nd) - t\<rparr>"
  define nd1 where "nd1 = nd\<lparr>nd_level := l1\<rparr>"
  define b1 where "b1 = set_level s (length us) l1 (b\<lparr>mem := h1\<rparr>)"
  have dist: "distinct (p @ a # q)" using node by (rule node_rel_distinct)
  have node1: "node_rel s h1 nd1 (p @ a # q)"
    unfolding nd1_def by (rule node_rel_fill [OF node t h1_def l1_def])
  have fields1: "mem b1 = h1" "ladder s b1 = us @ nd1 # vs"
    "ladder (opposite s) b1 = ladder (opposite s) b" "id_slots b1 = id_slots b"
    "next_order_id b1 = next_order_id b" "pool b1 = pool b"
    "pending_stop_storage b1 = pending_stop_storage b" "nd_price nd1 = nd_price nd"
    by (simp_all add: b1_def nd1_def lad)
  have frame1: "\<forall>x. x \<notin> set (p @ a # q) \<longrightarrow> mem b1 x = mem b x"
    "\<forall>x. order_id (mem b1 x) = order_id (mem b x)" by (auto simp: fields1 h1_def)
  have node1': "node_rel s (mem b1) nd1 (p @ a # q)" using node1 by (simp add: fields1)
  note keep1 = book_rel_keep [OF rel lad L len fields1(2,3,8) node1' refl frame1 fields1(4-7)]
  have L1: "(L(s := xs @ (p @ a # q) # ys)) s = xs @ (p @ a # q) # ys" by simp
  have settle: "b' = (if remaining_qty (h1 a) \<noteq> 0 then b1
    else case try_replenish_iceberg a l1 h1 of
      (True, l2, h2) \<Rightarrow> set_level s (length us) l2 (b\<lparr>mem := h2\<rparr>)
    | (False, _, _) \<Rightarrow> dealloc a (drop_id (order_id (mem b a)) (unlink_order s (length us) a b1)))"
  proof -
    have "level_at s (length us) b = nd_level nd" using lad by simp
    then show ?thesis
      unfolding b' settle_def Let_def
      by (simp only: h1_def [symmetric] l1_def [symmetric] b1_def [symmetric])
  qed
  have abs1: "abs_level h1 p = abs_level (mem b) p" "abs_level h1 q = abs_level (mem b) q"
    using dist by (simp_all add: h1_def abs_level_def)
  have vis1: "abs_order (h1 a) = (abs_order (mem b a))
      \<lparr>ao_vis := unat (remaining_qty (mem b a)) - unat t\<rparr>"
    using t by (simp add: h1_def abs_order_def unat_simps)
  have zero: "remaining_qty (h1 a) = 0 \<longleftrightarrow> unat (remaining_qty (mem b a)) - unat t = 0"
    using t by (simp add: h1_def unat_simps flip: unat_eq_0)
  have views: "length (view_of (mem b) us xs) = length us"
    "book_view b s = view_of (mem b) us xs @ (nd_price nd, abs_level (mem b) (p @ a # q)) #
      view_of (mem b) vs ys"
    using len keep1(3) by (simp_all add: view_of_def)
  have frame: "book_frame E b b1"
    by (rule book_frameI [where L = L and s = s and as = "p @ a # q" and xs = xs and ys = ys, OF rel L])
      (use frame1 in \<open>simp_all add: fields1\<close>)
  have wit: "?goal b'" if "book_inv E b'" "book_view b' = (book_view b)(s := view_of (mem b) us xs @
      with_level (nd_price nd) (after_fill (unat t) (abs_level (mem b) p) (abs_order (mem b a))
        (abs_level (mem b) q)) @ view_of (mem b) vs ys)"
      "next_order_id b' = next_order_id b" "book_frame E b b'" "settled a b b'"
    using that views by blast
  consider (partial) "remaining_qty (h1 a) \<noteq> 0"
    | (again) l2 h2 where "remaining_qty (h1 a) = 0" "display_qty (h1 a) \<noteq> 0"
        "hidden_qty (h1 a) \<noteq> 0" "try_replenish_iceberg a l1 h1 = (True, l2, h2)"
    | (finished) "remaining_qty (h1 a) = 0" "display_qty (h1 a) = 0 \<or> hidden_qty (h1 a) = 0"
        "try_replenish_iceberg a l1 h1 = (False, l1, h1)"
    by (metis try_replenish_cases)
  then show ?thesis
  proof cases
    case partial
    with settle have b'1: "b' = b1" by simp
    show ?thesis
    proof (rule wit)
      show "book_inv E b'" unfolding b'1 using keep1(1) by (rule book_relI)
      show "book_view b' = (book_view b)(s := view_of (mem b) us xs @
        with_level (nd_price nd) (after_fill (unat t) (abs_level (mem b) p) (abs_order (mem b a))
          (abs_level (mem b) q)) @ view_of (mem b) vs ys)"
        unfolding b'1 keep1(2) using partial zero
        by (simp add: fields1 abs1 vis1 after_fill_def Let_def)
    show "settled a b b'" by (auto simp: settled_def b'1 fields1 find_id_slot h1_def)
    qed (simp_all add: b'1 fields1(5) frame)
  next
    case again
    have b'2: "b' = set_level s (length us) l2 (b\<lparr>mem := h2\<rparr>)"
      using settle again by simp
    have rep: "try_replenish_iceberg a (nd_level nd1) h1 = (True, l2, h2)"
      using again by (simp add: nd1_def)
    note rn = node_rel_replenish [OF node1 again(1) rep]
    have fields2: "mem b' = h2" "ladder s b' = us @ nd1\<lparr>nd_level := l2\<rparr> # vs"
      "ladder (opposite s) b' = ladder (opposite s) b" "id_slots b' = id_slots b"
      "next_order_id b' = next_order_id b" "pool b' = pool b"
      "pending_stop_storage b' = pending_stop_storage b"
      "nd_price (nd1\<lparr>nd_level := l2\<rparr>) = nd_price nd"
      by (simp_all add: b'2 lad nd1_def)
    have n2: "node_rel s (mem b') (nd1\<lparr>nd_level := l2\<rparr>) (p @ q @ [a])"
      using rn(1) by (simp add: fields2)
    have s2: "set (p @ q @ [a]) = set (p @ a # q)" by auto
    have f2: "\<forall>x. x \<notin> set (p @ a # q) \<longrightarrow> mem b' x = mem b x"
      "\<forall>x. order_id (mem b' x) = order_id (mem b x)"
      using rn(2,3) frame1 by (simp_all add: fields2 fields1)
    note keep2 = book_rel_keep [OF rel lad L len fields2(2,3,8) n2 s2 f2 fields2(4-7)]
    have fl: "h1 a = (mem b a)\<lparr>remaining_qty := remaining_qty (mem b a) - t\<rparr>"
      by (simp add: h1_def)
    have nz: "unat (display_qty (mem b a)) \<noteq> 0" "unat (hidden_qty (mem b a)) \<noteq> 0"
      using again(2,3) unfolding fl by (simp_all add: unat_eq_0)
    have lev: "abs_level h2 (p @ q @ [a]) = after_fill (unat t) (abs_level (mem b) p)
        (abs_order (mem b a)) (abs_level (mem b) q)"
      using rn(4,5) again(1) zero nz t
      by (simp add: after_fill_def Let_def abs1 vis1, simp add: fl)
    show ?thesis
    proof (rule wit)
      show "book_inv E b'" using keep2(1) by (rule book_relI)
      show "book_view b' = (book_view b)(s := view_of (mem b) us xs @
        with_level (nd_price nd) (after_fill (unat t) (abs_level (mem b) p) (abs_order (mem b a))
          (abs_level (mem b) q)) @ view_of (mem b) vs ys)"
        unfolding keep2(2) fields2(1) lev [symmetric] by simp
    show "book_frame E b b'"
        by (rule book_frameI [where L = L and s = s and as = "p @ a # q" and xs = xs and ys = ys, OF rel L])
          (use f2 in \<open>simp_all add: fields2\<close>)
      show "settled a b b'"
        using rn(3,6) frame1 by (simp add: settled_def fields2 fields1 find_id_slot) (simp add: h1_def)
    qed (simp_all add: fields2)
  next
    case finished
    have b'3: "b' = dealloc a (drop_id (order_id (mem b1 a)) (unlink_order s (length us) a b1))"
      using settle finished frame1 by simp
    note un = unlink_rel [OF keep1(1) fields1(2) L1 len node1' b'3]
    have A: "book_view b1 s = view_of (mem b) us xs @
        (nd_price nd, abs_level h1 p @ abs_order (h1 a) # abs_level h1 q) # view_of (mem b) vs ys"
      unfolding keep1(2) by (simp add: fields1)
    note full = book_view_full [OF keep1(1), of s] and ids = book_ids_distinct1 [OF keep1(1), of s]
    have oid: "ao_id (abs_order (h1 a)) = order_id (mem b1 a)" by (simp only: fields1 abs_order_sel)
    have other: "sp_remove (order_id (mem b1 a)) (book_view b1 (opposite s)) =
        book_view b (opposite s)"
    proof -
      have "order_id (mem b1 a) \<in> set (side_ids (book_view b1 s))" by (simp add: A fields1)
      then have "order_id (mem b1 a) \<notin> set (side_ids (book_view b1 (opposite s)))"
        by (rule book_view_other [OF keep1(1)])
      then have "sp_remove (order_id (mem b1 a)) (book_view b1 (opposite s)) =
          book_view b1 (opposite s)"
        using book_view_full [OF keep1(1)] by (intro sp_remove_absent)
      then show ?thesis by (simp add: keep1(2))
    qed
    have same: "sp_remove (order_id (mem b1 a)) (book_view b1 s) =
        view_of (mem b) us xs @ with_level (nd_price nd)
          (after_fill (unat t) (abs_level (mem b) p) (abs_order (mem b a)) (abs_level (mem b) q)) @
        view_of (mem b) vs ys"
    proof -
      have d: "distinct (side_ids (view_of (mem b) us xs @ (nd_price nd,
          abs_level h1 p @ abs_order (h1 a) # abs_level h1 q) # view_of (mem b) vs ys))"
        using ids unfolding A .
      have f: "side_full (view_of (mem b) us xs @ view_of (mem b) vs ys)"
        using full by (simp add: A)
      have fl: "h1 a = (mem b a)\<lparr>remaining_qty := remaining_qty (mem b a) - t\<rparr>"
        by (simp add: h1_def)
      have "unat (display_qty (mem b a)) = 0 \<or> unat (hidden_qty (mem b a)) = 0"
        using finished(2) unfolding fl by (simp add: unat_eq_0)
      then have "after_fill (unat t) (abs_level (mem b) p) (abs_order (mem b a))
          (abs_level (mem b) q) = abs_level h1 p @ abs_level h1 q"
        using finished(1) zero t by (auto simp: after_fill_def Let_def abs1)
      then show ?thesis
        using sp_remove_mid [OF d f] unfolding A oid by (simp add: with_level_def)
    qed
    show ?thesis
    proof (rule wit)
      show "book_inv E b'" by (rule un(1))
      show "book_view b' = (book_view b)(s := view_of (mem b) us xs @
        with_level (nd_price nd) (after_fill (unat t) (abs_level (mem b) p) (abs_order (mem b a))
          (abs_level (mem b) q)) @ view_of (mem b) vs ys)"
        unfolding un(2) using same other by (intro fun_side_eqI [where s = s]) simp_all
    show "book_frame E b b'" using frame un(4) by (rule book_frame_trans)
      show "settled a b b'"
        using un(6) frame1(2) payload_eqD(1) [OF un(6)]
        by (simp add: settled_def find_id_slot un(7) fields1(4)) (simp add: fields1 h1_def)
    qed (simp_all add: un fields1)
  qed
qed

subsection \<open>The market order loop\<close>

lemma market_step_settle:
  assumes lad: "ladder (opposite s) b = nd # vs"
    and node: "node_rel (opposite s) (mem b) nd (a # q)"
    and t: "t = min w (remaining_qty (mem b a))"
  shows "market_step s (w, b, fills) = (w - t, settle (opposite s) 0 a t b,
    fills @ [\<lparr>resting_order_id = order_id (mem b a), fill_price = nd_price nd, fill_qty = t\<rparr>])"
proof -
  define h1 where "h1 = (mem b)(a := (mem b a)\<lparr>remaining_qty := remaining_qty (mem b a) - t\<rparr>)"
  define l1 where "l1 = (nd_level nd)\<lparr>lv_agg := lv_agg (nd_level nd) - t\<rparr>"
  define b1 where "b1 = set_level (opposite s) 0 l1 (b\<lparr>mem := h1\<rparr>)"
  have node': "node_rel (opposite s) (mem b) nd ([] @ a # q)" using node by simp
  have le: "unat t \<le> unat (remaining_qty (mem b a))" by (simp add: t unat_simps)
  have lev: "level_at (opposite s) 0 b = nd_level nd" using lad by (simp add: level_at_def)
  have head: "lv_head (nd_level nd) = Some a"
    using node_rel_links [OF node] by (simp add: level_links_head)
  have dec: "decrease_aggregate (nd_level nd) t = l1"
    using node_rel_agg_ge [OF node'] le by (simp add: decrease_aggregate_le l1_def)
  have px: "price (mem b a) = nd_price nd" using node by (simp add: node_rel_def)
  have cnt: "lv_cnt l1 \<noteq> 0" using node_rel_links [OF node] by (simp add: l1_def level_links_cnt)
  have settle: "settle (opposite s) 0 a t b = (if remaining_qty (h1 a) \<noteq> 0 then b1
    else case try_replenish_iceberg a l1 h1 of
      (True, l2, h2) \<Rightarrow> set_level (opposite s) 0 l2 (b\<lparr>mem := h2\<rparr>)
    | (False, _, _) \<Rightarrow> dealloc a (drop_id (order_id (mem b a)) (unlink_order (opposite s) 0 a b1)))"
    unfolding settle_def Let_def lev
    by (simp only: h1_def [symmetric] l1_def [symmetric] b1_def [symmetric])
  have fields: "order_id (h1 a) = order_id (mem b a)" "price (h1 a) = nd_price nd"
    by (simp_all add: h1_def px)
  have step: "market_step s (w, b, fills) =
    (let (l2, b2) =
       (if remaining_qty (h1 a) = 0 then
          (case try_replenish_iceberg a l1 h1 of
             (True, l2, h2) \<Rightarrow> (l2, b\<lparr>mem := h2\<rparr>)
           | (False, _, _) \<Rightarrow>
               (let b1 = drop_id (order_id (h1 a)) (b\<lparr>mem := h1\<rparr>);
                    (l2, h2) = remove l1 a (mem b1)
                in (l2, dealloc a (b1\<lparr>mem := h2\<rparr>))))
        else (l1, b\<lparr>mem := h1\<rparr>));
       b3 = set_level (opposite s) 0 l2 b2;
       b4 = (if lv_cnt l2 = 0 then erase_level (opposite s) 0 b3 else b3)
     in (w - t, b4, fills @ [\<lparr>resting_order_id = order_id (h1 a), fill_price = price (h1 a),
          fill_qty = t\<rparr>]))"
    unfolding market_step_def Let_def prod.case lev head option.case t [symmetric]
      h1_def [symmetric] dec ..
  have node1: "node_rel (opposite s) h1 (nd\<lparr>nd_level := l1\<rparr>) ([] @ a # q)"
    by (rule node_rel_fill [OF node' le h1_def l1_def])
  consider (partial) "remaining_qty (h1 a) \<noteq> 0"
    | (again) l2 h2 where "remaining_qty (h1 a) = 0"
        "try_replenish_iceberg a l1 h1 = (True, l2, h2)"
    | (finished) "remaining_qty (h1 a) = 0" "try_replenish_iceberg a l1 h1 = (False, l1, h1)"
    by (metis try_replenish_cases)
  then show ?thesis
  proof cases
    case partial
    then show ?thesis by (simp add: step fields settle cnt b1_def)
  next
    case again
    have "node_rel (opposite s) h2 (nd\<lparr>nd_level := l1\<rparr>\<lparr>nd_level := l2\<rparr>) ([] @ q @ [a])"
      by (rule node_rel_replenish [OF node1 again(1)]) (simp add: again)
    from level_links_cnt [OF node_rel_links [OF this]] have "lv_cnt l2 \<noteq> 0" by simp
    with again show ?thesis by (simp add: step fields settle)
  next
    case finished
    obtain l2 h2 where rm: "remove l1 a h1 = (l2, h2)" by (cases "remove l1 a h1")
    define x where "x = set_level (opposite s) 0 l2 (dealloc a (drop_id (order_id (mem b a))
      (b\<lparr>mem := h1\<rparr>)\<lparr>mem := h2\<rparr>))"
    have "(if lv_cnt l2 = 0 then erase_level (opposite s) 0 x else x) = settle (opposite s) 0 a t b"
      using finished rm lad
      by (intro book_eqI [where s = "opposite s"])
        (simp_all add: settle unlink_order_def b1_def level_at_def x_def)
    moreover have "market_step s (w, b, fills) =
        (w - t, if lv_cnt l2 = 0 then erase_level (opposite s) 0 x else x,
         fills @ [\<lparr>resting_order_id = order_id (mem b a), fill_price = nd_price nd, fill_qty = t\<rparr>])"
      using finished rm unfolding step by (simp add: fields Let_def x_def)
    ultimately show ?thesis by simp
  qed
qed

text \<open>
  One round of the loop on a well-formed book with a level on the opposite side is one
  \<open>sp_consume\<close> of the list book.
\<close>

lemma market_step_spec:
  assumes inv: "book_inv E b" and nonempty: "ladder (opposite s) b \<noteq> []"
  shows "\<exists>p x xs ls t b' f. market_step s (w, b, fills) = (w - t, b', fills @ [f]) \<and>
    book_view b (opposite s) = (p, x # xs) # ls \<and>
    unat t = min (unat w) (ao_vis x) \<and> abs_fill f = (ao_id x, p, unat t) \<and>
    book_inv E b' \<and>
    book_view b' = (book_view b)(opposite s := sp_consume (unat t) p x xs ls) \<and>
    next_order_id b' = next_order_id b \<and> book_frame E b b'"
proof -
  from inv obtain L where rel: "book_rel L E b" by (auto simp: book_inv_iff)
  from nonempty obtain nd vs where lad: "ladder (opposite s) b = nd # vs"
    by (cases "ladder (opposite s) b") auto
  from book_rel_nodes [OF rel, of "opposite s"] obtain as ys
    where L: "L (opposite s) = as # ys" and node: "node_rel (opposite s) (mem b) nd as"
    by (auto simp: lad list_all2_Cons1)
  from node_rel_nonempty [OF node] obtain a q where as: "as = a # q" by (cases as) auto
  define t where "t = min w (remaining_qty (mem b a))"
  define b' where "b' = settle (opposite s) (length ([] :: node list)) a t b"
  have le: "unat t \<le> unat (remaining_qty (mem b a))" by (simp add: t_def unat_simps)
  have lad': "ladder (opposite s) b = [] @ nd # vs" using lad by simp
  have L': "L (opposite s) = [] @ ([] @ a # q) # ys" using L as by simp
  have node': "node_rel (opposite s) (mem b) nd ([] @ a # q)" using node as by simp
  have len0: "length ([] :: addr list list) = length ([] :: node list)" by simp
  obtain A B where spec: "book_view b (opposite s) =
      A @ (nd_price nd, abs_level (mem b) ([] @ a # q)) # B" "length A = length ([] :: node list)"
      "book_inv E b'" "book_view b' = (book_view b)(opposite s := A @ with_level (nd_price nd)
        (after_fill (unat t) (abs_level (mem b) []) (abs_order (mem b a)) (abs_level (mem b) q)) @ B)"
      "next_order_id b' = next_order_id b" "book_frame E b b'"
    using settle_rel [OF rel lad' L' len0 node' le b'_def] by blast
  have "market_step s (w, b, fills) = (w - t, b', fills @ [\<lparr>resting_order_id = order_id (mem b a),
      fill_price = nd_price nd, fill_qty = t\<rparr>])"
    using market_step_settle [OF lad node [unfolded as] t_def] by (simp add: b'_def)
  moreover have "unat t = min (unat w) (ao_vis (abs_order (mem b a)))"
    by (simp add: t_def unat_simps)
  moreover have "abs_fill \<lparr>resting_order_id = order_id (mem b a), fill_price = nd_price nd,
      fill_qty = t\<rparr> = (ao_id (abs_order (mem b a)), nd_price nd, unat t)"
    by (simp add: abs_fill_def)
  moreover have "book_view b (opposite s) =
      (nd_price nd, abs_order (mem b a) # abs_level (mem b) q) # B"
    using spec(1,2) by simp
  moreover have "book_view b' = (book_view b)(opposite s :=
      sp_consume (unat t) (nd_price nd) (abs_order (mem b a)) (abs_level (mem b) q) B)"
    using spec(2,4) by (simp add: sp_consume_after)
  ultimately show ?thesis using spec(3,5,6) by blast
qed

lemma market_loop:
  assumes "sp_match n ls = (fs, r)" and "book_inv E b" and "book_view b (opposite s) = ls"
    and "unat w = n"
  shows "\<exists>w' b' gs. while_option (market_cond s) (market_step s) (w, b, fills) =
      Some (w', b', fills @ gs) \<and> map abs_fill gs = fs \<and> book_inv E b' \<and>
      book_view b' = (book_view b)(opposite s := r) \<and>
      next_order_id b' = next_order_id b \<and> book_frame E b b'"
  using assms
proof (induction arbitrary: b w fills rule: sp_match_induct)
  case (stop q ls)
  from stop.prems obtain L where rel: "book_rel L E b" by (auto simp: book_inv_iff)
  have "\<not> market_cond s (w, b, fills)"
  proof (cases "q = 0")
    case True
    then show ?thesis using stop.prems by (simp add: market_cond_def word_gt_0_unat)
  next
    case False
    then have "view_of (mem b) (ladder (opposite s) b) (L (opposite s)) = []"
      using stop by (simp add: book_view_rel [OF rel])
    then have "ladder (opposite s) b = []"
      using book_rel_length [OF rel, of "opposite s"] by (auto simp: view_of_def)
    then show ?thesis by (simp add: market_cond_def)
  qed
  then have "while_option (market_cond s) (market_step s) (w, b, fills) = Some (w, b, fills @ [])"
    by (simp add: while_option_unfold)
  moreover have "book_view b = (book_view b)(opposite s := ls)" using stop.prems by auto
  ultimately show ?case using stop.prems book_frame_refl by blast
next
  case (skip q p ls fs r)
  from skip.prems obtain L where rel: "book_rel L E b" by (auto simp: book_inv_iff)
  from book_view_full [OF rel, of "opposite s"] skip.prems show ?case by simp
next
  case (take q p x xs ls fs r t)
  from take.prems obtain L where rel: "book_rel L E b" by (auto simp: book_inv_iff)
  have nonempty: "ladder (opposite s) b \<noteq> []"
  proof
    assume "ladder (opposite s) b = []"
    with take.prems show False by (simp add: book_view_rel [OF rel] view_of_def)
  qed
  from market_step_spec [OF take.prems(1) nonempty, of w fills] take.prems(2)
  obtain u b1 f where step: "market_step s (w, b, fills) = (w - u, b1, fills @ [f])"
    and u: "unat u = min (unat w) (ao_vis x)" and f: "abs_fill f = (ao_id x, p, unat u)"
    and inv1: "book_inv E b1"
    and view1: "book_view b1 = (book_view b)(opposite s := sp_consume (unat u) p x xs ls)"
    and frame1: "next_order_id b1 = next_order_id b" "book_frame E b b1" by auto
  have ut: "unat u = t" using u take by simp
  have wu: "unat (w - u) = q - t" using take u ut by (simp add: unat_simps)
  have "book_view b1 (opposite s) = sp_consume t p x xs ls" by (simp add: view1 ut)
  from take.IH [OF inv1 this wu, of "fills @ [f]"] obtain w' b' gs
    where loop: "while_option (market_cond s) (market_step s) (w - u, b1, fills @ [f]) =
      Some (w', b', (fills @ [f]) @ gs)" "map abs_fill gs = fs" "book_inv E b'"
      "book_view b' = (book_view b1)(opposite s := r)"
      "next_order_id b' = next_order_id b1" "book_frame E b1 b'" by blast
  have "market_cond s (w, b, fills)"
    using nonempty take by (simp add: market_cond_def word_gt_0_unat)
  then have "while_option (market_cond s) (market_step s) (w, b, fills) =
      Some (w', b', fills @ (f # gs))"
    using loop(1) step by (subst while_option_unfold) simp
  moreover have "map abs_fill (f # gs) = (ao_id x, p, t) # fs" using loop(2) f ut by simp
  moreover have "book_view b' = (book_view b)(opposite s := r)" using loop(4) view1 by simp
  moreover have "next_order_id b' = next_order_id b" using loop(5) frame1(1) by simp
  moreover have "book_frame E b b'" using frame1(2) loop(6) by (rule book_frame_trans)
  ultimately show ?case using loop(3) by (intro exI conjI)
qed

lemma market_order_spec:
  assumes "book_inv E b" and "sp_match (unat q) (book_view b (opposite s)) = (fs, r)"
  obtains gs b' where "market_order s q b = Some (gs, b')" and "map abs_fill gs = fs"
    and "book_inv E b'" and "book_view b' = (book_view b)(opposite s := r)"
    and "next_order_id b' = next_order_id b" and "book_frame E b b'"
proof -
  from market_loop [OF assms(2,1) refl refl, of "[]"] obtain w' b' gs where
    "while_option (market_cond s) (market_step s) (q, b, []) = Some (w', b', gs)"
    "map abs_fill gs = fs" "book_inv E b'" "book_view b' = (book_view b)(opposite s := r)"
    "next_order_id b' = next_order_id b" "book_frame E b b'" by auto
  then show thesis by (intro that) (simp_all add: market_order_def)
qed

subsection \<open>Fills by id\<close>

text \<open>
  \<open>adjust_aggregate\<close> subtracts a fill from the aggregate as long as the fill is below
  \<open>2 ^ 63\<close>, whatever the sign the 64-bit negation comes out with.
\<close>

lemma adjust_aggregate_fill:
  assumes "unat t \<le> unat (lv_agg l)"
  shows "adjust_aggregate l (- t) = l\<lparr>lv_agg := lv_agg l - t\<rparr>"
  using assms by (auto simp: adjust_aggregate_def Let_def word_less_nat_alt)

lemma apply_fill_settle:
  assumes rel: "book_rel L E b" and lad: "ladder s b = us @ nd # vs"
    and node: "node_rel s (mem b) nd (p @ a # q)" and len: "i = length us"
    and found: "find_id oid b = Some a" and find: "find_level s (nd_price nd) b = Some i"
    and t: "t = min w (remaining_qty (mem b a))"
  shows "apply_fill oid w b = (t, settle s i a t b)"
proof -
  define h1 where "h1 = (mem b)(a := (mem b a)\<lparr>remaining_qty := remaining_qty (mem b a) - t\<rparr>)"
  define l1 where "l1 = (nd_level nd)\<lparr>lv_agg := lv_agg (nd_level nd) - t\<rparr>"
  define b1 where "b1 = set_level s i l1 (b\<lparr>mem := h1\<rparr>)"
  have le: "unat t \<le> unat (remaining_qty (mem b a))" by (simp add: t unat_simps)
  have lev: "level_at s i b = nd_level nd" using lad len by simp
  have adj: "adjust_aggregate (nd_level nd) (- t) = l1"
    using node_rel_agg_ge [OF node] le unfolding l1_def by (intro adjust_aggregate_fill) simp
  have mb: "price (mem b a) = nd_price nd" "oside (mem b a) = side_code s"
    using node by (simp_all add: node_rel_def)
  have oid: "order_id (mem b a) = oid" by (rule find_id_live [OF rel found])
  have find1: "find_level s (nd_price nd) (b\<lparr>mem := h\<rparr>) = Some i" for h
    using find by (simp add: find_level_def)
  have settle: "settle s i a t b = (if remaining_qty (h1 a) \<noteq> 0 then b1
    else case try_replenish_iceberg a l1 h1 of
      (True, l2, h2) \<Rightarrow> set_level s i l2 (b\<lparr>mem := h2\<rparr>)
    | (False, _, _) \<Rightarrow> dealloc a (drop_id oid (unlink_order s i a b1)))"
    unfolding settle_def Let_def lev oid
    by (simp only: h1_def [symmetric] l1_def [symmetric] b1_def [symmetric])
  have h1a: "remaining_qty (h1 a) = remaining_qty (mem b a) - t" by (simp add: h1_def)
  have step: "apply_fill oid w b =
    (if remaining_qty (h1 a) \<noteq> 0 then (t, b1)
     else (case try_replenish_iceberg a l1 (mem b1) of
             (True, l2, h2) \<Rightarrow> (t, set_level s i l2 (b1\<lparr>mem := h2\<rparr>))
           | (False, _, _) \<Rightarrow>
               (let (l2, h2) = remove l1 a (mem b1);
                    b3 = set_level s i l2 (b1\<lparr>mem := h2\<rparr>);
                    b4 = (if lv_cnt l2 = 0
                          then set_ladder s (erase_price (side_cmp s) (ladder s b3) (price (h2 a))) b3
                          else b3)
                in (t, dealloc a (drop_id oid b4)))))"
  proof -
    define x where "x = (mem b a)\<lparr>remaining_qty := remaining_qty (mem b a) - t\<rparr>"
    have x: "side_of_code (oside x) = s" "price x = nd_price nd" "(mem b)(a := x) = h1"
      "remaining_qty x = remaining_qty (h1 a)"
      by (simp_all add: x_def mb h1_def)
    have lev1: "level_at s i (b\<lparr>mem := h1\<rparr>) = nd_level nd" using lev by simp
    show ?thesis
      unfolding apply_fill_def found option.case t [symmetric] Let_def x_def [symmetric] x find1
        lev1 adj b1_def [symmetric] ..
  qed
  have b1: "mem b1 = h1" "ladder s b1 = us @ nd\<lparr>nd_level := l1\<rparr> # vs"
    by (simp_all add: b1_def lad len)
  consider (partial) "remaining_qty (h1 a) \<noteq> 0"
    | (again) l2 h2 where "remaining_qty (h1 a) = 0"
        "try_replenish_iceberg a l1 h1 = (True, l2, h2)"
    | (finished) "remaining_qty (h1 a) = 0" "try_replenish_iceberg a l1 h1 = (False, l1, h1)"
    by (metis try_replenish_cases)
  then show ?thesis
  proof cases
    case partial
    then show ?thesis by (simp add: step settle)
  next
    case again
    have "set_level s i l2 (b1\<lparr>mem := h2\<rparr>) = set_level s i l2 (b\<lparr>mem := h2\<rparr>)"
      by (intro book_eqI [where s = s]) (simp_all add: b1_def lad len)
    with again show ?thesis by (simp add: step settle b1)
  next
    case finished
    obtain l2 h2 where rm: "remove l1 a h1 = (l2, h2)" by (cases "remove l1 a h1")
    have node1: "node_rel s h1 (nd\<lparr>nd_level := l1\<rparr>) (p @ a # q)"
      by (rule node_rel_fill [OF node le h1_def l1_def])
    have nr: "remove (nd_level (nd\<lparr>nd_level := l1\<rparr>)) a h1 = (l2, h2)" using rm by simp
    note same = same_payload [of h2 h1, OF node_rel_remove(4) [OF node1 nr]]
    have px: "price (h2 a) = nd_price nd" by (simp add: same h1_def mb)
    have "ladder_sorted (side_cmp s) (us @ nd # vs)" using book_rel_sorted [OF rel, of s] lad by simp
    then have sorted: "ladder_sorted (side_cmp s) (us @ nd\<lparr>nd_level := l2\<rparr> # vs)"
      by (simp add: ladder_sorted_def)
    have erase: "erase_price (side_cmp s) (us @ nd\<lparr>nd_level := l2\<rparr> # vs) (nd_price nd) = us @ vs"
      using lad.erase_price_mid [OF sorted] by simp
    have "(let b3 = set_level s i l2 (b1\<lparr>mem := h2\<rparr>)
        in if lv_cnt l2 = 0
           then set_ladder s (erase_price (side_cmp s) (ladder s b3) (price (h2 a))) b3 else b3) =
      unlink_order s i a b1"
      using rm px erase lad
      by (intro book_eqI [where s = s])
        (simp_all add: unlink_order_def level_at_def b1 len Let_def)
    with finished rm show ?thesis by (simp add: step settle b1 Let_def)
  qed
qed

lemma apply_fill_spec:
  assumes rel: "book_rel L E b" and found: "find_id oid b = Some a" and a: "a \<notin> set E"
  obtains t b' where "apply_fill oid w b = (t, b')" and "t = min w (remaining_qty (mem b a))"
    and "book_inv E b'" and "book_view b' = (\<lambda>s. sp_fill oid (unat t) (book_view b s))"
    and "next_order_id b' = next_order_id b" and "book_frame E b b'" and "settled a b b'"
proof -
  from find_id_live [OF rel found] have live: "a \<in> live L E" and oid: "order_id (mem b a) = oid"
    by auto
  from live a obtain s where "a \<in> set (concat (L s))" by (rule in_liveE)
  with rel obtain us nd vs xs p q ys where lad: "ladder s b = us @ nd # vs"
    and L: "L s = xs @ (p @ a # q) # ys" and len: "length xs = length us"
    and node: "node_rel s (mem b) nd (p @ a # q)"
    and find: "find_level s (nd_price nd) b = Some (length us)"
    by (rule book_rel_locate)
  define t where "t = min w (remaining_qty (mem b a))"
  define b' where "b' = settle s (length us) a t b"
  have le: "unat t \<le> unat (remaining_qty (mem b a))" by (simp add: t_def unat_simps)
  obtain A B where view: "book_view b s = A @ (nd_price nd, abs_level (mem b) (p @ a # q)) # B"
    and inv': "book_inv E b'"
    and view': "book_view b' = (book_view b)(s := A @ with_level (nd_price nd)
        (after_fill (unat t) (abs_level (mem b) p) (abs_order (mem b a)) (abs_level (mem b) q)) @ B)"
    and frame: "next_order_id b' = next_order_id b" "book_frame E b b'" "settled a b b'"
    using settle_rel [OF rel lad L len node le b'_def] by blast
  have d: "distinct (side_ids (A @ (nd_price nd, abs_level (mem b) p @ abs_order (mem b a) #
      abs_level (mem b) q) # B))"
    using book_ids_distinct1 [OF rel, of s] view by simp
  have f: "side_full (A @ B)" using book_view_full [OF rel, of s] view by simp
  have here: "sp_fill oid (unat t) (book_view b s) = A @ with_level (nd_price nd)
      (after_fill (unat t) (abs_level (mem b) p) (abs_order (mem b a)) (abs_level (mem b) q)) @ B"
    using sp_fill_mid [OF d f, of "unat t"] view oid by simp
  have "oid \<in> set (side_ids (book_view b s))" using view oid by simp
  then have there: "sp_fill oid (unat t) (book_view b (opposite s)) = book_view b (opposite s)"
    using book_view_full [OF rel] book_view_other [OF rel] by (intro sp_fill_absent)
  have "book_view b' = (\<lambda>s. sp_fill oid (unat t) (book_view b s))"
    unfolding view' using here there by (intro fun_side_eqI [where s = s]) simp_all
  moreover have "apply_fill oid w b = (t, b')"
    using apply_fill_settle [OF rel lad node refl found find t_def] by (simp add: b'_def)
  ultimately show thesis using t_def inv' frame by (intro that)
qed

lemma apply_fill_unknown: "find_id oid b = None \<Longrightarrow> apply_fill oid w b = (0, b)"
  by (simp add: apply_fill_def)

end
