(* ===== verification/Book_Changes.thy ===== *)
theory Book_Changes
  imports Book_Fills
begin

section \<open>Changing orders in place, and moving them\<close>

text \<open>
  \<open>configure_iceberg\<close> and \<open>modify_order\<close>. Both write the order and move the aggregate of
  its level by a signed 64-bit difference, so their specifications bound the quantities of
  the level by \<open>2 ^ 63\<close>; a modification that changes the price is a cancel and an add.
\<close>

lemma change_rel:
  assumes rel: "book_rel L E b" and found: "find_id oid b = Some a" and a: "a \<notin> set E"
    and s: "s = side_of_code (oside (mem b a))"
    and links: "prev x = prev (mem b a)" "nxt x = nxt (mem b a)" "order_id x = order_id (mem b a)"
    and fixed: "price x = price (mem b a)" "oside x = oside (mem b a)"
      "stop_type x = stop_type (mem b a)"
    and disp: "display_qty x = 0 \<longrightarrow> hidden_qty x = 0"
    and room: "level_liq (price (mem b a)) (book_view b s) +
      unat (remaining_qty x) + unat (hidden_qty x) < 2 ^ 64"
    and small: "unat (remaining_qty (mem b a)) \<le> unat (remaining_qty x) \<Longrightarrow>
      unat (remaining_qty x) - unat (remaining_qty (mem b a)) < 2 ^ 63"
    and f: "f (abs_order (mem b a)) = abs_order x"
  obtains i b' where "find_level s (price (mem b a)) b = Some i"
    and "b' = set_level s i (adjust_aggregate (level_at s i b)
          (remaining_qty x - remaining_qty (mem b a))) (b\<lparr>mem := (mem b)(a := x)\<rparr>)"
    and "book_inv E b'" and "book_view b' = (\<lambda>t. sp_update oid f (book_view b t))"
    and "next_order_id b' = next_order_id b" and "book_frame E b b'"
proof -
  from find_id_live [OF rel found] have live: "a \<in> live L E" and oid: "order_id (mem b a) = oid"
    by auto
  from live a obtain s' where "a \<in> set (concat (L s'))" by (rule in_liveE)
  with rel obtain us nd vs xs p q ys where lad: "ladder s' b = us @ nd # vs"
    and L: "L s' = xs @ (p @ a # q) # ys" and len: "length xs = length us"
    and node: "node_rel s' (mem b) nd (p @ a # q)" and side: "oside (mem b a) = side_code s'"
    and px: "price (mem b a) = nd_price nd"
    and find: "find_level s' (nd_price nd) b = Some (length us)"
    by (rule book_rel_locate)
  have s': "s' = s" using s side by simp
  note lad = lad [unfolded s'] and L = L [unfolded s'] and node = node [unfolded s']
    and find = find [unfolded s']
  have dist: "distinct (p @ a # q)" using node by (rule node_rel_distinct)
  have view: "book_view b s = view_of (mem b) us xs @
      (nd_price nd, abs_level (mem b) (p @ a # q)) # view_of (mem b) vs ys"
    using len by (simp add: book_view_rel [OF rel] lad L view_of_append)
  then have "level_total (mem b) (p @ a # q) \<le> level_liq (nd_price nd) (book_view b s)"
    by (simp add: level_total_view)
  then have room': "level_total (mem b) (p @ q) + unat (remaining_qty x) + unat (hidden_qty x) < 2 ^ 64"
    using room px by simp
  have rems: "unat (lv_agg (nd_level nd)) = level_rems (mem b) (p @ q) + unat (remaining_qty (mem b a))"
    using node by (simp add: node_rel_def)
  note le = level_rems_le_total [of "mem b" "p @ q"]
  define g where "g = lv_agg (nd_level nd) - remaining_qty (mem b a) + remaining_qty x"
  have ge: "unat (remaining_qty (mem b a)) \<le> unat (lv_agg (nd_level nd))" using rems by simp
  have rm: "unat (lv_agg (nd_level nd)) - unat (remaining_qty (mem b a)) + unat (remaining_qty x) < 2 ^ 64"
    using rems le room' by linarith
  note adj = adjust_aggregate_exact [OF ge small rm, folded g_def]
  define nd' where "nd' = nd\<lparr>nd_level := (nd_level nd)\<lparr>lv_agg := g\<rparr>\<rparr>"
  define b' where "b' = set_level s (length us) (adjust_aggregate (level_at s (length us) b)
      (remaining_qty x - remaining_qty (mem b a))) (b\<lparr>mem := (mem b)(a := x)\<rparr>)"
  have lev: "level_at s (length us) b = nd_level nd" using lad by simp
  have fields: "mem b' = (mem b)(a := x)" "ladder s b' = us @ nd' # vs"
    "ladder (opposite s) b' = ladder (opposite s) b" "id_slots b' = id_slots b"
    "next_order_id b' = next_order_id b" "pool b' = pool b"
    "pending_stop_storage b' = pending_stop_storage b" "nd_price nd' = nd_price nd"
    using adj(1) by (simp_all add: b'_def nd'_def lad lev)
  have "unat g = level_rems (mem b) (p @ q) + unat (remaining_qty x)" using adj(2) rems by simp
  from node_rel_change [OF node links(1,2) fixed disp this room']
  have node': "node_rel s (mem b') nd' (p @ a # q)" by (simp add: fields nd'_def)
  have f1: "\<forall>y. y \<notin> set (p @ a # q) \<longrightarrow> mem b' y = mem b y"
    "\<forall>y. order_id (mem b' y) = order_id (mem b y)" using links(3) by (simp_all add: fields)
  note keep = book_rel_keep [OF rel lad L len fields(2,3,8) node' refl f1 fields(4-7)]
  have d: "distinct (side_ids (view_of (mem b) us xs @ (nd_price nd, abs_level (mem b) p @
      abs_order (mem b a) # abs_level (mem b) q) # view_of (mem b) vs ys))"
    using book_ids_distinct1 [OF rel, of s] view by simp
  have lev': "abs_level (mem b') (p @ a # q) = abs_level (mem b) p @ f (abs_order (mem b a)) #
      abs_level (mem b) q"
    using dist f by (simp add: fields abs_level_def)
  have here: "sp_update oid f (book_view b s) = book_view b' s"
    using sp_update_mid [OF d, of f] oid unfolding keep(2) lev' view by simp
  have "oid \<in> set (side_ids (book_view b s))" using view oid by simp
  then have there: "sp_update oid f (book_view b (opposite s)) = book_view b (opposite s)"
    using book_view_other [OF rel] by (intro sp_update_absent)
  have "book_view b' = (\<lambda>t. sp_update oid f (book_view b t))"
    using here there keep(2) by (intro fun_side_eqI [where s = s]) simp_all
  moreover have "book_frame E b b'"
    by (rule book_frameI [where L = L and s = s and as = "p @ a # q" and xs = xs and ys = ys, OF rel L])
      (use f1 in \<open>simp_all add: fields\<close>)
  moreover have "book_inv E b'" using keep(1) by (rule book_relI)
  ultimately show thesis using find px b'_def fields(5) by (intro that) simp_all
qed

subsection \<open>Icebergs\<close>

definition ice :: "nat \<Rightarrow> aorder \<Rightarrow> aorder" where
  "ice d x = x\<lparr>ao_vis := min d (ao_qty x), ao_disp := d, ao_hid := ao_qty x - d\<rparr>"

lemma unat_excess:
  fixes a b :: "'a::len word"
  shows "unat (if a > b then a - b else 0) = unat a - unat b"
  by (auto simp: word_less_nat_alt unat_simps)

lemma configure_iceberg_unknown:
  "find_id oid b = None \<or> d = 0 \<Longrightarrow> configure_iceberg oid d b = (False, b)"
  by (auto simp: configure_iceberg_def split: option.splits)

lemma configure_iceberg_spec:
  assumes rel: "book_rel L E b" and found: "find_id oid b = Some a" and a: "a \<notin> set E"
    and d: "d \<noteq> 0" and room: "level_liq (price (mem b a))
      (book_view b (side_of_code (oside (mem b a)))) + unat (qty (mem b a)) < 2 ^ 63"
  obtains b' where "configure_iceberg oid d b = (True, b')" and "book_inv E b'"
    and "book_view b' = (\<lambda>t. sp_update oid (ice (unat d)) (book_view b t))"
    and "next_order_id b' = next_order_id b" and "book_frame E b b'"
proof -
  define s where "s = side_of_code (oside (mem b a))"
  define x where "x = (mem b a)\<lparr>display_qty := d,
    hidden_qty := (if qty (mem b a) > d then qty (mem b a) - d else 0),
    remaining_qty := min d (qty (mem b a))\<rparr>"
  have hid: "unat (hidden_qty x) = unat (qty (mem b a)) - unat d"
    unfolding unat_excess [symmetric] by (simp add: x_def)
  have vis: "unat (remaining_qty x) = min (unat d) (unat (qty (mem b a)))"
    by (simp add: x_def unat_simps)
  obtain i b' where find: "find_level s (price (mem b a)) b = Some i"
    and b': "b' = set_level s i (adjust_aggregate (level_at s i b)
          (remaining_qty x - remaining_qty (mem b a))) (b\<lparr>mem := (mem b)(a := x)\<rparr>)"
    and res: "book_inv E b'" "book_view b' = (\<lambda>t. sp_update oid (ice (unat d)) (book_view b t))"
      "next_order_id b' = next_order_id b" "book_frame E b b'"
  proof (rule change_rel [OF rel found a s_def, of x "ice (unat d)"])
    show "level_liq (price (mem b a)) (book_view b s) + unat (remaining_qty x) +
        unat (hidden_qty x) < 2 ^ 64"
      using room hid vis by (simp add: s_def)
    show "unat (remaining_qty x) - unat (remaining_qty (mem b a)) < 2 ^ 63"
      using room vis by simp
    show "ice (unat d) (abs_order (mem b a)) = abs_order x"
      using hid vis by (simp add: ice_def abs_order_def) (simp add: x_def)
    show "display_qty x = 0 \<longrightarrow> hidden_qty x = 0" using d by (simp add: x_def)
  qed (simp_all add: x_def)
  have find': "find_level s (price x) (b\<lparr>mem := (mem b)(a := x)\<rparr>) = Some i"
    using find by (simp add: find_level_def x_def)
  have sd: "side_of_code (oside x) = s" by (simp add: x_def s_def)
  have lev: "level_at s i (b\<lparr>mem := (mem b)(a := x)\<rparr>) = level_at s i b" by simp
  have "configure_iceberg oid d b = (True, b')"
    unfolding configure_iceberg_def found option.case Let_def x_def [symmetric] sd find' lev b'
    using d by simp
  then show thesis using res by (rule that)
qed

subsection \<open>Modifying\<close>

definition resize :: "nat \<Rightarrow> aorder \<Rightarrow> aorder" where
  "resize n x = x\<lparr>ao_qty := n,
     ao_vis := (if ao_qty x \<le> n then ao_vis x + (n - ao_qty x) else min (ao_vis x) n)\<rparr>"

lemma modify_unknown: "find_id oid b = None \<Longrightarrow> modify_order oid px q b = (False, b)"
  by (simp add: modify_order_def)

lemma modify_same_price:
  assumes rel: "book_rel L E b" and found: "find_id oid b = Some a" and a: "a \<notin> set E"
    and room: "level_liq (price (mem b a))
      (book_view b (side_of_code (oside (mem b a)))) + unat n < 2 ^ 63"
    and old: "unat (qty (mem b a)) < 2 ^ 63"
  obtains b' where "modify_order oid (price (mem b a)) n b = (True, b')" and "book_inv E b'"
    and "book_view b' = (\<lambda>t. sp_update oid (resize (unat n)) (book_view b t))"
    and "next_order_id b' = next_order_id b" and "book_frame E b b'"
proof -
  define s where "s = side_of_code (oside (mem b a))"
  define r where "r = (if 0 \<le>s n - qty (mem b a) then remaining_qty (mem b a) + (n - qty (mem b a))
      else min (remaining_qty (mem b a)) n)"
  define x where "x = (mem b a)\<lparr>qty := n, remaining_qty := r\<rparr>"
  have liq: "unat (remaining_qty (mem b a)) + unat (hidden_qty (mem b a)) \<le>
      level_liq (price (mem b a)) (book_view b s)"
  proof -
    from find_id_live [OF rel found] have live: "a \<in> live L E" by auto
    from live a obtain t where "a \<in> set (concat (L t))" by (rule in_liveE)
    with rel obtain us nd vs xs p q ys where loc: "ladder t b = us @ nd # vs"
      "L t = xs @ (p @ a # q) # ys" "length xs = length us"
      and "oside (mem b a) = side_code t" "price (mem b a) = nd_price nd"
      by (rule book_rel_locate)
    then show ?thesis
      by (simp add: s_def book_view_rel [OF rel] view_of_append order_liq_def)
  qed
  have small: "unat n < 2 ^ 63" "unat (remaining_qty (mem b a)) + unat n < 2 ^ 63"
    using room liq by (simp_all add: s_def)
  have r: "unat r = (if unat (qty (mem b a)) \<le> unat n
      then unat (remaining_qty (mem b a)) + (unat n - unat (qty (mem b a)))
      else min (unat (remaining_qty (mem b a))) (unat n))"
  proof (cases "unat (qty (mem b a)) \<le> unat n")
    case True
    then have "r = remaining_qty (mem b a) + (n - qty (mem b a))"
      using nonneg_diff_small [OF small(1) old] by (simp add: r_def)
    then show ?thesis using True small by (simp add: unat_simps)
  next
    case False
    then have "r = min (remaining_qty (mem b a)) n"
      using nonneg_diff_small [OF small(1) old] by (simp add: r_def)
    then show ?thesis using False by (simp add: unat_simps)
  qed
  obtain i b' where find: "find_level s (price (mem b a)) b = Some i"
    and b': "b' = set_level s i (adjust_aggregate (level_at s i b)
          (remaining_qty x - remaining_qty (mem b a))) (b\<lparr>mem := (mem b)(a := x)\<rparr>)"
    and res: "book_inv E b'" "book_view b' = (\<lambda>t. sp_update oid (resize (unat n)) (book_view b t))"
      "next_order_id b' = next_order_id b" "book_frame E b b'"
  proof (rule change_rel [OF rel found a s_def, of x "resize (unat n)"])
    show "level_liq (price (mem b a)) (book_view b s) + unat (remaining_qty x) +
        unat (hidden_qty x) < 2 ^ 64"
      using room liq r by (simp add: x_def s_def split: if_splits)
    show "unat (remaining_qty x) - unat (remaining_qty (mem b a)) < 2 ^ 63"
      using small r by (simp add: x_def split: if_splits)
    show "resize (unat n) (abs_order (mem b a)) = abs_order x"
      using r by (simp add: resize_def abs_order_def x_def)
    show "display_qty x = 0 \<longrightarrow> hidden_qty x = 0"
    proof -
      from find_id_live [OF rel found] have live: "a \<in> live L E" by auto
      from live a obtain t where "a \<in> set (concat (L t))" by (rule in_liveE)
      with rel obtain us nd vs xs p q ys where node: "node_rel t (mem b) nd (p @ a # q)"
        by (rule book_rel_locate)
      show ?thesis using node_rel_member(4) [OF node, of a] by (simp add: x_def)
    qed
  qed (simp_all add: x_def)
  have delta: "remaining_qty x - remaining_qty (mem b a) = r - remaining_qty (mem b a)"
    by (simp add: x_def)
  have lev: "level_at s i (b\<lparr>mem := (mem b)(a := x)\<rparr>) = level_at s i b" by simp
  have "modify_order oid (price (mem b a)) n b = (True, b')"
    unfolding modify_order_def found option.case Let_def s_def [symmetric] r_def [symmetric]
      x_def [symmetric] find lev b' delta by simp
  then show thesis using res by (rule that)
qed

lemma level_liq_remove: "level_liq p (sp_remove i ls) \<le> level_liq p ls"
proof (induction ls)
  case (Cons l ls)
  obtain p' xs where l: "l = (p', xs)" by (cases l)
  have "sum_list (map order_liq (filter (\<lambda>x. ao_id x \<noteq> i) xs)) \<le> sum_list (map order_liq xs)"
    by (induction xs) auto
  with Cons show ?case by (auto simp: l sp_remove_simps Let_def)
qed (simp add: sp_remove_simps)

text \<open>
  A new price: the order leaves its queue and joins the end of the new level under the
  next id. The pool cannot be full then, since the cancel has just freed a slot.
\<close>

lemma modify_new_price:
  assumes rel: "book_rel L E b" and found: "find_id oid b = Some a" and a: "a \<notin> set E"
    and new: "px \<noteq> price (mem b a)" and s: "s = side_of_code (oside (mem b a))"
    and room: "level_liq px (book_view b s) + unat n < 2 ^ 64"
  obtains b' where "modify_order oid px n b = (True, b')" and "book_inv E b'"
    and "book_view b' = (\<lambda>t. sp_remove oid (book_view b t))(s :=
      sp_add (side_cmp s) px (new_aorder (next_order_id b) n) (sp_remove oid (book_view b s)))"
    and "next_order_id b' = next_order_id b + 1" and "book_frame E b b'"
proof -
  from cancel_resting [OF rel found a] obtain b1 where c: "cancel_order oid b = (True, b1)"
    "book_inv E b1" "book_view b1 = (\<lambda>t. sp_remove oid (book_view b t))"
    "next_order_id b1 = next_order_id b" "book_frame E b b1" "pool b1 = deallocate (pool b) a"
    by metis
  from c(2) obtain L1 where rel1: "book_rel L1 E b1" by (auto simp: book_inv_iff)
  have "\<not> pool_full b1" by (auto simp: pool_full_def c(6) deallocate_def split: alloc_mode.splits)
  moreover have "level_liq px (book_view b1 s) + unat n < 2 ^ 64"
    using room level_liq_remove [of px oid "book_view b s"] by (simp add: c(3))
  ultimately obtain b' where m: "add_limit_order s px n b1 = (next_order_id b1, b')"
    "book_inv E b'" "book_view b' = (book_view b1)(s := sp_add (side_cmp s) px
           (new_aorder (next_order_id b1) n) (book_view b1 s))"
    "next_order_id b' = next_order_id b1 + 1" "book_frame E b1 b'"
    using add_limit_ok [OF rel1] by metis
  have "modify_order oid px n b = (True, b')"
    using found new c(1) m(1) s by (simp add: modify_order_def Let_def)
  moreover have "book_frame E b b'" using c(5) m(5) by (rule book_frame_trans)
  ultimately show thesis using m(2,3,4) c(3,4) by (intro that) simp_all
qed

end
