(* ===== verification/Book_Lifecycle.thy ===== *)
theory Book_Lifecycle
  imports Book_Changes
begin

section \<open>Queries, pending stops and destruction\<close>

text \<open>
  The remaining members of \<open>OrderBook\<close>: the walk over a level that \<open>get_level_orders\<close>
  does (it ends, and returns the level's orders in queue order), the quotes, the
  bookkeeping of pending stops, and the destructor.
\<close>

subsection \<open>Walking a level\<close>

lemma walk_seg:
  assumes "seg h p as None"
  shows "while_option (\<lambda>(cur, list). cur \<noteq> None)
      (\<lambda>(cur, list). case cur of None \<Rightarrow> (cur, list) | Some a \<Rightarrow> (nxt (h a), list @ [a]))
      (first_or as None, acc) = Some (None, acc @ as)"
  using assms
proof (induction as arbitrary: p acc)
  case Nil
  then show ?case by (simp add: while_option_unfold)
next
  case (Cons a as)
  then have "seg h (Some a) as None" and "nxt (h a) = first_or as None" by simp_all
  with Cons.IH [of "Some a" "acc @ [a]"] show ?case
    by (subst while_option_unfold) simp
qed

lemma walk_level: "level_links h l as \<Longrightarrow> walk h (lv_head l) = Some as"
  using walk_seg [of h None as "[]"] by (simp add: walk_def level_links_def)

text \<open>The list side of \<open>get_level_orders\<close>: the queue at a price.\<close>

definition level_queue :: "price_t \<Rightarrow> aside \<Rightarrow> aorder list" where
  "level_queue p ls = (case map_of ls p of None \<Rightarrow> [] | Some xs \<Rightarrow> xs)"

lemma map_of_mid: "p \<notin> fst ` set ls \<Longrightarrow> map_of (ls @ (p, xs) # ms) p = Some xs"
  by (induction ls) auto

lemma get_level_orders_spec:
  assumes rel: "book_rel L E b"
  obtains as where "get_level_orders s px b = Some as"
    and "abs_level (mem b) as = level_queue px (book_view b s)"
    and "set as \<subseteq> set (concat (L s))" and "distinct as"
proof -
  note sorted = book_rel_sorted [OF rel, of s] and len = book_rel_length [OF rel, of s]
  show thesis
  proof (cases "find_level s px b")
    case None
    then have "ladder_find (side_cmp s) (ladder s b) px = None" by (simp add: find_level_def)
    from lad.find_None [OF sorted this] have "px \<notin> set (map nd_price (ladder s b))" by auto
    then have "px \<notin> set (map fst (book_view b s))"
      by (simp only: book_view_rel [OF rel] view_prices [OF len] not_False_eq_True)
    then have "map_of (book_view b s) px = None" by (simp add: map_of_eq_None_iff)
    with None show thesis
      by (intro that [of "[]"]) (simp_all add: get_level_orders_def level_queue_def)
  next
    case (Some i)
    then have "ladder_find (side_cmp s) (ladder s b) px = Some i" by (simp add: find_level_def)
    then obtain us nd vs where "ladder s b = us @ nd # vs" "i = length us" "nd_price nd = px"
      by (rule ladder_find_Some_mid)
    then have i: "i < length (ladder s b)" "nd_price (ladder s b ! i) = px" by simp_all
    have node: "node_rel s (mem b) (ladder s b ! i) (L s ! i)"
      using book_rel_nodes [OF rel, of s] i by (auto simp: list_all2_conv_all_nth)
    have "walk (mem b) (lv_head (level_at s i b)) = Some (L s ! i)"
      using node_rel_links [OF node] by (simp add: level_at_def walk_level)
    moreover have "map_of (book_view b s) px = Some (abs_level (mem b) (L s ! i))"
    proof -
      have "distinct (map nd_price (ladder s b))"
        using sorted by (rule lad.distinct_prices)
      then have "distinct (map fst (book_view b s))"
        using view_prices [OF len, of "mem b"] by (simp add: book_view_rel [OF rel])
      moreover have "(px, abs_level (mem b) (L s ! i)) \<in> set (book_view b s)"
        using i len by (auto simp: book_view_rel [OF rel] view_of_def set_zip)
      ultimately show ?thesis by (simp add: map_of_eq_Some_iff)
    qed
    moreover have "L s ! i \<in> set (L s)" using i len by simp
    then have "set (L s ! i) \<subseteq> set (concat (L s))" by auto
    ultimately show thesis
      using Some i len node_rel_distinct [OF node]
      by (intro that [of "L s ! i"]) (simp_all add: get_level_orders_def level_queue_def)
  qed
qed

subsection \<open>Quotes\<close>

lemma best_view:
  assumes "book_rel L E b"
  shows "best s b = (case book_view b s of [] \<Rightarrow> None | (p, xs) # ls \<Rightarrow> Some p)"
proof (cases "ladder s b")
  case Nil
  then show ?thesis by (simp add: best_def book_view_rel [OF assms] view_of_def)
next
  case (Cons nd vs)
  with book_rel_length [OF assms, of s] obtain as ls where "L s = as # ls" by (cases "L s") auto
  with Cons show ?thesis by (simp add: best_def book_view_rel [OF assms])
qed

lemma best_sides: "best_bid b = best Buy b" "best_ask b = best Sell b"
  by (simp_all add: best_bid_def best_ask_def best_def ladder_def)

lemma level_agg_view:
  assumes "node_rel s h nd as"
  shows "unat (lv_agg (nd_level nd)) = sum_list (map ao_vis (abs_level h as))"
  using assms by (simp add: node_rel_def level_rems_def abs_level_def comp_def)

subsection \<open>Pending stops\<close>

definition stop_order ::
    "order_id_t \<Rightarrow> side \<Rightarrow> price_t \<Rightarrow> qty_t \<Rightarrow> u8 \<Rightarrow> price_t \<Rightarrow> qty_t \<Rightarrow> order" where
  "stop_order oid s stop_px q st limit_px display = zero_order
     \<lparr>order_id := oid, oside := side_code s, stop_price := stop_px, stop_type := st,
      price := limit_px, qty := q, remaining_qty := q, display_qty := display,
      hidden_qty := (if display > 0 \<and> q > display then q - display else 0)\<rparr>"

lemma add_pending_full: "pool_full b \<Longrightarrow> add_pending_stop s stop_px q st px d b = (0, b)"
  by (simp add: add_pending_stop_def pool_full_def allocate_def)

lemma add_pending_ok:
  assumes rel: "book_rel L E b" and space: "\<not> pool_full b"
  obtains a b' where "add_pending_stop s stop_px q st px d b = (next_order_id b, b')"
    and "a \<notin> live L E" and "book_rel L (a # E) b'" and "book_view b' = book_view b"
    and "mem b' = (mem b)(a := stop_order (next_order_id b) s stop_px q st px d)"
    and "next_order_id b' = next_order_id b + 1"
    and "pending_stop_storage b' = pending_stop_storage b @ [a]"
    and "mode (pool b') = mode (pool b)" "capacity (pool b') = capacity (pool b)"
proof -
  obtain a p h where alloc: "allocate (pool b) (mem b) = (Some a, p, h)"
    using space by (cases rule: allocate_cases [of "pool b" "mem b"]) (auto simp: pool_full_def)
  have pinv: "pool_inv (pool b) (live L E)" using rel by (simp add: book_rel_def)
  note al = allocate_Some [OF alloc pinv]
  define n where "n = next_order_id b"
  define x where "x = stop_order n s stop_px q st px d"
  define b1 where "b1 = b\<lparr>mem := (mem b)(a := x), pool := p, next_order_id := n + 1\<rparr>"
  define b' where "b' = (put_id a b1)\<lparr>pending_stop_storage := pending_stop_storage b @ [a]\<rparr>"
  have b1: "mem b1 = (mem b)(a := x)" "id_slots b1 = id_slots b" "ladder t b1 = ladder t b" for t
    by (simp_all add: b1_def)
  have fields: "mem b' = (mem b)(a := x)" "next_order_id b' = n + 1" "pool b' = p"
    "pending_stop_storage b' = pending_stop_storage b @ [a]"
    "id_slots b' = id_slots (put_id a b1)" by (simp_all add: b'_def) (simp_all add: b1_def)
  have lad: "ladder t b' = ladder t b" for t
    by (simp add: b'_def b1)
  have frame: "mem b' y = mem b y" if "y \<in> live L E" for y
    using that al(1) by (auto simp: fields)
  have in_live: "set (concat (L t)) \<subseteq> live L E" for t by (auto simp: live_def set_resting [of L t])
  have "ids_rel (mem b) (id_slots b1) n (live L E)"
    using rel by (simp add: book_rel_def n_def b1)
  then have ids: "ids_rel (mem b1) (id_slots (put_id a b1)) (Suc n) (insert a (live L E))"
    using al(1) by (intro put_id_rel) (simp_all add: b1 x_def stop_order_def)
  have live: "live L (a # E) = insert a (live L E)" by (auto simp: live_def)
  have dist: "distinct (resting L @ a # E)"
    using rel al(1) by (auto simp: book_rel_def live_def)
  have lads: "ladder_rel t (mem b') (ladder t b') (L t)" for t
    unfolding lad
    by (rule ladder_rel_cong [OF book_rel_ladder [OF rel, of t]]) (use in_live [of t] frame in blast)
  have rel': "book_rel L (a # E) b'"
    unfolding book_rel_def live
    using lads dist ids al(1,2) rel
    by (auto simp: fields b1 book_rel_def pending_ok_def live_def)
  have view: "book_view b' t = book_view b t" for t
    unfolding book_view_rel [OF rel] book_view_rel [OF rel'] lad
    by (rule view_of_cong) (use in_live [of t] frame in blast)
  have "add_pending_stop s stop_px q st px d b = (n, b')"
    using alloc al(3)
    by (simp add: add_pending_stop_def Let_def b'_def b1_def x_def stop_order_def n_def)
  then show thesis
    using al(1,4,5) rel' ext [of "book_view b'" "book_view b", OF view] fields
    by (intro that [of b' a]) (simp_all add: n_def x_def)
qed

lemma take_pending_ok:
  "book_rel L E b \<Longrightarrow> book_rel L E (snd (take_pending_stops b))"
  by (simp add: take_pending_stops_def book_rel_def pending_ok_def)

text \<open>
  Detaching a pending stop and freeing its order takes it out of the book for good: the id
  is unknown afterwards and the slot is free.
\<close>

lemma detach_free_ok:
  assumes rel: "book_rel L E b" and a: "a \<in> set E"
  obtains b1 b' where "detach_pending (order_id (mem b a)) b = (Some a, b1)"
    and "b' = free_order (Some a) b1"
    and "book_rel L (remove1 a E) b'" and "book_view b' = book_view b" and "mem b' = mem b"
    and "next_order_id b' = next_order_id b" and "find_id (order_id (mem b a)) b' = None"
    and "pending_stop_storage b' = remove1 a (pending_stop_storage b)"
    and "pool b' = deallocate (pool b) a"
proof -
  let ?i = "order_id (mem b a)"
  have live: "a \<in> live L E" using a by (simp add: live_def)
  have ids: "ids_rel (mem b) (id_slots b) (next_order_id b) (live L E)"
    using rel by (simp add: book_rel_def)
  have uniq: "order_id (mem b c) = ?i \<longleftrightarrow> c = a" for c
    using ids_relD(4) [OF ids live, of c] by auto
  have found: "find_id ?i b = Some a" by (rule find_id_Some [OF rel live])
  define st where "st = remove1 a (pending_stop_storage b)"
  define b1 where "b1 = drop_id ?i (b\<lparr>pending_stop_storage := st\<rparr>)"
  have det: "detach_pending ?i b = (Some a, b1)"
  proof (cases "a \<in> set (pending_stop_storage b)")
    case True
    then obtain xs ys where st': "pending_stop_storage b = xs @ a # ys" "a \<notin> set xs"
      by (metis split_list_first)
    have "List.extract (\<lambda>c. c = a) (pending_stop_storage b) = Some (xs, a, ys)"
      unfolding st'(1) using st'(2) by (intro extract_mid) auto
    moreover have "st = xs @ ys" using st' by (simp add: st_def remove1_append)
    moreover have "find_id ?i (b\<lparr>pending_stop_storage := st\<rparr>) = Some a"
      using found by (simp add: find_id_slot)
    ultimately show ?thesis by (simp add: detach_pending_def uniq b1_def)
  next
    case False
    then have "List.extract (\<lambda>c. c = a) (pending_stop_storage b) = None"
      by (auto simp: extract_None_iff)
    moreover have "st = pending_stop_storage b" using False by (simp add: st_def remove1_idem)
    ultimately show ?thesis using found by (simp add: detach_pending_def uniq b1_def)
  qed
  define b' where "b' = free_order (Some a) b1"
  have fields: "mem b' = mem b" "next_order_id b' = next_order_id b"
    "id_slots b' = (id_slots b)[?i := None]" "pool b' = deallocate (pool b) a"
    "pending_stop_storage b' = st" "ladder t b' = ladder t b" for t
    by (simp_all add: b'_def b1_def free_order_def)
  have E: "distinct (resting L @ E)" using rel by (simp add: book_rel_def)
  have live': "live L (remove1 a E) = live L E - {a}"
    using E a by (auto simp: live_def set_remove1_eq)
  have rel': "book_rel L (remove1 a E) b'"
    unfolding book_rel_def live'
  proof (intro conjI allI)
    show "ladder_rel t (mem b') (ladder t b') (L t)" for t
      using book_rel_ladder [OF rel, of t] by (simp add: fields)
    show "distinct (resting L @ remove1 a E)"
      using E by (auto simp: distinct_remove1 dest: notin_set_remove1 set_remove1_subset [THEN subsetD])
    show "ids_rel (mem b') (id_slots b') (next_order_id b') (live L E - {a})"
      unfolding fields by (rule ids_rel_drop [OF ids live])
    show "pool_inv (pool b') (live L E - {a})"
      unfolding fields using rel live by (intro deallocate_inv) (simp_all add: book_rel_def)
    show "pending_ok (pending_stop_storage b') (remove1 a E)"
      using rel E by (auto simp: fields st_def pending_ok_def book_rel_def set_remove1_eq)
  qed
  have "book_view b' t = book_view b t" for t
    by (simp add: book_view_rel [OF rel] book_view_rel [OF rel'] fields)
  moreover have "find_id ?i b' = None" by (simp add: find_id_slot fields)
  ultimately show thesis
    using det b'_def rel' fields by (intro that [of b1 b'] ext) (simp_all add: st_def)
qed

subsection \<open>The destructor\<close>

lemma dealloc_fold:
  "fold (\<lambda>p b. case p of None \<Rightarrow> b | Some a \<Rightarrow> dealloc a b) ps b =
   b\<lparr>pool := fold (\<lambda>a p. deallocate p a) (map the (filter (\<lambda>p. p \<noteq> None) ps)) (pool b)\<rparr>"
  by (induction ps arbitrary: b) (auto simp: dealloc_def split: option.splits)

lemma slot_at_in: "slot_at slots i = Some a \<Longrightarrow> Some a \<in> set slots"
  by (auto simp: slot_at_def split: if_splits) (metis nth_mem)

lemma distinct_filter_nth:
  "(\<And>i j. i < length xs \<Longrightarrow> j < length xs \<Longrightarrow> P (xs ! i) \<Longrightarrow> xs ! i = xs ! j \<Longrightarrow> i = j) \<Longrightarrow>
   distinct (filter P xs)"
proof (induction xs)
  case (Cons x xs)
  have "distinct (filter P xs)"
  proof (rule Cons.IH)
    fix i j assume "i < length xs" "j < length xs" "P (xs ! i)" "xs ! i = xs ! j"
    then show "i = j" using Cons.prems [of "Suc i" "Suc j"] by simp
  qed
  moreover have "x \<notin> set xs" if "P x"
  proof
    assume "x \<in> set xs"
    then obtain j where "j < length xs" "xs ! j = x" by (auto simp: in_set_conv_nth)
    then show False using Cons.prems [of 0 "Suc j"] that by simp
  qed
  ultimately show ?case by simp
qed simp

lemma ids_rel_slots:
  assumes "ids_rel h slots n L"
  shows "distinct (map the (filter (\<lambda>p. p \<noteq> None) slots))"
    and "set (map the (filter (\<lambda>p. p \<noteq> None) slots)) = L"
proof -
  have at: "slots ! i = Some a \<longleftrightarrow> a \<in> L \<and> order_id (h a) = i" if "i < length slots" for i a
    using ids_relD(1) [OF assms, of i a] that by (simp add: slot_at_def)
  have "i = j" if "i < length slots" "j < length slots" "slots ! i = slots ! j" "slots ! i \<noteq> None"
    for i j using that at by (metis option.exhaust)
  then have "distinct (filter (\<lambda>p. p \<noteq> None) slots)"
    by (intro distinct_filter_nth) auto
  then show "distinct (map the (filter (\<lambda>p. p \<noteq> None) slots))"
    by (auto simp: distinct_map inj_on_def)
  show "set (map the (filter (\<lambda>p. p \<noteq> None) slots)) = L"
  proof (intro equalityI subsetI)
    fix a assume "a \<in> set (map the (filter (\<lambda>p. p \<noteq> None) slots))"
    then have "Some a \<in> set slots" by auto
    then show "a \<in> L" using at by (metis in_set_conv_nth)
  next
    fix a assume "a \<in> L"
    then have "slot_at slots (order_id (h a)) = Some a" using ids_relD(1) [OF assms] by blast
    then have "Some a \<in> set slots" by (rule slot_at_in)
    then show "a \<in> set (map the (filter (\<lambda>p. p \<noteq> None) slots))" by force
  qed
qed

lemma destroy_ok:
  assumes "book_rel L E b"
  shows "pool_inv (pool (destroy_book b)) {}"
proof -
  let ?as = "map the (filter (\<lambda>p. p \<noteq> None) (id_slots b))"
  have ids: "ids_rel (mem b) (id_slots b) (next_order_id b) (live L E)"
    and inv: "pool_inv (pool b) (live L E)" using assms by (simp_all add: book_rel_def)
  have "pool_inv (fold (\<lambda>a p. deallocate p a) ?as (pool b)) (live L E - set ?as)"
    using ids_rel_slots [OF ids] by (intro pool.give_all [OF inv]) auto
  then have "pool_inv (fold (\<lambda>a p. deallocate p a) ?as (pool b)) {}"
    unfolding ids_rel_slots(2) [OF ids] by simp
  then show ?thesis by (simp only: destroy_book_def dealloc_fold) simp
qed

subsection \<open>Over the invariant\<close>

lemma market_order_match:
  assumes inv: "book_inv E b" and m: "market_order s q b = Some (gs, b')"
  shows "sp_match (unat q) (book_view b (opposite s)) =
      (map abs_fill gs, book_view b' (opposite s))"
    and "book_inv E b'" and "book_view b' s = book_view b s" and "book_frame E b b'"
    and "next_order_id b' = next_order_id b"
proof -
  obtain fs r where sp: "sp_match (unat q) (book_view b (opposite s)) = (fs, r)"
    by (cases "sp_match (unat q) (book_view b (opposite s))")
  obtain gs1 b1 where "market_order s q b = Some (gs1, b1)" "map abs_fill gs1 = fs"
    "book_inv E b1" "book_view b1 = (book_view b)(opposite s := r)"
    "next_order_id b1 = next_order_id b" "book_frame E b b1"
    by (rule market_order_spec [OF inv sp])
  with m sp show "sp_match (unat q) (book_view b (opposite s)) =
      (map abs_fill gs, book_view b' (opposite s))"
    "book_inv E b'" "book_view b' s = book_view b s" "book_frame E b b'"
    "next_order_id b' = next_order_id b" by simp_all
qed

lemma book_inv_view:
  assumes "book_inv E b"
  shows "side_ok (book_view b s)" "side_full (book_view b s)"
    "side_sorted (side_cmp s) (book_view b s)"
proof -
  from assms obtain L where rel: "book_rel L E b" by (auto simp: book_inv_iff)
  show "side_ok (book_view b s)" "side_full (book_view b s)"
    "side_sorted (side_cmp s) (book_view b s)"
    by (rule book_view_ok [OF rel] book_view_full [OF rel] book_view_sorted [OF rel])+
qed

end
