(* ===== verification/Matching_Engine.thy ===== *)
theory Matching_Engine
  imports Book_Lifecycle
begin

section \<open>The matching engine\<close>

text \<open>
  include/lob/matching_engine.hpp and src/matching_engine.cpp: the two matching policies,
  the submission entry points and the processing of triggered stop orders. The policy of an
  engine is a function argument of the operations that use it; \<open>policy_match\<close> gives the two
  of the program. \<open>process_triggers\<close> calls \<open>submit_market\<close>, which calls it again, so the
  queue loop takes fuel; \<open>Engine_Invariant\<close> shows which fuel is enough.
\<close>

subsection \<open>Pro-rata allocation\<close>

text \<open>
  The order in which the leftover units go out: by remainder descending, then by order id
  ascending. It is made the linear order of a type so that \<open>sort_key\<close> sorts by it; order
  ids are unique in a level, so \<open>std::sort\<close> has no choice.
\<close>

datatype pro_key = Pro_Key (key_rem: u64) (key_id: order_id_t)

instantiation pro_key :: linorder
begin

definition less_eq_pro_key :: "pro_key \<Rightarrow> pro_key \<Rightarrow> bool" where
  "less_eq_pro_key x y \<longleftrightarrow>
     (if key_rem x \<noteq> key_rem y then key_rem x > key_rem y else key_id x \<le> key_id y)"

definition less_pro_key :: "pro_key \<Rightarrow> pro_key \<Rightarrow> bool" where
  "less_pro_key x y \<longleftrightarrow>
     (if key_rem x \<noteq> key_rem y then key_rem x > key_rem y else key_id x < key_id y)"

instance
  by standard (auto simp: less_eq_pro_key_def less_pro_key_def pro_key.expand split: if_splits)

end

definition sum_u64 :: "u64 list \<Rightarrow> u64" where
  "sum_u64 xs = fold (\<lambda>x acc. acc + x) xs 0"

definition add_leftover :: "nat list \<Rightarrow> u64 list \<Rightarrow> u64 list" where
  "add_leftover picks alloc = fold (\<lambda>i al. al[i := al ! i + 1]) picks alloc"

text \<open>
  The allocation of an incoming quantity to the visible sizes \<open>szs\<close> of the orders \<open>ids\<close>.
  Products wrap at 64 bits as in the code.
\<close>

definition pro_rata_alloc :: "qty_t \<Rightarrow> qty_t \<Rightarrow> qty_t list \<Rightarrow> order_id_t list \<Rightarrow> qty_t list" where
  "pro_rata_alloc min_fill q szs ids =
     (let total = sum_u64 szs;
          alloc = map (\<lambda>sz. (sz * q) div total) szs;
          rems = map (\<lambda>sz. (sz * q) mod total) szs;
          s = sum_u64 alloc;
          leftover = (if q > s then q - s else 0);
          idx = sort_key (\<lambda>i. Pro_Key (rems ! i) (ids ! i)) [0..<length szs];
          alloc1 = add_leftover (take (unat leftover) idx) alloc
      in map (\<lambda>x. if x < min_fill then 0 else x) alloc1)"

text \<open>The fills, in queue order; the id is read when the turn of the order comes.\<close>

fun pro_rata_fills ::
    "price_t \<Rightarrow> (addr \<times> qty_t) list \<Rightarrow> order_book \<Rightarrow> fill list \<times> order_book" where
  "pro_rata_fills px [] b = ([], b)"
| "pro_rata_fills px ((a, tk) # rest) b =
     (if tk = 0 then pro_rata_fills px rest b
      else
        (let i = order_id (mem b a);
             (filled, b1) = apply_fill i tk b;
             (fs, b2) = pro_rata_fills px rest b1
         in (if filled > 0
             then \<lparr>resting_order_id = i, fill_price = px, fill_qty = filled\<rparr> # fs else fs, b2)))"

subsection \<open>The policies\<close>

type_synonym matcher = "side \<Rightarrow> qty_t \<Rightarrow> order_book \<Rightarrow> (fill list \<times> order_book) option"

definition fifo_match :: matcher where
  "fifo_match s q b = market_order s q b"

definition pro_rata_match :: "qty_t \<Rightarrow> matcher" where
  "pro_rata_match min_fill s q b =
     (case (case s of Buy \<Rightarrow> best_ask b | Sell \<Rightarrow> best_bid b) of
        None \<Rightarrow> Some ([], b)
      | Some px \<Rightarrow>
          (case get_level_orders (case s of Buy \<Rightarrow> Sell | Sell \<Rightarrow> Buy) px b of
             None \<Rightarrow> None
           | Some orders \<Rightarrow>
               (let szs = map (\<lambda>a. remaining_qty (mem b a)) orders;
                    ids = map (\<lambda>a. order_id (mem b a)) orders
                in if orders = [] \<or> sum_u64 szs = 0 then Some ([], b)
                   else Some (pro_rata_fills px
                          (zip orders (pro_rata_alloc min_fill q szs ids)) b))))"

datatype policy = FIFOStack | ProRataPolicy qty_t

definition policy_match :: "policy \<Rightarrow> matcher" where
  "policy_match p = (case p of FIFOStack \<Rightarrow> fifo_match | ProRataPolicy m \<Rightarrow> pro_rata_match m)"

subsection \<open>The engine\<close>

datatype stop_kind = NoStop | StopMarket | StopLimit

definition stop_code :: "stop_kind \<Rightarrow> u8" where
  "stop_code k = (case k of NoStop \<Rightarrow> 0 | StopMarket \<Rightarrow> 1 | StopLimit \<Rightarrow> 2)"

record engine =
  book :: order_book
  pending_stops :: "addr list"

definition new_engine :: "order_book \<Rightarrow> engine" where
  "new_engine b = \<lparr>book = b, pending_stops = []\<rparr>"

definition submit_limit ::
    "side \<Rightarrow> price_t \<Rightarrow> qty_t \<Rightarrow> qty_t \<Rightarrow> engine \<Rightarrow> order_id_t \<times> engine" where
  "submit_limit s px q display e =
     (let (oid, b) = add_limit_order s px q (book e);
          b1 = (if display > 0 then snd (configure_iceberg oid display b) else b)
      in (oid, e\<lparr>book := b1\<rparr>))"

definition submit_stop ::
    "side \<Rightarrow> price_t \<Rightarrow> qty_t \<Rightarrow> stop_kind \<Rightarrow> price_t \<Rightarrow> qty_t \<Rightarrow> engine \<Rightarrow> order_id_t \<times> engine"
  where
  "submit_stop s stop_px q k limit_px display e =
     (let (oid, b) = add_pending_stop s stop_px q (stop_code k) limit_px display (book e);
          e1 = e\<lparr>book := b\<rparr>
      in if oid = 0 then (0, e1)
         else
           (case get_order oid b of
              None \<Rightarrow> (oid, e1)
            | Some a \<Rightarrow> (oid, e1\<lparr>pending_stops := pending_stops e1 @ [a]\<rparr>)))"

text \<open>The queue \<open>process_triggers\<close> starts from: the engine's list, then the book's.\<close>

definition gather_stops :: "engine \<Rightarrow> addr list \<times> engine" where
  "gather_stops e =
     (let (from_book, b) = take_pending_stops (book e)
      in (pending_stops e @ from_book, \<lparr>book = b, pending_stops = []\<rparr>))"

definition is_triggered :: "price_t \<Rightarrow> order \<Rightarrow> bool" where
  "is_triggered trade x =
     (case side_of_code (oside x) of
        Buy \<Rightarrow> stop_price x \<le>s trade | Sell \<Rightarrow> trade \<le>s stop_price x)"

text \<open>
  \<open>submit_market\<close>, given \<open>process_triggers\<close> as \<open>proc\<close>, and one round of the loop of
  \<open>process_triggers\<close>. An element of the queue is read from memory when it is popped,
  whatever its slot holds by then.
\<close>

definition market_with ::
    "matcher \<Rightarrow> (price_t \<Rightarrow> engine \<Rightarrow> engine option) \<Rightarrow> side \<Rightarrow> qty_t \<Rightarrow> engine \<Rightarrow>
     (fill list \<times> engine) option" where
  "market_with mtch proc s q e =
     (case mtch s q (book e) of
        None \<Rightarrow> None
      | Some (fills, b) \<Rightarrow>
          (let e1 = e\<lparr>book := b\<rparr>
           in if fills = [] then Some (fills, e1)
              else map_option (\<lambda>e2. (fills, e2)) (proc (fill_price (last fills)) e1)))"

definition pop_stop ::
    "matcher \<Rightarrow> (price_t \<Rightarrow> engine \<Rightarrow> engine option) \<Rightarrow> price_t \<Rightarrow> addr \<Rightarrow> engine \<Rightarrow>
     engine option" where
  "pop_stop mtch proc trade a e =
     (let x = mem (book e) a; s = side_of_code (oside x)
      in if stop_type x = stop_code StopMarket then
           (if is_triggered trade x then
              (case detach_pending (order_id x) (book e) of
                 (None, b) \<Rightarrow> Some (e\<lparr>book := b\<rparr>)
               | (Some d, b) \<Rightarrow>
                   (let q = qty (mem b d)
                    in map_option snd
                         (market_with mtch proc s q (e\<lparr>book := free_order (Some d) b\<rparr>))))
            else Some (e\<lparr>pending_stops := pending_stops e @ [a]\<rparr>))
         else if stop_type x = stop_code StopLimit then
           (if is_triggered trade x then
              (case detach_pending (order_id x) (book e) of
                 (None, b) \<Rightarrow> Some (e\<lparr>book := b\<rparr>)
               | (Some d, b) \<Rightarrow>
                   (let y = mem b d
                    in Some (snd (submit_limit s (price y) (qty y) (display_qty y)
                         (e\<lparr>book := free_order (Some d) b\<rparr>)))))
            else Some (e\<lparr>pending_stops := pending_stops e @ [a]\<rparr>))
         else Some e)"

primrec run_triggers ::
    "nat \<Rightarrow> matcher \<Rightarrow> price_t \<Rightarrow> addr list \<Rightarrow> engine \<Rightarrow> engine option" where
  "run_triggers 0 mtch trade queue e = None"
| "run_triggers (Suc n) mtch trade queue e =
     (case queue of
        [] \<Rightarrow> Some e
      | a # rest \<Rightarrow>
          (case pop_stop mtch
                  (\<lambda>px e1. let (q1, e2) = gather_stops e1 in run_triggers n mtch px q1 e2)
                  trade a e of
             None \<Rightarrow> None
           | Some e1 \<Rightarrow> run_triggers n mtch trade rest e1))"

definition process_triggers :: "nat \<Rightarrow> matcher \<Rightarrow> price_t \<Rightarrow> engine \<Rightarrow> engine option" where
  "process_triggers n mtch trade e =
     (let (queue, e1) = gather_stops e in run_triggers n mtch trade queue e1)"

definition submit_market ::
    "nat \<Rightarrow> matcher \<Rightarrow> side \<Rightarrow> qty_t \<Rightarrow> engine \<Rightarrow> (fill list \<times> engine) option" where
  "submit_market n mtch s q e = market_with mtch (process_triggers n mtch) s q e"

end
