(* ===== verification/Engine_Invariant.thy ===== *)
theory Engine_Invariant
  imports Matching_Engine
begin

section \<open>The invariant of the engine, and enough fuel for the trigger loop\<close>

text \<open>
  The contract a matching policy keeps towards the engine is the locale
  \<open>matching_policy\<close>; in it the submission operations are shown to keep the engine well
  formed and the trigger loop to end. The two policies of the program are interpretations.
\<close>

subsection \<open>Quantities\<close>

definition fills_total :: "fill list \<Rightarrow> nat" where
  "fills_total gs = sum_list (map (\<lambda>f. unat (fill_qty f)) gs)"

definition book_liq :: "order_book \<Rightarrow> nat" where
  "book_liq b = liquidity (book_view b Buy) + liquidity (book_view b Sell)"

definition stop_qty :: "addr list \<Rightarrow> order_book \<Rightarrow> nat" where
  "stop_qty E b = sum_list (map (\<lambda>a. unat (qty (mem b a))) E)"

lemma book_liq_side: "book_liq b = liquidity (book_view b s) + liquidity (book_view b (opposite s))"
  by (cases s) (simp_all add: book_liq_def)

lemma liquidity_le_book: "liquidity (book_view b s) \<le> book_liq b"
  using book_liq_side [of b s] by simp

lemma stop_qty_frame: "book_frame E b b' \<Longrightarrow> stop_qty E b' = stop_qty E b"
  unfolding stop_qty_def book_frame_def by (intro arg_cong [where f = sum_list] map_cong) auto

lemma stop_qty_remove:
  "a \<in> set E \<Longrightarrow> stop_qty (remove1 a E) b + unat (qty (mem b a)) = stop_qty E b"
  by (induction E) (auto simp: stop_qty_def)

lemma liquidity_add: "liquidity (sp_add cmp p x ls) = liquidity ls + order_liq x"
  by (induction ls) auto

definition side_orders :: "aside \<Rightarrow> aorder list" where
  "side_orders ls = concat (map snd ls)"

lemma side_orders_add: "set (side_orders (sp_add cmp p x ls)) = insert x (set (side_orders ls))"
proof (induction ls)
  case (Cons l ls)
  then show ?case by (cases l) (auto simp: side_orders_def)
qed (simp add: side_orders_def)

lemma side_ids_orders: "side_ids ls = map ao_id (side_orders ls)"
  by (induction ls) (auto simp: side_orders_def)

lemma liquidity_update:
  "\<forall>x \<in> set (side_orders ls). ao_id x = i \<longrightarrow> order_liq (f x) = order_liq x \<Longrightarrow>
   liquidity (sp_update i f ls) = liquidity ls"
proof (induction ls)
  case (Cons l ls)
  obtain p xs where l: "l = (p, xs)" by (cases l)
  have "map order_liq (map (\<lambda>x. if ao_id x = i then f x else x) xs) = map order_liq xs"
    using Cons.prems by (simp add: l side_orders_def)
  then have "sum_list (map order_liq (map (\<lambda>x. if ao_id x = i then f x else x) xs)) =
      sum_list (map order_liq xs)" by (rule arg_cong)
  moreover have "liquidity (sp_update i f ls) = liquidity ls"
    using Cons by (auto simp: side_orders_def)
  ultimately show ?case by (simp add: l sp_update_simps del: map_map)
qed (simp add: sp_update_simps)

subsection \<open>Well-formed engines\<close>

text \<open>
  \<open>E\<close> are the pending stops. Each has a stop type that \<open>process_triggers\<close> knows, and is in
  the list of the engine, of the book, or in \<open>R\<close>, the part of a queue still to be worked
  off. The quantities in play stay below \<open>2 ^ 63\<close>, counting those of pending stops twice (once
  resting, once in the signed difference \<open>configure_iceberg\<close> computes).
\<close>

definition engine_rel :: "addr list \<Rightarrow> addr set \<Rightarrow> engine \<Rightarrow> bool" where
  "engine_rel E R e \<longleftrightarrow>
     book_inv E (book e) \<and> mode (pool (book e)) = Pool \<and>
     (\<forall>a \<in> set E. stop_type (mem (book e) a) = stop_code StopMarket \<or>
                  stop_type (mem (book e) a) = stop_code StopLimit) \<and>
     set E \<subseteq> R \<union> set (pending_stops e) \<union> set (pending_stop_storage (book e)) \<and>
     book_liq (book e) + 2 * stop_qty E (book e) < 2 ^ 63"

abbreviation engine_inv :: "addr list \<Rightarrow> engine \<Rightarrow> bool" where
  "engine_inv E e \<equiv> engine_rel E {} e"

definition queued :: "engine \<Rightarrow> nat" where
  "queued e = length (pending_stops e) + length (pending_stop_storage (book e))"

lemma engine_relD:
  assumes "engine_rel E R e"
  shows "book_inv E (book e)" "mode (pool (book e)) = Pool"
    "book_liq (book e) + 2 * stop_qty E (book e) < 2 ^ 63"
    "set E \<subseteq> R \<union> set (pending_stops e) \<union> set (pending_stop_storage (book e))"
    "a \<in> set E \<Longrightarrow> stop_type (mem (book e) a) = stop_code StopMarket \<or>
                  stop_type (mem (book e) a) = stop_code StopLimit"
  using assms by (simp_all add: engine_rel_def)

lemma stop_code_neq [simp]:
  "stop_code StopMarket \<noteq> 0" "stop_code StopLimit \<noteq> 0" "stop_code StopLimit \<noteq> stop_code StopMarket"
  "stop_code StopMarket \<noteq> stop_code StopLimit" "stop_code NoStop = 0"
  by (simp_all add: stop_code_def)

text \<open>The book of an engine may be replaced by one with the same pending stops and less in it.\<close>

lemma engine_rel_book:
  assumes "engine_rel E R e" and "book_inv E b'" and "book_frame E (book e) b'"
    and "book_liq b' \<le> book_liq (book e)"
  shows "engine_rel E R (e\<lparr>book := b'\<rparr>)" and "queued (e\<lparr>book := b'\<rparr>) = queued e"
proof -
  have "stop_qty E b' = stop_qty E (book e)" using assms(3) by (rule stop_qty_frame)
  then show "engine_rel E R (e\<lparr>book := b'\<rparr>)"
    using assms by (simp add: engine_rel_def book_frame_def)
  show "queued (e\<lparr>book := b'\<rparr>) = queued e"
    using assms(3) by (simp add: queued_def book_frame_def)
qed

lemma gather_rel:
  assumes "engine_rel E R e" and "gather_stops e = (q, e1)"
  shows "engine_rel E (set q \<union> R) e1" and "length q = queued e" and "queued e1 = 0"
    and "book_view (book e1) = book_view (book e)" and "next_order_id (book e1) = next_order_id (book e)"
proof -
  from engine_relD(1) [OF assms(1)] obtain L where rel: "book_rel L E (book e)"
    by (auto simp: book_inv_iff)
  define b where "b = (book e)\<lparr>pending_stop_storage := []\<rparr>"
  have q: "q = pending_stops e @ pending_stop_storage (book e)" "e1 = \<lparr>book = b, pending_stops = []\<rparr>"
    using assms(2) by (auto simp: gather_stops_def take_pending_stops_def b_def)
  have rel1: "book_rel L E b"
    using take_pending_ok [OF rel] by (simp add: take_pending_stops_def b_def)
  have view: "book_view b = book_view (book e)"
    by (rule ext) (simp add: book_view_rel [OF rel] book_view_rel [OF rel1], simp add: b_def)
  have m: "mem b = mem (book e)" "pool b = pool (book e)" "pending_stop_storage b = []"
    by (simp_all add: b_def)
  show "engine_rel E (set q \<union> R) e1"
    using assms(1) book_relI [OF rel1] unfolding engine_rel_def
    by (auto simp: q m view book_liq_def stop_qty_def)
  show "length q = queued e" "queued e1 = 0" by (simp_all add: q m queued_def)
  show "book_view (book e1) = book_view (book e)"
    "next_order_id (book e1) = next_order_id (book e)"
    by (simp_all add: q view) (simp add: b_def)
qed

text \<open>Detaching a stop that is not there changes nothing.\<close>

lemma detach_unknown:
  assumes rel: "book_rel L E b" and a: "a \<notin> live L E"
  shows "detach_pending (order_id (mem b a)) b = (None, b)"
proof -
  let ?i = "order_id (mem b a)"
  have ids: "ids_rel (mem b) (id_slots b) (next_order_id b) (live L E)"
    using rel by (simp add: book_rel_def)
  have other: "order_id (mem b c) \<noteq> ?i" if "c \<in> live L E" for c
    using ids_relD(4) [OF ids that, of a] a that by metis
  have "set (pending_stop_storage b) \<subseteq> live L E"
    using rel by (auto simp: book_rel_def pending_ok_def live_def)
  with other have "List.extract (\<lambda>c. order_id (mem b c) = ?i) (pending_stop_storage b) = None"
    by (auto simp: extract_None_iff)
  moreover have "find_id ?i b = None"
  proof (rule ccontr)
    assume "find_id ?i b \<noteq> None"
    then obtain c where "find_id ?i b = Some c" by blast
    from find_id_live [OF rel this] other show False by blast
  qed
  ultimately show ?thesis by (simp add: detach_pending_def)
qed

text \<open>Detaching and freeing a pending stop of an engine.\<close>

lemma engine_detach:
  assumes inv: "engine_rel E (insert a R) e" and a: "a \<in> set E"
  obtains b1 where "detach_pending (order_id (mem (book e) a)) (book e) = (Some a, b1)"
    and "mem b1 = mem (book e)" and "\<not> pool_full (free_order (Some a) b1)"
    and "engine_rel (remove1 a E) R (e\<lparr>book := free_order (Some a) b1\<rparr>)"
    and "queued (e\<lparr>book := free_order (Some a) b1\<rparr>) \<le> queued e"
    and "book_liq (free_order (Some a) b1) + 2 * stop_qty (remove1 a E) (free_order (Some a) b1) +
      2 * unat (qty (mem (book e) a)) < 2 ^ 63"
proof -
  from engine_relD(1) [OF inv] obtain L where rel: "book_rel L E (book e)"
    by (auto simp: book_inv_iff)
  obtain b1 b' where d: "detach_pending (order_id (mem (book e) a)) (book e) = (Some a, b1)"
    "b' = free_order (Some a) b1" "book_rel L (remove1 a E) b'" "book_view b' = book_view (book e)"
    "mem b' = mem (book e)" "pending_stop_storage b' = remove1 a (pending_stop_storage (book e))"
    "pool b' = deallocate (pool (book e)) a"
    by (rule detach_free_ok [OF rel a]) blast
  have m1: "mem b1 = mem (book e)" using d(2,5) by (simp add: free_order_def)
  have dist: "distinct E" using rel by (simp add: book_rel_def)
  have liq: "book_liq b' = book_liq (book e)" by (simp add: book_liq_def d(4))
  have sq: "stop_qty F b' = stop_qty F (book e)" for F by (simp add: stop_qty_def d(5))
  have room: "book_liq b' + 2 * stop_qty (remove1 a E) b' + 2 * unat (qty (mem (book e) a)) < 2 ^ 63"
    using engine_relD(3) [OF inv] stop_qty_remove [OF a, of "book e"] by (simp add: liq sq)
  have "engine_rel (remove1 a E) R (e\<lparr>book := b'\<rparr>)"
    unfolding engine_rel_def
  proof (intro conjI)
    show "book_inv (remove1 a E) (book (e\<lparr>book := b'\<rparr>))" using book_relI [OF d(3)] by simp
    show "mode (pool (book (e\<lparr>book := b'\<rparr>))) = Pool"
      using engine_relD(2) [OF inv] by (simp add: d(7))
    show "\<forall>c \<in> set (remove1 a E). stop_type (mem (book (e\<lparr>book := b'\<rparr>)) c) = stop_code StopMarket \<or>
        stop_type (mem (book (e\<lparr>book := b'\<rparr>)) c) = stop_code StopLimit"
      using engine_relD(5) [OF inv] dist by (simp add: d(5) set_remove1_eq)
    show "set (remove1 a E) \<subseteq> R \<union> set (pending_stops (e\<lparr>book := b'\<rparr>)) \<union>
        set (pending_stop_storage (book (e\<lparr>book := b'\<rparr>)))"
    proof
      fix c assume "c \<in> set (remove1 a E)"
      then have "c \<in> set E" "c \<noteq> a" using dist by simp_all
      with engine_relD(4) [OF inv]
      show "c \<in> R \<union> set (pending_stops (e\<lparr>book := b'\<rparr>)) \<union>
          set (pending_stop_storage (book (e\<lparr>book := b'\<rparr>)))" by (auto simp: d(6))
    qed
    show "book_liq (book (e\<lparr>book := b'\<rparr>)) + 2 * stop_qty (remove1 a E) (book (e\<lparr>book := b'\<rparr>)) < 2 ^ 63"
      using room by simp
  qed
  moreover have "queued (e\<lparr>book := b'\<rparr>) \<le> queued e"
    by (simp add: queued_def d(6) length_remove1)
  moreover have "\<not> pool_full b'" by (simp add: pool_full_def d(7) deallocate_def)
  ultimately show thesis using room d(1) m1 unfolding d(2) by (intro that)
qed

subsection \<open>Limit and stop submissions\<close>

lemma liquidity_ice:
  assumes "oid \<notin> set (side_ids ls)"
  shows "liquidity (sp_update oid (ice d) (sp_add cmp p (new_aorder oid q) ls)) =
    liquidity ls + unat q"
proof -
  have "order_liq (ice d x) = order_liq x"
    if x: "x \<in> set (side_orders (sp_add cmp p (new_aorder oid q) ls))" and "ao_id x = oid" for x
  proof -
    have "x = new_aorder oid q"
      using that assms unfolding side_orders_add side_ids_orders by auto
    then show ?thesis by (simp add: ice_def order_liq_def new_aorder_def)
  qed
  then have "liquidity (sp_update oid (ice d) (sp_add cmp p (new_aorder oid q) ls)) =
      liquidity (sp_add cmp p (new_aorder oid q) ls)" by (intro liquidity_update) blast
  then show ?thesis by (simp add: liquidity_add order_liq_def new_aorder_def)
qed

definition limit_view :: "side \<Rightarrow> price_t \<Rightarrow> qty_t \<Rightarrow> qty_t \<Rightarrow> order_book \<Rightarrow> side \<Rightarrow> aside" where
  "limit_view s px q d b =
     (let v = (book_view b)(s := sp_add (side_cmp s) px (new_aorder (next_order_id b) q) (book_view b s))
      in if d = 0 then v else (\<lambda>t. sp_update (next_order_id b) (ice (unat d)) (v t)))"

lemma submit_limit_full:
  assumes "engine_rel E R e" and "pool_full (book e)"
  shows "submit_limit s px q d e = (0, e)"
proof -
  from engine_relD(1) [OF assms(1)] obtain L where rel: "book_rel L E (book e)"
    by (auto simp: book_inv_iff)
  have ids: "ids_rel (mem (book e)) (id_slots (book e)) (next_order_id (book e)) (live L E)"
    using rel by (simp add: book_rel_def)
  have "find_id 0 (book e) = None"
  proof (rule ccontr)
    assume "find_id 0 (book e) \<noteq> None"
    then obtain a where "find_id 0 (book e) = Some a" by blast
    from find_id_live [OF rel this] ids_relD(2) [OF ids, of a] show False by simp
  qed
  then have "configure_iceberg 0 d (book e) = (False, book e)" by (simp add: configure_iceberg_unknown)
  then show ?thesis using add_limit_full [OF assms(2)] by (simp add: submit_limit_def)
qed

lemma submit_limit_ok:
  assumes inv: "engine_rel E R e" and space: "\<not> pool_full (book e)"
    and room: "book_liq (book e) + 2 * stop_qty E (book e) + 2 * unat q < 2 ^ 63"
  obtains e' where "submit_limit s px q d e = (next_order_id (book e), e')"
    and "engine_rel E R e'" and "queued e' = queued e" and "pending_stops e' = pending_stops e"
    and "book_view (book e') = limit_view s px q d (book e)"
    and "book_liq (book e') = book_liq (book e) + unat q"
    and "next_order_id (book e') = next_order_id (book e) + 1" and "book_frame E (book e) (book e')"
proof -
  note goal = that
  define b where "b = book e"
  define n where "n = next_order_id b"
  from engine_relD(1) [OF inv] obtain L where rel: "book_rel L E b"
    by (auto simp: book_inv_iff b_def)
  have lev: "level_liq px (book_view b s) \<le> book_liq b"
    using level_liq_le [of px "book_view b s"] liquidity_le_book [of b s] by linarith
  have "level_liq px (book_view b s) + unat q < 2 ^ 64" using room lev by (simp add: b_def)
  then obtain b1 c where add: "add_limit_order s px q b = (n, b1)" "book_inv E b1"
    "book_view b1 = (book_view b)(s := sp_add (side_cmp s) px (new_aorder n q) (book_view b s))"
    "next_order_id b1 = n + 1" "book_frame E b b1"
    and c: "find_id n b1 = Some c" "c \<notin> set E" "price (mem b1 c) = px"
      "oside (mem b1 c) = side_code s" "qty (mem b1 c) = q"
    using add_limit_found [OF rel] space unfolding n_def b_def by metis
  have new: "n \<notin> set (side_ids (book_view b t))" for t
  proof
    assume n: "n \<in> set (side_ids (book_view b t))"
    then obtain x where "x \<in> set (concat (L t))" "order_id (mem b x) = n"
      by (auto simp: book_view_ids [OF rel])
    with ids_relD(3) [of "mem b" "id_slots b" n "live L E" x] rel show False
      by (simp add: book_rel_def n_def)
  qed
  have liq1: "book_liq b1 = book_liq b + unat q"
    unfolding book_liq_side [of _ s] add(3) by (simp add: liquidity_add order_liq_def new_aorder_def)
  have result: thesis if "submit_limit s px q d e = (n, e\<lparr>book := b2\<rparr>)" "book_inv E b2"
    "book_view b2 = limit_view s px q d b" "book_liq b2 = book_liq b + unat q"
    "next_order_id b2 = n + 1" "book_frame E b b2" for b2
  proof -
    have "stop_qty E b2 = stop_qty E b" using that(6) by (rule stop_qty_frame)
    then have "engine_rel E R (e\<lparr>book := b2\<rparr>)"
      using inv that room by (simp add: engine_rel_def book_frame_def b_def)
    then show thesis
      using that unfolding b_def n_def
      by (intro goal [of "e\<lparr>book := b2\<rparr>"]) (simp_all add: queued_def book_frame_def)
  qed
  show thesis
  proof (cases "d = 0")
    case True
    then show thesis
      using add liq1 by (intro result [of b1]) (simp_all add: submit_limit_def b_def limit_view_def n_def)
  next
    case False
    from add(2) obtain L1 where rel1: "book_rel L1 E b1" by (auto simp: book_inv_iff)
    have "level_liq px (book_view b1 s) \<le> book_liq b1"
      using level_liq_le [of px "book_view b1 s"] liquidity_le_book [of b1 s] by linarith
    then have "level_liq (price (mem b1 c)) (book_view b1 (side_of_code (oside (mem b1 c)))) +
        unat (qty (mem b1 c)) < 2 ^ 63" using room liq1 c by (simp add: b_def)
    from configure_iceberg_spec [OF rel1 c(1,2) False this] obtain b2 where
      ice: "configure_iceberg n d b1 = (True, b2)" "book_inv E b2"
      "book_view b2 = (\<lambda>t. sp_update n (ice (unat d)) (book_view b1 t))"
      "next_order_id b2 = next_order_id b1" "book_frame E b1 b2" by metis
    have view: "book_view b2 = limit_view s px q d b"
      using False by (simp add: ice(3) add(3) limit_view_def n_def Let_def)
    have "liquidity (book_view b2 s) = liquidity (book_view b s) + unat q"
      using new by (simp add: ice(3) add(3) liquidity_ice)
    moreover have "liquidity (book_view b2 (opposite s)) = liquidity (book_view b (opposite s))"
      using new by (simp add: ice(3) add(3) sp_update_absent)
    ultimately have "book_liq b2 = book_liq b + unat q" by (simp add: book_liq_side [of _ s])
    moreover have "book_frame E b b2" using add(5) ice(5) by (rule book_frame_trans)
    ultimately show thesis
      using add(1,4) ice False view
      by (intro result [of b2]) (simp_all add: submit_limit_def b_def word_gt_0)
  qed
qed

text \<open>
  A stop is registered twice: in the book's list and in the engine's. Both hold the same
  address, so the queue of \<open>process_triggers\<close> has it twice.
\<close>

lemma submit_stop_ok:
  assumes inv: "engine_inv E e" and space: "\<not> pool_full (book e)"
    and k: "k \<noteq> NoStop"
    and room: "book_liq (book e) + 2 * stop_qty E (book e) + 2 * unat q < 2 ^ 63"
  obtains a e' where "submit_stop s stop_px q k px d e = (next_order_id (book e), e')"
    and "engine_inv (a # E) e'" and "book_view (book e') = book_view (book e)"
    and "pending_stops e' = pending_stops e @ [a]"
    and "pending_stop_storage (book e') = pending_stop_storage (book e) @ [a]"
    and "mem (book e') a = stop_order (next_order_id (book e)) s stop_px q (stop_code k) px d"
proof -
  from engine_relD(1) [OF inv] obtain L where rel: "book_rel L E (book e)"
    by (auto simp: book_inv_iff)
  obtain a b where add: "add_pending_stop s stop_px q (stop_code k) px d (book e) =
      (next_order_id (book e), b)" "a \<notin> live L E" "book_rel L (a # E) b"
    "book_view b = book_view (book e)"
    "mem b = (mem (book e))(a := stop_order (next_order_id (book e)) s stop_px q (stop_code k) px d)"
    "pending_stop_storage b = pending_stop_storage (book e) @ [a]"
    "mode (pool b) = mode (pool (book e))"
    by (rule add_pending_ok [OF rel space]) blast
  define e' where "e' = \<lparr>book = b, pending_stops = pending_stops e @ [a]\<rparr>"
  have ids: "ids_rel (mem b) (id_slots b) (next_order_id b) (live L (a # E))"
    using add(3) by (simp add: book_rel_def)
  have oid: "order_id (mem b a) = next_order_id (book e)" by (simp add: add(5) stop_order_def)
  have "a \<in> live L (a # E)" by (simp add: live_def)
  then have found: "find_id (next_order_id (book e)) b = Some a" and pos: "0 < next_order_id (book e)"
    using ids_relD(1,2) [OF ids, of a] oid ids_relD(1) [OF ids, of "next_order_id (book e)" a]
    by (auto simp: find_id_slot)
  have "a \<notin> set E" using add(2) by (simp add: live_def)
  then have old: "mem b x = mem (book e) x" if "x \<in> set E" for x using that by (auto simp: add(5))
  have "stop_qty E b = stop_qty E (book e)"
    using old unfolding stop_qty_def by (intro arg_cong [where f = sum_list] map_cong) auto
  then have sq: "stop_qty (a # E) b = stop_qty E (book e) + unat q"
    by (simp add: stop_qty_def add(5) stop_order_def)
  have code: "stop_code k = stop_code StopMarket \<or> stop_code k = stop_code StopLimit"
    using k by (cases k) simp_all
  have st: "stop_type (mem b a) = stop_code k" by (simp add: add(5) stop_order_def)
  have "engine_inv (a # E) e'"
    unfolding engine_rel_def e'_def
    using book_relI [OF add(3)] inv room old code
    by (auto simp: engine_rel_def add(4,6,7) book_liq_def sq st)
  moreover have "submit_stop s stop_px q k px d e = (next_order_id (book e), e')"
    using add(1) found pos by (simp add: submit_stop_def get_order_def e'_def)
  ultimately show thesis using add(4,5,6) by (intro that [of e' a]) (simp_all add: e'_def)
qed

subsection \<open>Policies\<close>

locale matching_policy =
  fixes mtch :: matcher
  assumes match_ok: "book_inv E b \<Longrightarrow> book_liq b < 2 ^ 63 \<Longrightarrow>
    \<exists>gs b'. mtch s q b = Some (gs, b') \<and> book_inv E b' \<and> book_frame E b b' \<and>
      book_liq b' + fills_total gs = book_liq b \<and> fills_total gs \<le> unat q"
begin

text \<open>
  What the trigger loop needs: from a well-formed engine with \<open>k\<close> pending stops and at
  most \<open>T\<close> entries in its queue and lists, the fuel \<open>k * (T + 1) + length queue + 1\<close> is
  enough. A round that executes a stop spends one of the \<open>k\<close>, and the nested run starts
  over on at most \<open>T\<close> entries; any other round shortens the queue.
\<close>

definition enough :: "nat \<Rightarrow> addr list \<Rightarrow> nat \<Rightarrow> nat \<Rightarrow> bool" where
  "enough T E len n \<longleftrightarrow> length E * Suc T + len < n"

lemma market_ok:
  assumes inv: "engine_rel E R e"
    and proc: "\<And>px e1. engine_rel E R e1 \<Longrightarrow> queued e1 = queued e \<Longrightarrow> \<exists>e2 E2. proc px e1 = Some e2 \<and>
      engine_rel E2 R e2 \<and> set E2 \<subseteq> set E \<and> length E2 \<le> length E \<and> queued e2 \<le> queued e"
  shows "\<exists>gs e2 E2. market_with mtch proc s q e = Some (gs, e2) \<and> engine_rel E2 R e2 \<and>
    set E2 \<subseteq> set E \<and> length E2 \<le> length E \<and> queued e2 \<le> queued e \<and> fills_total gs \<le> unat q"
proof -
  have "book_liq (book e) < 2 ^ 63" using engine_relD(3) [OF inv] by simp
  from match_ok [OF engine_relD(1) [OF inv] this, of s q] obtain gs b where
    m: "mtch s q (book e) = Some (gs, b)" "book_inv E b" "book_frame E (book e) b"
      "book_liq b + fills_total gs = book_liq (book e)" "fills_total gs \<le> unat q" by blast
  have "book_liq b \<le> book_liq (book e)" using m(4) by simp
  note r = engine_rel_book [OF inv m(2,3) this]
  show ?thesis
  proof (cases "gs = []")
    case True
    then have "market_with mtch proc s q e = Some (gs, e\<lparr>book := b\<rparr>)"
      using m(1) by (simp add: market_with_def)
    with r m(5) show ?thesis by (metis order_refl)
  next
    case False
    from proc [OF r] obtain e2 E2 where
      p: "proc (fill_price (last gs)) (e\<lparr>book := b\<rparr>) = Some e2" "engine_rel E2 R e2"
      "set E2 \<subseteq> set E" "length E2 \<le> length E" "queued e2 \<le> queued e" by blast
    then have "market_with mtch proc s q e = Some (gs, e2)"
      using m(1) False by (simp add: market_with_def)
    with p m(5) show ?thesis by blast
  qed
qed

text \<open>One round: an address of the queue is looked at, whatever it has become since.\<close>

lemma pop_ok:
  assumes inv: "engine_rel E (insert a R) e" and T: "Suc (queued e) \<le> T"
    and proc: "\<And>px e1 E1. engine_rel E1 R e1 \<Longrightarrow> set E1 \<subseteq> set E \<Longrightarrow> length E1 < length E \<Longrightarrow>
      queued e1 \<le> queued e \<Longrightarrow> \<exists>e2 E2. proc px e1 = Some e2 \<and>
      engine_rel E2 R e2 \<and> set E2 \<subseteq> set E1 \<and> length E2 \<le> length E1 \<and> queued e2 \<le> queued e1"
  shows "\<exists>e2 E2. pop_stop mtch proc px a e = Some e2 \<and> engine_rel E2 R e2 \<and>
    set E2 \<subseteq> set E \<and> length E2 \<le> length E \<and> queued e2 \<le> Suc (queued e)"
proof -
  from engine_relD(1) [OF inv] obtain L where rel: "book_rel L E (book e)"
    by (auto simp: book_inv_iff)
  let ?x = "mem (book e) a"
  define e_wait where "e_wait = e\<lparr>pending_stops := pending_stops e @ [a]\<rparr>"
  have wait: "engine_rel E R e_wait" "queued e_wait = Suc (queued e)"
    using inv by (auto simp: engine_rel_def e_wait_def queued_def)
  show ?thesis
  proof (cases "a \<in> set E")
    case False
    have skip: "engine_rel E R e" using inv False by (auto simp: engine_rel_def)
    show ?thesis
    proof (cases "a \<in> live L E")
      case True
      then obtain s where "a \<in> set (concat (L s))" using False by (rule in_liveE)
      with rel obtain us nd vs xs p q ys where node: "node_rel s (mem (book e)) nd (p @ a # q)"
        by (rule book_rel_locate)
      have "stop_type ?x = 0" using node_rel_member(3) [OF node, of a] by simp
      then have "pop_stop mtch proc px a e = Some e"
        using stop_code_neq(1,2) by (simp add: pop_stop_def)
      with skip show ?thesis by (metis le_Suc_eq order_refl)
    next
      case stale: False
      have "pop_stop mtch proc px a e \<in> {Some e, Some e_wait}"
        using detach_unknown [OF rel stale] by (simp add: pop_stop_def e_wait_def Let_def)
      with skip wait show ?thesis by (metis insertE singletonD le_Suc_eq order_refl)
    qed
  next
    case True
    then have st: "stop_type ?x = stop_code StopMarket \<or> stop_type ?x = stop_code StopLimit"
      by (rule engine_relD(5) [OF inv])
    show ?thesis
    proof (cases "is_triggered px ?x")
      case False
      then have "pop_stop mtch proc px a e = Some e_wait"
        using st by (auto simp: pop_stop_def e_wait_def Let_def)
      with wait show ?thesis by (metis order_refl)
    next
      case fire: True
      define e1 where "e1 = (\<lambda>b1. e\<lparr>book := free_order (Some a) b1\<rparr>)"
      obtain b1 where d: "detach_pending (order_id ?x) (book e) = (Some a, b1)"
        "mem b1 = mem (book e)" "\<not> pool_full (book (e1 b1))" "engine_rel (remove1 a E) R (e1 b1)"
        "queued (e1 b1) \<le> queued e" "book_liq (book (e1 b1)) +
          2 * stop_qty (remove1 a E) (book (e1 b1)) + 2 * unat (qty ?x) < 2 ^ 63"
        by (rule engine_detach [OF inv True]) (simp add: e1_def)
      have sub: "set (remove1 a E) \<subseteq> set E" by (rule set_remove1_subset)
      have len: "length (remove1 a E) < length E"
        using True by (simp add: length_remove1) (metis Suc_pred length_pos_if_in_set lessI)
      let ?s = "side_of_code (oside ?x)"
      show ?thesis
      proof (cases "stop_type ?x = stop_code StopMarket")
        case True
        have "\<exists>gs e2 E2. market_with mtch proc ?s (qty ?x) (e1 b1) = Some (gs, e2) \<and>
            engine_rel E2 R e2 \<and> set E2 \<subseteq> set (remove1 a E) \<and>
            length E2 \<le> length (remove1 a E) \<and> queued e2 \<le> queued (e1 b1) \<and>
            fills_total gs \<le> unat (qty ?x)"
        proof (rule market_ok [OF d(4)])
          fix px1 e3 assume "engine_rel (remove1 a E) R e3" "queued e3 = queued (e1 b1)"
          with proc [of "remove1 a E" e3 px1] sub len d(5)
          show "\<exists>e2 E2. proc px1 e3 = Some e2 \<and> engine_rel E2 R e2 \<and>
              set E2 \<subseteq> set (remove1 a E) \<and> length E2 \<le> length (remove1 a E) \<and>
              queued e2 \<le> queued (e1 b1)" by metis
        qed
        then obtain gs e2 E2 where m: "market_with mtch proc ?s (qty ?x) (e1 b1) = Some (gs, e2)"
          "engine_rel E2 R e2" "set E2 \<subseteq> set (remove1 a E)" "length E2 \<le> length (remove1 a E)"
          "queued e2 \<le> queued (e1 b1)" by blast
        have "pop_stop mtch proc px a e = Some e2"
          using True fire d(1,2) m(1) by (simp add: pop_stop_def e1_def)
        moreover have "set E2 \<subseteq> set E" using m(3) sub by blast
        moreover have "length E2 \<le> length E" "queued e2 \<le> Suc (queued e)"
          using m(4,5) len d(5) by simp_all
        ultimately show ?thesis using m(2) by blast
      next
        case False
        with st have lim: "stop_type ?x = stop_code StopLimit" by simp
        obtain e2 where m: "submit_limit ?s (price ?x) (qty ?x) (display_qty ?x) (e1 b1) =
            (next_order_id (book (e1 b1)), e2)" "engine_rel (remove1 a E) R e2"
          "queued e2 = queued (e1 b1)"
          by (rule submit_limit_ok [OF d(4,3,6)]) blast
        have "pop_stop mtch proc px a e = Some e2"
          using lim fire d(1,2) m(1) by (simp add: pop_stop_def e1_def)
        moreover have "length (remove1 a E) \<le> length E" "queued e2 \<le> Suc (queued e)"
          using m(3) len d(5) by simp_all
        ultimately show ?thesis using m(2) sub by blast
      qed
    qed
  qed
qed

lemma run_ok:
  assumes "engine_rel E (set Q \<union> R) e" and "length Q + queued e \<le> T" and "enough T E (length Q) n"
  shows "\<exists>e2 E2. run_triggers n mtch px Q e = Some e2 \<and> engine_rel E2 R e2 \<and>
    set E2 \<subseteq> set E \<and> length E2 \<le> length E \<and> queued e2 \<le> length Q + queued e"
  using assms
proof (induction n arbitrary: E Q R e px)
  case 0
  then show ?case by (simp add: enough_def)
next
  case (Suc n)
  let ?proc = "\<lambda>px e1. let (q1, e2) = gather_stops e1 in run_triggers n mtch px q1 e2"
  show ?case
  proof (cases Q)
    case Nil
    with Suc.prems show ?thesis by (intro exI [of _ e] exI [of _ E]) simp
  next
    case (Cons a Q')
    have inv: "engine_rel E (insert a (set Q' \<union> R)) e" using Suc.prems(1) by (simp add: Cons)
    have T: "Suc (queued e) \<le> T" using Suc.prems(2) by (simp add: Cons)
    have "\<exists>e2 E2. pop_stop mtch ?proc px a e = Some e2 \<and> engine_rel E2 (set Q' \<union> R) e2 \<and>
        set E2 \<subseteq> set E \<and> length E2 \<le> length E \<and> queued e2 \<le> Suc (queued e)"
    proof (rule pop_ok [OF inv T])
      fix px1 e1 E1
      assume e1: "engine_rel E1 (set Q' \<union> R) e1" "length E1 < length E" "queued e1 \<le> queued e"
      obtain q1 e2 where g: "gather_stops e1 = (q1, e2)" by (cases "gather_stops e1")
      note ga = gather_rel [OF e1(1) g]
      have q1T: "length q1 + queued e2 \<le> T" using ga(2,3) e1(3) T by simp
      have "length E1 * Suc T + Suc T \<le> length E * Suc T"
        using e1(2) by (metis Suc_leI add.commute mult_Suc mult_le_mono1)
      then have "enough T E1 (length q1) n"
        using Suc.prems(3) q1T unfolding enough_def by simp
      from Suc.IH [OF ga(1) q1T this, of px1] ga(2,3)
      show "\<exists>e2 E2. ?proc px1 e1 = Some e2 \<and> engine_rel E2 (set Q' \<union> R) e2 \<and>
          set E2 \<subseteq> set E1 \<and> length E2 \<le> length E1 \<and> queued e2 \<le> queued e1"
        by (simp add: g)
    qed
    then obtain e1 E1 where p: "pop_stop mtch ?proc px a e = Some e1"
      "engine_rel E1 (set Q' \<union> R) e1" "set E1 \<subseteq> set E" "length E1 \<le> length E"
      "queued e1 \<le> Suc (queued e)" by blast
    have T1: "length Q' + queued e1 \<le> T" using Suc.prems(2) p(5) by (simp add: Cons)
    have "enough T E1 (length Q') n"
      using Suc.prems(3) mult_le_mono1 [OF p(4), of "Suc T"] by (simp add: enough_def Cons)
    from Suc.IH [OF p(2) T1 this, of px] obtain e2 E2 where r:
      "run_triggers n mtch px Q' e1 = Some e2" "engine_rel E2 R e2" "set E2 \<subseteq> set E1"
      "length E2 \<le> length E1" "queued e2 \<le> length Q' + queued e1" by blast
    have "run_triggers (Suc n) mtch px Q e = Some e2" using p(1) r(1) by (simp add: Cons)
    moreover have "set E2 \<subseteq> set E" using r(3) p(3) by blast
    moreover have "length E2 \<le> length E" "queued e2 \<le> length Q + queued e"
      using r(4,5) p(4,5) by (simp_all add: Cons)
    ultimately show ?thesis using r(2) by blast
  qed
qed

text \<open>Submitting a market order: it returns, keeps the engine well formed, and adds no stop.\<close>

lemma submit_market_ok:
  assumes inv: "engine_inv E e" and n: "Suc (length E) * Suc (queued e) \<le> n"
  shows "\<exists>gs e2 E2. submit_market n mtch s q e = Some (gs, e2) \<and> engine_inv E2 e2 \<and>
    set E2 \<subseteq> set E \<and> fills_total gs \<le> unat q"
proof -
  have "\<exists>gs e2 E2. market_with mtch (process_triggers n mtch) s q e = Some (gs, e2) \<and>
      engine_rel E2 {} e2 \<and> set E2 \<subseteq> set E \<and> length E2 \<le> length E \<and> queued e2 \<le> queued e \<and>
      fills_total gs \<le> unat q"
  proof (rule market_ok [OF inv])
    fix px e1 assume e1: "engine_rel E {} e1" "queued e1 = queued e"
    obtain q1 e2 where g: "gather_stops e1 = (q1, e2)" by (cases "gather_stops e1")
    note ga = gather_rel [OF e1(1) g]
    have q1T: "length q1 + queued e2 \<le> queued e" using ga(2,3) e1(2) by simp
    have "enough (queued e) E (length q1) n" using n ga(2) e1(2) by (simp add: enough_def)
    from run_ok [OF ga(1) q1T this, of px] ga(2,3) e1(2)
    show "\<exists>e3 E3. process_triggers n mtch px e1 = Some e3 \<and> engine_rel E3 {} e3 \<and>
        set E3 \<subseteq> set E \<and> length E3 \<le> length E \<and> queued e3 \<le> queued e"
      by (simp add: process_triggers_def g)
  qed
  then show ?thesis unfolding submit_market_def by blast
qed

end

subsection \<open>Price-time priority is such a policy\<close>

lemma fills_total_filled: "fills_total gs = filled (map abs_fill gs)"
  by (simp add: fills_total_def filled_def abs_fill_def comp_def)

lemma fifo_match_ok:
  assumes "book_inv E b"
  shows "\<exists>gs b'. fifo_match s q b = Some (gs, b') \<and> book_inv E b' \<and> book_frame E b b' \<and>
    book_liq b' + fills_total gs = book_liq b \<and> fills_total gs \<le> unat q"
proof -
  obtain fs r where sp: "sp_match (unat q) (book_view b (opposite s)) = (fs, r)"
    by (cases "sp_match (unat q) (book_view b (opposite s))")
  obtain gs b' where m: "market_order s q b = Some (gs, b')" "map abs_fill gs = fs"
    "book_inv E b'" "book_view b' = (book_view b)(opposite s := r)" "book_frame E b b'"
    by (rule market_order_spec [OF assms sp])
  note f = sp_match_filled [OF sp book_inv_view(1) [OF assms]]
  have "fills_total gs = filled fs" by (simp add: fills_total_filled m(2))
  then show ?thesis
    using m f(1,2) by (simp add: fifo_match_def book_liq_side [of _ s])
qed

interpretation fifo: matching_policy fifo_match
  by unfold_locales (rule fifo_match_ok)

end
