(* ===== verification/Pro_Rata.thy ===== *)
theory Pro_Rata
  imports Engine_Invariant
begin

section \<open>Pro-rata matching\<close>

text \<open>
  First the arithmetic of the allocation: it never hands out more than the incoming
  quantity, and without overflow of the products it hands out all of it when the level is
  large enough, no order getting more than it shows. Then the fills that apply it to the
  book, which make \<open>pro_rata_match\<close> a policy for the engine.
\<close>

subsection \<open>Sums and leftovers\<close>

lemma sum_u64_acc:
  "unat acc + sum_list (map unat xs) < 2 ^ 64 \<Longrightarrow>
   unat (fold (\<lambda>x acc. acc + x) xs (acc :: u64)) = unat acc + sum_list (map unat xs)"
proof (induction xs arbitrary: acc)
  case (Cons x xs)
  then have "unat (acc + x) = unat acc + unat x" by (intro unat_add_less) simp
  with Cons.IH [of "acc + x"] Cons.prems show ?case by simp
qed simp

lemma sum_u64_unat:
  "sum_list (map unat xs) < 2 ^ 64 \<Longrightarrow> unat (sum_u64 xs) = sum_list (map unat xs)"
  using sum_u64_acc [of 0 xs] by (simp add: sum_u64_def)

lemma add_leftover_length [simp]: "length (add_leftover picks al) = length al"
  unfolding add_leftover_def by (induction picks arbitrary: al) simp_all

lemma add_leftover_nth:
  "distinct picks \<Longrightarrow> set picks \<subseteq> {..<length al} \<Longrightarrow> i < length al \<Longrightarrow>
   add_leftover picks al ! i = (if i \<in> set picks then al ! i + 1 else al ! i)"
proof (induction picks arbitrary: al)
  case (Cons j picks)
  have "add_leftover (j # picks) al = add_leftover picks (al[j := al ! j + 1])"
    by (simp add: add_leftover_def)
  with Cons show ?case by (auto simp: nth_list_update)
qed (simp add: add_leftover_def)

lemma sum_floor_le: "sum_list (map (\<lambda>x. x div t) xs) \<le> sum_list xs div (t :: nat)"
proof (induction xs)
  case (Cons x xs)
  have "x div t + sum_list xs div t \<le> (x + sum_list xs) div t" by (simp add: div_add1_eq [of x])
  with Cons show ?case by simp
qed simp

lemma sum_div_mod:
  "sum_list xs = (t :: nat) * sum_list (map (\<lambda>x. x div t) xs) + sum_list (map (\<lambda>x. x mod t) xs)"
  by (induction xs) (simp_all add: algebra_simps)

lemma sum_list_nth: "sum_list xs = (\<Sum>i < length xs. xs ! i)"
  by (simp add: sum_list_sum_nth atLeast0LessThan)

subsection \<open>The shares and the picks\<close>

text \<open>The parts of \<open>pro_rata_alloc\<close>, named: the floor shares and who gets a unit on top.\<close>

definition pro_shares :: "qty_t \<Rightarrow> qty_t list \<Rightarrow> qty_t list" where
  "pro_shares q szs = map (\<lambda>sz. (sz * q) div sum_u64 szs) szs"

definition pro_left :: "qty_t \<Rightarrow> qty_t list \<Rightarrow> nat" where
  "pro_left q szs = unat (if q > sum_u64 (pro_shares q szs) then q - sum_u64 (pro_shares q szs) else 0)"

definition pro_rank :: "qty_t \<Rightarrow> qty_t list \<Rightarrow> order_id_t list \<Rightarrow> nat list" where
  "pro_rank q szs ids =
     (let rems = map (\<lambda>sz. (sz * q) mod sum_u64 szs) szs
      in sort_key (\<lambda>i. Pro_Key (rems ! i) (ids ! i)) [0..<length szs])"

definition pro_picks :: "qty_t \<Rightarrow> qty_t list \<Rightarrow> order_id_t list \<Rightarrow> nat list" where
  "pro_picks q szs ids = take (pro_left q szs) (pro_rank q szs ids)"

lemma pro_rata_alloc_parts:
  "pro_rata_alloc m q szs ids =
     map (\<lambda>x. if x < m then 0 else x) (add_leftover (pro_picks q szs ids) (pro_shares q szs))"
  by (simp add: pro_rata_alloc_def pro_picks_def pro_rank_def pro_left_def pro_shares_def Let_def)

lemma pro_rank_perm:
  "distinct (pro_rank q szs ids)" "set (pro_rank q szs ids) = {..<length szs}"
  "length (pro_rank q szs ids) = length szs"
  by (auto simp: pro_rank_def Let_def)

lemma pro_picks_perm:
  "distinct (pro_picks q szs ids)" "set (pro_picks q szs ids) \<subseteq> {..<length szs}"
  "length (pro_picks q szs ids) = min (length szs) (pro_left q szs)"
  using pro_rank_perm [of q szs ids] set_take_subset [of "pro_left q szs" "pro_rank q szs ids"]
  by (simp_all add: pro_picks_def)

lemma pro_shares_length [simp]: "length (pro_shares q szs) = length szs"
  by (simp add: pro_shares_def)

lemma share_unat:
  assumes "sum_list (map unat szs) < 2 ^ 64"
  shows "map unat (pro_shares q szs) =
    map (\<lambda>s. (s * unat q mod 2 ^ 64) div sum_list (map unat szs)) (map unat szs)"
  using assms by (simp add: pro_shares_def unat_div unat_word_ariths sum_u64_unat comp_def)

lemma pro_shares_sum:
  assumes "sum_list (map unat szs) < 2 ^ 64"
  shows "sum_list (map unat (pro_shares q szs)) \<le> unat q"
proof -
  let ?t = "sum_list (map unat szs)" and ?q = "unat q"
  have "sum_list (map unat (pro_shares q szs)) \<le>
      sum_list (map (\<lambda>s. (s * ?q) div ?t) (map unat szs))"
    unfolding share_unat [OF assms] by (intro sum_list_mono div_le_mono) simp
  also have "\<dots> = sum_list (map (\<lambda>x. x div ?t) (map (\<lambda>s. s * ?q) (map unat szs)))"
    by (simp add: comp_def)
  also have "\<dots> \<le> sum_list (map (\<lambda>s. s * ?q) (map unat szs)) div ?t" by (rule sum_floor_le)
  also have "\<dots> = (?t * ?q) div ?t" by (simp add: sum_list_mult_const comp_def)
  also have "\<dots> \<le> ?q" by simp
  finally show ?thesis .
qed

lemma pro_left_unat:
  assumes "sum_list (map unat szs) < 2 ^ 64"
  shows "pro_left q szs + sum_list (map unat (pro_shares q szs)) = unat q"
proof -
  note le = pro_shares_sum [OF assms, of q]
  then have "unat (sum_u64 (pro_shares q szs)) = sum_list (map unat (pro_shares q szs))"
    using unat_less_64 [of q] by (intro sum_u64_unat) simp
  with le show ?thesis by (simp add: pro_left_def unat_excess)
qed

lemma pro_share_less:
  assumes "sum_list (map unat szs) < 2 ^ 64" and "i < length szs" and "0 < pro_left q szs"
  shows "unat (pro_shares q szs ! i) < unat q"
proof -
  have "unat (pro_shares q szs ! i) \<le> sum_list (map unat (pro_shares q szs))"
    using assms(2) by (intro member_le_sum_list) simp_all
  then show ?thesis using pro_left_unat [OF assms(1), of q] assms(3) by linarith
qed

text \<open>The allocation before the minimum is enforced, as naturals.\<close>

definition pro_units :: "qty_t \<Rightarrow> qty_t list \<Rightarrow> order_id_t list \<Rightarrow> nat list" where
  "pro_units q szs ids =
     map (\<lambda>i. unat (pro_shares q szs ! i) + (if i \<in> set (pro_picks q szs ids) then 1 else 0))
       [0..<length szs]"

lemma alloc_unat:
  assumes "sum_list (map unat szs) < 2 ^ 64"
  shows "map unat (pro_rata_alloc m q szs ids) =
    map (\<lambda>x. if x < unat m then 0 else x) (pro_units q szs ids)"
proof (intro nth_equalityI)
  fix i assume "i < length (map unat (pro_rata_alloc m q szs ids))"
  then have i: "i < length szs" by (simp add: pro_rata_alloc_parts)
  have "unat (pro_shares q szs ! i + 1) = unat (pro_shares q szs ! i) + 1"
    if "i \<in> set (pro_picks q szs ids)"
  proof -
    have "0 < pro_left q szs"
      using that by (cases "pro_left q szs") (simp_all add: pro_picks_def)
    from pro_share_less [OF assms i this] unat_less_64 [of q] show ?thesis
      by (subst unat_add_less) simp_all
  qed
  then have "unat (add_leftover (pro_picks q szs ids) (pro_shares q szs) ! i) = pro_units q szs ids ! i"
    using i pro_picks_perm by (simp add: add_leftover_nth pro_units_def)
  then show "map unat (pro_rata_alloc m q szs ids) ! i =
      map (\<lambda>x. if x < unat m then 0 else x) (pro_units q szs ids) ! i"
    using i by (simp add: pro_rata_alloc_parts word_less_nat_alt pro_units_def)
qed (simp_all add: pro_rata_alloc_parts pro_units_def)

lemma pro_units_sum:
  "sum_list (pro_units q szs ids) =
   sum_list (map unat (pro_shares q szs)) + length (pro_picks q szs ids)"
proof -
  have "(\<Sum>i < length szs. if i \<in> set (pro_picks q szs ids) then 1 else 0) =
      card (set (pro_picks q szs ids))"
    using pro_picks_perm(2) [of q szs ids] by (simp add: sum.If_cases Int_absorb1)
  also have "\<dots> = length (pro_picks q szs ids)" using pro_picks_perm(1) by (rule distinct_card)
  finally show ?thesis
    by (simp add: sum_list_nth pro_units_def sum.distrib)
qed

text \<open>Never more than the incoming quantity, whatever overflows.\<close>

lemma alloc_sum_le:
  assumes "sum_list (map unat szs) < 2 ^ 64"
  shows "sum_list (map unat (pro_rata_alloc m q szs ids)) \<le> unat q"
proof -
  have "sum_list (map (\<lambda>x. if x < unat m then 0 else x) (pro_units q szs ids)) \<le>
      sum_list (map (\<lambda>x. x) (pro_units q szs ids))" by (intro sum_list_mono) simp
  also have "\<dots> = sum_list (map unat (pro_shares q szs)) + length (pro_picks q szs ids)"
    by (simp add: pro_units_sum)
  also have "\<dots> \<le> unat q"
    using pro_left_unat [OF assms, of q] pro_picks_perm(3) [of q szs ids] by simp
  finally show ?thesis unfolding alloc_unat [OF assms] .
qed

subsection \<open>Exactness without overflow\<close>

lemma sum_list_le_const: "\<forall>x \<in> set xs. x \<le> c \<Longrightarrow> sum_list xs \<le> length xs * (c :: nat)"
  by (induction xs) auto

text \<open>
  The remainders add up to \<open>t\<close> times the leftover, so among the \<open>l\<close> largest of them none
  is zero: otherwise all others would be, and the rest too small.
\<close>

lemma top_positive:
  fixes r :: "nat \<Rightarrow> nat"
  assumes desc: "\<And>a c. a \<le> c \<Longrightarrow> c < length xs \<Longrightarrow> r (xs ! c) \<le> r (xs ! a)"
    and bound: "\<forall>x \<in> set xs. r x < t" and sum: "sum_list (map r xs) = t * l" and t: "0 < t"
  shows "l \<le> length xs" and "j \<in> set (take l xs) \<Longrightarrow> 0 < r j"
proof -
  have le: "sum_list (map r ys) \<le> length ys * (t - 1)" if "set ys \<subseteq> set xs" for ys
  proof -
    have "\<forall>x \<in> set (map r ys). x \<le> t - 1" using bound that by fastforce
    from sum_list_le_const [OF this] show ?thesis by simp
  qed
  have "t * l \<le> length xs * (t - 1)" using le [of xs] sum by simp
  also have "\<dots> \<le> t * length xs" by (simp add: diff_mult_distrib2 mult.commute)
  finally show "l \<le> length xs" using t by simp
  assume "j \<in> set (take l xs)"
  then obtain k where k: "k < l" "k < length xs" "xs ! k = j" by (auto simp: in_set_conv_nth)
  show "0 < r j"
  proof (rule ccontr)
    assume "\<not> 0 < r j"
    then have "\<forall>x \<in> set (drop k xs). r x = 0"
      using desc [of k] k by (auto simp: in_set_conv_nth)
    then have "sum_list (map r (drop k xs)) = 0" by (simp add: sum_list_eq_0_iff)
    moreover have "sum_list (map r xs) = sum_list (map r (take k xs)) + sum_list (map r (drop k xs))"
      by (metis append_take_drop_id map_append sum_list_append)
    ultimately have "t * l = sum_list (map r (take k xs))" using sum by simp
    also have "\<dots> \<le> k * (t - 1)" using le [of "take k xs"] k by (simp add: set_take_subset min_def)
    also have "\<dots> \<le> k * t" by simp
    also have "\<dots> < l * t" using k t by simp
    finally show False by simp
  qed
qed

lemma key_le_rem: "x \<le> y \<Longrightarrow> key_rem y \<le> key_rem x"
  by (auto simp: less_eq_pro_key_def split: if_splits)

lemma pro_exact:
  assumes small: "sum_list (map unat szs) < 2 ^ 64" and pos: "0 < sum_list (map unat szs)"
    and prod: "\<forall>s \<in> set szs. unat s * unat q < 2 ^ 64"
  shows "i < length szs \<Longrightarrow>
      unat (pro_shares q szs ! i) = unat (szs ! i) * unat q div sum_list (map unat szs)"
    and "sum_list (pro_units q szs ids) = unat q"
    and "i \<in> set (pro_picks q szs ids) \<Longrightarrow> 0 < unat (szs ! i) * unat q mod sum_list (map unat szs)"
proof -
  let ?t = "sum_list (map unat szs)" and ?q = "unat q"
  let ?r = "\<lambda>i. unat (szs ! i) * ?q mod ?t"
  have total: "unat (sum_u64 szs) = ?t" using small by (rule sum_u64_unat)
  have mult: "unat (s * q) = unat s * ?q" if "s \<in> set szs" for s
    using prod that by (simp add: unat_word_ariths)
  show share: "unat (pro_shares q szs ! i) = unat (szs ! i) * ?q div ?t" if "i < length szs" for i
    using that mult [of "szs ! i"] by (simp add: pro_shares_def unat_div total)
  have shares: "map unat (pro_shares q szs) = map (\<lambda>x. x div ?t) (map (\<lambda>s. unat s * ?q) szs)"
    using share by (intro nth_equalityI) simp_all
  have "sum_list (map (\<lambda>s. unat s * ?q) szs) = ?t * ?q"
    by (simp add: sum_list_mult_const)
  with sum_div_mod [of "map (\<lambda>s. unat s * ?q) szs" ?t]
  have "?t * ?q = ?t * sum_list (map unat (pro_shares q szs)) +
      sum_list (map (\<lambda>s. unat s * ?q mod ?t) szs)"
    unfolding shares by (simp add: comp_def)
  moreover have "?t * ?q = ?t * sum_list (map unat (pro_shares q szs)) + ?t * pro_left q szs"
    using pro_left_unat [OF small, of q] by (metis add.commute distrib_left)
  ultimately have rems: "sum_list (map (\<lambda>s. unat s * ?q mod ?t) szs) = ?t * pro_left q szs" by simp
  let ?xs = "pro_rank q szs ids"
  have "sum_list (map ?r ?xs) = sum_list (map ?r [0..<length szs])"
    using pro_rank_perm [of q szs ids]
    by (simp add: sum_list_distinct_conv_sum_set atLeast0LessThan)
  also have "map ?r [0..<length szs] = map (\<lambda>s. unat s * ?q mod ?t) szs"
    by (intro nth_equalityI) simp_all
  finally have sum: "sum_list (map ?r ?xs) = ?t * pro_left q szs" using rems by simp
  have bound: "\<forall>x \<in> set ?xs. ?r x < ?t" using pos by simp
  have desc: "?r (?xs ! c) \<le> ?r (?xs ! a)" if "a \<le> c" "c < length ?xs" for a c
  proof -
    let ?key = "\<lambda>i. Pro_Key (map (\<lambda>sz. (sz * q) mod sum_u64 szs) szs ! i) (ids ! i)"
    have "sorted (map ?key ?xs)" by (simp add: pro_rank_def Let_def)
    then have "?key (?xs ! a) \<le> ?key (?xs ! c)"
      using that sorted_iff_nth_mono [of "map ?key ?xs"] by auto
    moreover have "?xs ! a < length szs" "?xs ! c < length szs"
      using that pro_rank_perm(2) [of q szs ids] nth_mem [of a ?xs] nth_mem [of c ?xs] by auto
    moreover have "unat (map (\<lambda>sz. (sz * q) mod sum_u64 szs) szs ! j) = ?r j" if "j < length szs" for j
      using that mult [of "szs ! j"] by (simp add: unat_mod total)
    ultimately show ?thesis by (metis key_le_rem pro_key.sel(1) word_le_nat_alt)
  qed
  note top = top_positive [OF desc bound sum pos]
  show "?r i > 0" if "i \<in> set (pro_picks q szs ids)" for i
    using top(2) that by (simp add: pro_picks_def)
  have "length (pro_picks q szs ids) = pro_left q szs"
    using top(1) pro_rank_perm(3) [of q szs ids] pro_picks_perm(3) [of q szs ids] by simp
  then show "sum_list (pro_units q szs ids) = ?q"
    using pro_left_unat [OF small, of q] by (simp add: pro_units_sum)
qed

text \<open>No order is asked for more than it shows when the level can fill the whole quantity.\<close>

lemma pro_units_le:
  assumes small: "sum_list (map unat szs) < 2 ^ 64" and pos: "0 < sum_list (map unat szs)"
    and prod: "\<forall>s \<in> set szs. unat s * unat q < 2 ^ 64" and q: "unat q \<le> sum_list (map unat szs)"
    and i: "i < length szs"
  shows "pro_units q szs ids ! i \<le> unat (szs ! i)"
proof -
  let ?t = "sum_list (map unat szs)" and ?x = "unat (szs ! i) * unat q"
  have share: "unat (pro_shares q szs ! i) = ?x div ?t" by (rule pro_exact(1) [OF small pos prod i])
  have le: "?x \<le> unat (szs ! i) * ?t" using q by simp
  then have "?x div ?t \<le> unat (szs ! i) * ?t div ?t" by (rule div_le_mono)
  then have "?x div ?t \<le> unat (szs ! i)" using pos by simp
  moreover have "?x div ?t < unat (szs ! i)" if "0 < ?x mod ?t"
  proof (rule ccontr)
    assume "\<not> ?x div ?t < unat (szs ! i)"
    then have "unat (szs ! i) * ?t \<le> ?x div ?t * ?t" by simp
    then have "?x \<le> ?x div ?t * ?t" using le by linarith
    moreover have "?x = ?x div ?t * ?t + ?x mod ?t" by simp
    ultimately show False using that by linarith
  qed
  ultimately show ?thesis
    using pro_exact(3) [OF small pos prod, of i ids] i by (auto simp: pro_units_def share Suc_le_eq)
qed

subsection \<open>The fills\<close>

lemma view_of_orders:
  "length ls = length v \<Longrightarrow> side_orders (view_of h v ls) = map (\<lambda>a. abs_order (h a)) (concat ls)"
proof (induction ls arbitrary: v)
  case (Cons as ls)
  then obtain nd w where "v = nd # w" by (cases v) auto
  with Cons show ?case by (simp add: abs_level_def side_orders_def)
qed (simp add: side_orders_def)

lemma book_view_orders:
  "book_rel L E b \<Longrightarrow> side_orders (book_view b s) = map (\<lambda>a. abs_order (mem b a)) (concat (L s))"
  using book_rel_length [of L E b s] by (simp add: book_view_rel view_of_orders)

lemma liquidity_fill:
  assumes "distinct (side_ids ls)" and "side_full ls" and "side_ok ls"
    and "x \<in> set (side_orders ls)" and "t \<le> ao_vis x"
  shows "liquidity (sp_fill (ao_id x) t ls) + t = liquidity ls"
proof -
  from assms(4) obtain p ys where "(p, ys) \<in> set ls" "x \<in> set ys" by (auto simp: side_orders_def)
  then obtain A B xs zs where ls: "ls = A @ (p, xs @ x # zs) # B"
    by (metis in_set_conv_decomp)
  have "side_full (A @ B)" using assms(2) by (simp add: ls)
  then have "sp_fill (ao_id x) t ls = A @ with_level p (after_fill t xs x zs) @ B"
    using assms(1) unfolding ls by (intro sp_fill_mid)
  moreover have "ao_disp x = 0 \<longrightarrow> ao_hid x = 0" using assms(3) by (auto simp: ls side_ok_def)
  ultimately show ?thesis
    using assms(5) by (auto simp: ls after_fill_def with_level_def order_liq_def Let_def)
qed

lemma apply_fill_liq:
  assumes rel: "book_rel L E b" and found: "find_id oid b = Some a" and a: "a \<notin> set E"
    and ap: "apply_fill oid w b = (t, b')"
  shows "book_liq b' + unat t = book_liq b"
proof -
  from find_id_live [OF rel found] have live: "a \<in> live L E" and oid: "order_id (mem b a) = oid"
    by auto
  from live a obtain s where s: "a \<in> set (concat (L s))" by (rule in_liveE)
  obtain t1 b1 where f: "apply_fill oid w b = (t1, b1)" "t1 = min w (remaining_qty (mem b a))"
    "book_view b1 = (\<lambda>s. sp_fill oid (unat t1) (book_view b s))"
    by (rule apply_fill_spec [OF rel found a])
  have x: "abs_order (mem b a) \<in> set (side_orders (book_view b s))"
    using s unfolding book_view_orders [OF rel] by simp
  have "unat t1 \<le> ao_vis (abs_order (mem b a))" using f(2) by (simp add: unat_simps)
  from liquidity_fill [OF book_ids_distinct1 [OF rel] book_view_full [OF rel] book_view_ok [OF rel] x this]
  have here: "liquidity (book_view b1 s) + unat t1 = liquidity (book_view b s)"
    by (simp add: f(3) oid)
  have "oid \<in> set (side_ids (book_view b s))" using x oid unfolding side_ids_orders by force
  then have "sp_fill oid (unat t1) (book_view b (opposite s)) = book_view b (opposite s)"
    using book_view_full [OF rel] book_view_other [OF rel] by (intro sp_fill_absent)
  with here show ?thesis using f(1,3) ap by (simp add: book_liq_side [of _ s])
qed

definition spec_fills :: "price_t \<Rightarrow> store \<Rightarrow> (addr \<times> qty_t) list \<Rightarrow> fill list" where
  "spec_fills px h zs =
     map (\<lambda>(a, tk). \<lparr>resting_order_id = order_id (h a), fill_price = px,
                      fill_qty = min tk (remaining_qty (h a))\<rparr>)
       (filter (\<lambda>(a, tk). 0 < min tk (remaining_qty (h a))) zs)"

lemma spec_fills_cong:
  assumes "\<And>c. c \<in> set (map fst zs) \<Longrightarrow>
    order_id (h' c) = order_id (h c) \<and> remaining_qty (h' c) = remaining_qty (h c)"
  shows "spec_fills px h' zs = spec_fills px h zs"
proof -
  have same: "order_id (h' a) = order_id (h a)" "remaining_qty (h' a) = remaining_qty (h a)"
    if "(a, tk) \<in> set zs" for a tk using assms [of a] that by force+
  show ?thesis
    unfolding spec_fills_def
    by (intro map_cong filter_cong refl) (auto simp: same)
qed

text \<open>What fills do to a side: each fills its order, in turn.\<close>

definition fills_view :: "fill list \<Rightarrow> aside \<Rightarrow> aside" where
  "fills_view gs ls = fold (\<lambda>f. sp_fill (resting_order_id f) (unat (fill_qty f))) gs ls"

text \<open>
  The loop over the orders of a level gives each the smaller of its allocation and what it
  shows, although earlier fills have moved or freed other orders by then. If every
  order shows something, the fills it reports are all it does to the book.
\<close>

lemma pro_rata_fills_ok:
  assumes "book_inv E b" and "distinct (map fst zs)"
    and "\<And>a. a \<in> set (map fst zs) \<Longrightarrow> find_id (order_id (mem b a)) b = Some a \<and> a \<notin> set E"
  obtains b' where "pro_rata_fills px zs b = (spec_fills px (mem b) zs, b')"
    and "book_inv E b'" and "book_frame E b b'"
    and "book_liq b' + fills_total (spec_fills px (mem b) zs) = book_liq b"
    and "0 \<notin> (\<lambda>a. remaining_qty (mem b a)) ` set (map fst zs) \<longrightarrow>
      (\<forall>s. book_view b' s = fills_view (spec_fills px (mem b) zs) (book_view b s))"
proof -
  have "\<exists>b'. pro_rata_fills px zs b = (spec_fills px (mem b) zs, b') \<and> book_inv E b' \<and>
      book_frame E b b' \<and> book_liq b' + fills_total (spec_fills px (mem b) zs) = book_liq b \<and>
      (0 \<notin> (\<lambda>a. remaining_qty (mem b a)) ` set (map fst zs) \<longrightarrow>
        (\<forall>s. book_view b' s = fills_view (spec_fills px (mem b) zs) (book_view b s)))"
    using assms
  proof (induction zs arbitrary: b)
    case Nil
    then show ?case by (simp add: spec_fills_def fills_total_def book_frame_refl fills_view_def)
  next
    case (Cons z zs)
    obtain a tk where z: "z = (a, tk)" by (cases z)
    show ?case
    proof (cases "tk = 0")
      case True
      then have eq: "spec_fills px (mem b) (z # zs) = spec_fills px (mem b) zs"
        "pro_rata_fills px (z # zs) b = pro_rata_fills px zs b" by (simp_all add: z spec_fills_def)
      have shown: "0 \<notin> (\<lambda>a. remaining_qty (mem b a)) ` set (map fst zs)"
        if "0 \<notin> (\<lambda>a. remaining_qty (mem b a)) ` set (map fst (z # zs))" using that by auto
      have dist: "distinct (map fst zs)"
        and found: "\<And>a. a \<in> set (map fst zs) \<Longrightarrow> find_id (order_id (mem b a)) b = Some a \<and> a \<notin> set E"
        using Cons.prems(2,3) by simp_all
      show ?thesis unfolding eq using Cons.IH [OF Cons.prems(1) dist found] shown by blast
    next
      case False
      from Cons.prems(1) obtain L where rel: "book_rel L E b" by (auto simp: book_inv_iff)
      have a: "find_id (order_id (mem b a)) b = Some a" "a \<notin> set E" using Cons.prems(3) z by auto
      obtain t b1 where f: "apply_fill (order_id (mem b a)) tk b = (t, b1)"
        "t = min tk (remaining_qty (mem b a))" "book_inv E b1" "book_frame E b b1" "settled a b b1"
        "book_view b1 = (\<lambda>s. sp_fill (order_id (mem b a)) (unat t) (book_view b s))"
        by (rule apply_fill_spec [OF rel a])
      have liq: "book_liq b1 + unat t = book_liq b" by (rule apply_fill_liq [OF rel a f(1)])
      have keep: "order_id (mem b1 c) = order_id (mem b c)"
        "remaining_qty (mem b1 c) = remaining_qty (mem b c)"
        "find_id (order_id (mem b1 c)) b1 = Some c \<and> c \<notin> set E"
        if c: "c \<in> set (map fst zs)" for c
      proof -
        have ca: "c \<noteq> a" using c Cons.prems(2) by (auto simp: z)
        show oid: "order_id (mem b1 c) = order_id (mem b c)" using f(5) by (simp add: settled_def)
        have "payload (mem b1 c) = payload (mem b c)" using f(5) ca by (simp add: settled_def)
        then show "remaining_qty (mem b1 c) = remaining_qty (mem b c)" by (rule payload_eqD)
        have fc: "find_id (order_id (mem b c)) b = Some c" "c \<notin> set E" using Cons.prems(3) c by auto
        then have "order_id (mem b c) \<noteq> order_id (mem b a)" using a ca by auto
        then show "find_id (order_id (mem b1 c)) b1 = Some c \<and> c \<notin> set E"
          using f(5) fc by (simp add: settled_def)
      qed
      have eq: "spec_fills px (mem b1) zs = spec_fills px (mem b) zs"
        using keep by (intro spec_fills_cong) simp
      from Cons.IH [OF f(3)] keep Cons.prems(2) obtain b' where
        r: "pro_rata_fills px zs b1 = (spec_fills px (mem b) zs, b')" "book_inv E b'"
          "book_frame E b1 b'" "book_liq b' + fills_total (spec_fills px (mem b) zs) = book_liq b1"
          "0 \<notin> (\<lambda>a. remaining_qty (mem b1 a)) ` set (map fst zs) \<longrightarrow>
            (\<forall>s. book_view b' s = fills_view (spec_fills px (mem b) zs) (book_view b1 s))"
        by (auto simp: z eq)
      have "pro_rata_fills px (z # zs) b = (spec_fills px (mem b) (z # zs), b')"
        using False f(1,2) r(1) by (simp add: z spec_fills_def Let_def)
      moreover have "fills_total (spec_fills px (mem b) (z # zs)) =
          unat t + fills_total (spec_fills px (mem b) zs)"
        by (auto simp: z spec_fills_def fills_total_def f(2) word_gt_0)
      moreover have "book_frame E b b'" using f(4) r(3) by (rule book_frame_trans)
      moreover have "\<forall>s. book_view b' s = fills_view (spec_fills px (mem b) (z # zs)) (book_view b s)"
        if shown: "0 \<notin> (\<lambda>a. remaining_qty (mem b a)) ` set (map fst (z # zs))"
      proof -
        have "(\<lambda>a. remaining_qty (mem b1 a)) ` set (map fst zs) = (\<lambda>a. remaining_qty (mem b a)) ` set (map fst zs)"
          using keep(2) by (intro image_cong) auto
        then have rest: "book_view b' s = fills_view (spec_fills px (mem b) zs) (book_view b1 s)" for s
          using r(5) shown by simp
        have "0 < t" using False shown unfolding f(2) by (auto simp: z word_gt_0 min_def)
        then have "spec_fills px (mem b) (z # zs) = \<lparr>resting_order_id = order_id (mem b a), fill_price = px,
            fill_qty = t\<rparr> # spec_fills px (mem b) zs" by (simp add: z spec_fills_def f(2))
        then show ?thesis by (simp add: rest fills_view_def f(6))
      qed
      ultimately show ?thesis using r(2,4) liq by (intro exI [of _ b']) simp
    qed
  qed
  then show thesis using that by blast
qed

subsection \<open>Pro-rata matching is a policy\<close>

lemma fills_total_spec:
  "fills_total (spec_fills px h zs) =
   sum_list (map (\<lambda>(a, tk). min (unat tk) (unat (remaining_qty (h a)))) zs)"
proof (induction zs)
  case (Cons z zs)
  obtain a tk where z: "z = (a, tk)" by (cases z)
  have "unat (min tk (remaining_qty (h a))) = min (unat tk) (unat (remaining_qty (h a)))"
    by (rule unat_min)
  moreover have "0 < min tk (remaining_qty (h a)) \<longleftrightarrow> 0 < unat (min tk (remaining_qty (h a)))"
    by (rule word_gt_0_unat)
  ultimately show ?case using Cons by (auto simp: z spec_fills_def fills_total_def)
qed (simp add: spec_fills_def fills_total_def)

lemma level_queue_vis: "sum_list (map ao_vis (level_queue px ls)) \<le> liquidity ls"
proof (cases "map_of ls px")
  case (Some xs)
  have "sum_list (map ao_vis xs) \<le> sum_list (map order_liq xs)"
    by (intro sum_list_mono) (simp add: order_liq_def)
  also have "\<dots> \<le> liquidity ls"
    using map_of_SomeD [OF Some] by (induction ls) auto
  finally show ?thesis using Some by (simp add: level_queue_def)
qed (simp add: level_queue_def)

text \<open>What \<open>pro_rata_match\<close> does: the allocation of the best level, applied by \<open>spec_fills\<close>.\<close>

definition level_szs :: "order_book \<Rightarrow> addr list \<Rightarrow> qty_t list" where
  "level_szs b as = map (\<lambda>a. remaining_qty (mem b a)) as"

definition level_ids :: "order_book \<Rightarrow> addr list \<Rightarrow> order_id_t list" where
  "level_ids b as = map (\<lambda>a. order_id (mem b a)) as"

lemma pro_rata_level:
  assumes inv: "book_inv E b" and small: "book_liq b < 2 ^ 63"
    and best: "best (opposite s) b = Some px"
  obtains as b' where "get_level_orders (opposite s) px b = Some as" and "distinct as"
    and "abs_level (mem b) as = level_queue px (book_view b (opposite s))"
    and "sum_list (map unat (level_szs b as)) < 2 ^ 63"
    and "pro_rata_match m s q b = (if sum_u64 (level_szs b as) = 0 then Some ([], b)
      else Some (spec_fills px (mem b) (zip as (pro_rata_alloc m q (level_szs b as) (level_ids b as))), b'))"
    and "book_inv E b'" and "book_frame E b b'"
    and "book_liq b' + fills_total (spec_fills px (mem b)
      (zip as (pro_rata_alloc m q (level_szs b as) (level_ids b as)))) = book_liq b"
    and "0 \<notin> set (level_szs b as) \<longrightarrow> (\<forall>t. book_view b' t = fills_view (spec_fills px (mem b)
      (zip as (pro_rata_alloc m q (level_szs b as) (level_ids b as)))) (book_view b t))"
proof -
  from inv obtain L where rel: "book_rel L E b" by (auto simp: book_inv_iff)
  obtain as where as: "get_level_orders (opposite s) px b = Some as"
    "abs_level (mem b) as = level_queue px (book_view b (opposite s))"
    "set as \<subseteq> set (concat (L (opposite s)))" "distinct as"
    by (rule get_level_orders_spec [OF rel])
  let ?al = "pro_rata_alloc m q (level_szs b as) (level_ids b as)"
  have len: "length ?al = length as" by (simp add: pro_rata_alloc_parts level_szs_def)
  have sum: "sum_list (map unat (level_szs b as)) = sum_list (map ao_vis (abs_level (mem b) as))"
    by (simp add: level_szs_def abs_level_def comp_def)
  have sm: "sum_list (map unat (level_szs b as)) < 2 ^ 63"
    using level_queue_vis [of px "book_view b (opposite s)"] liquidity_le_book [of b "opposite s"]
      small unfolding sum as(2) by linarith
  have disj: "set (concat (L (opposite s))) \<inter> set E = {}"
    using rel unfolding book_rel_side [of L E b s] by auto
  have live: "a \<in> live L E" if "a \<in> set as" for a
    using that as(3) unfolding live_def set_resting [of L s] by blast
  have found: "find_id (order_id (mem b a)) b = Some a \<and> a \<notin> set E"
    if "a \<in> set (map fst (zip as ?al))" for a
  proof -
    have "a \<in> set as" using that len by simp
    with live disj as(3) show ?thesis using find_id_Some [OF rel, of a] by blast
  qed
  have dist: "distinct (map fst (zip as ?al))" using as(4) len by simp
  obtain b' where f: "pro_rata_fills px (zip as ?al) b = (spec_fills px (mem b) (zip as ?al), b')"
    "book_inv E b'" "book_frame E b b'"
    "book_liq b' + fills_total (spec_fills px (mem b) (zip as ?al)) = book_liq b"
    "0 \<notin> (\<lambda>a. remaining_qty (mem b a)) ` set (map fst (zip as ?al)) \<longrightarrow>
      (\<forall>s. book_view b' s = fills_view (spec_fills px (mem b) (zip as ?al)) (book_view b s))"
    by (rule pro_rata_fills_ok [OF inv dist found])
  have shown: "(\<lambda>a. remaining_qty (mem b a)) ` set (map fst (zip as ?al)) = set (level_szs b as)"
    using len by (simp add: level_szs_def)
  have b: "(case s of Buy \<Rightarrow> best_ask b | Sell \<Rightarrow> best_bid b) = Some px"
    "(case s of Buy \<Rightarrow> Sell | Sell \<Rightarrow> Buy) = opposite s"
    using best by (cases s; simp add: best_sides)+
  have empty: "as = [] \<Longrightarrow> sum_u64 (level_szs b as) = 0" by (simp add: level_szs_def sum_u64_def)
  have "pro_rata_match m s q b = (if sum_u64 (level_szs b as) = 0 then Some ([], b)
      else Some (spec_fills px (mem b) (zip as ?al), b'))"
    using empty unfolding pro_rata_match_def b option.case as(1) Let_def
    by (auto simp: f(1) level_szs_def [symmetric] level_ids_def [symmetric])
  then show thesis using as sm f(2-4) f(5) [unfolded shown] by (intro that)
qed

text \<open>Without overflow the fills take the allocated units, which no order lacks.\<close>

lemma pro_rata_fills_units:
  fixes m q :: u64 and b :: order_book
  defines "alloc as \<equiv> pro_rata_alloc m q (level_szs b as) (level_ids b as)"
  assumes small: "sum_list (map unat (level_szs b as)) < 2 ^ 64" and pos: "0 < sum_list (map unat (level_szs b as))"
    and prod: "\<forall>z \<in> set (level_szs b as). unat z * unat q < 2 ^ 64"
    and le: "unat q \<le> sum_list (map unat (level_szs b as))" and m: "unat m \<le> 1"
  shows "map (\<lambda>(a, tk). min (unat tk) (unat (remaining_qty (mem b a)))) (zip as (alloc as)) =
    pro_units q (level_szs b as) (level_ids b as)"
proof -
  let ?szs = "level_szs b as" and ?ids = "level_ids b as"
  have units: "map unat (alloc as) = pro_units q ?szs ?ids"
    using m unfolding alloc_def alloc_unat [OF small] by (intro map_idI) auto
  have len: "length as = length (alloc as)" "length as = length ?szs"
    by (simp_all add: alloc_def pro_rata_alloc_parts level_szs_def)
  show ?thesis
  proof (intro nth_equalityI)
    fix i assume "i < length (map (\<lambda>(a, tk). min (unat tk) (unat (remaining_qty (mem b a)))) (zip as (alloc as)))"
    then have i: "i < length ?szs" using len by simp
    have "unat (alloc as ! i) = pro_units q ?szs ?ids ! i"
      using arg_cong [OF units, of "\<lambda>xs. xs ! i"] i len by simp
    moreover have "remaining_qty (mem b (as ! i)) = ?szs ! i" using i by (simp add: level_szs_def)
    ultimately show "map (\<lambda>(a, tk). min (unat tk) (unat (remaining_qty (mem b a)))) (zip as (alloc as)) ! i =
        pro_units q ?szs ?ids ! i"
      using i len pro_units_le [OF small pos prod le i, of ?ids] by simp
  qed (use len in \<open>simp add: pro_units_def\<close>)
qed

text \<open>The best level, its allocation and the fills, over the view of the book.\<close>

definition pro_rata_taken :: "qty_t \<Rightarrow> qty_t \<Rightarrow> price_t \<Rightarrow> addr list \<Rightarrow> order_book \<Rightarrow> fill list" where
  "pro_rata_taken m q px as b =
     spec_fills px (mem b) (zip as (pro_rata_alloc m q (level_szs b as) (level_ids b as)))"

lemma pro_rata_best:
  assumes inv: "book_inv E b" and small: "book_liq b < 2 ^ 63"
    and view: "book_view b (opposite s) = (px, xs) # ls" and shows_some: "0 < sum_list (map ao_vis xs)"
  obtains as b' where "length as = length xs" and "map unat (level_szs b as) = map ao_vis xs"
    and "sum_list (map unat (level_szs b as)) < 2 ^ 64"
    and "pro_rata_match m s q b = Some (pro_rata_taken m q px as b, b')"
    and "book_inv E b'" and "book_frame E b b'"
    and "book_liq b' + fills_total (pro_rata_taken m q px as b) = book_liq b"
    and "(\<forall>x \<in> set xs. 0 < ao_vis x) \<longrightarrow> (\<forall>t. book_view b' t = fills_view (pro_rata_taken m q px as b) (book_view b t))"
proof -
  from inv obtain L where rel: "book_rel L E b" by (auto simp: book_inv_iff)
  have best: "best (opposite s) b = Some px" by (simp add: best_view [OF rel] view)
  obtain as b' where l: "abs_level (mem b) as = level_queue px (book_view b (opposite s))"
    "sum_list (map unat (level_szs b as)) < 2 ^ 63"
    "pro_rata_match m s q b = (if sum_u64 (level_szs b as) = 0 then Some ([], b)
      else Some (spec_fills px (mem b) (zip as (pro_rata_alloc m q (level_szs b as) (level_ids b as))), b'))"
    "book_inv E b'" "book_frame E b b'"
    "book_liq b' + fills_total (spec_fills px (mem b)
      (zip as (pro_rata_alloc m q (level_szs b as) (level_ids b as)))) = book_liq b"
    "0 \<notin> set (level_szs b as) \<longrightarrow> (\<forall>t. book_view b' t = fills_view (spec_fills px (mem b)
      (zip as (pro_rata_alloc m q (level_szs b as) (level_ids b as)))) (book_view b t))"
    by (rule pro_rata_level [OF inv small best]) blast
  let ?szs = "level_szs b as"
  have xs: "abs_level (mem b) as = xs" using l(1) view by (simp add: level_queue_def)
  have szs: "map unat ?szs = map ao_vis xs"
    by (simp add: xs [symmetric] level_szs_def abs_level_def comp_def)
  have len: "length as = length xs" by (simp add: xs [symmetric] abs_level_def)
  have sm: "sum_list (map unat ?szs) < 2 ^ 64" using l(2) by simp
  have "unat (sum_u64 ?szs) \<noteq> 0" using shows_some sum_u64_unat [OF sm] unfolding szs by linarith
  then have "sum_u64 ?szs \<noteq> 0" by (metis unsigned_0)
  then have run: "pro_rata_match m s q b = Some (pro_rata_taken m q px as b, b')"
    using l(3) by (simp add: pro_rata_taken_def)
  have "0 \<notin> set ?szs" if "\<forall>x \<in> set xs. 0 < ao_vis x"
  proof
    assume "0 \<in> set ?szs"
    then have "unat (0 :: u64) \<in> set (map unat ?szs)" unfolding set_map by (rule imageI)
    with that show False unfolding szs by auto
  qed
  with l(7) have view: "(\<forall>x \<in> set xs. 0 < ao_vis x) \<longrightarrow>
      (\<forall>t. book_view b' t = fills_view (pro_rata_taken m q px as b) (book_view b t))"
    by (simp add: pro_rata_taken_def)
  from that [OF len szs sm run l(4,5) _ view] l(6) show thesis by (simp add: pro_rata_taken_def)
qed

text \<open>The products of the sizes of a level and the quantity, when they do not overflow.\<close>

lemma sizes_prod:
  assumes "map unat szs = map ao_vis xs" and "\<forall>x \<in> set xs. ao_vis x * n < 2 ^ 64"
  shows "\<forall>z \<in> set szs. unat z * n < 2 ^ 64"
proof
  fix z assume "z \<in> set szs"
  then have "unat z \<in> set (map unat szs)" by simp
  then show "unat z * n < 2 ^ 64" unfolding assms(1) using assms(2) by auto
qed

lemma pro_rata_fill_exact:
  assumes "book_inv E b" and "book_liq b < 2 ^ 63" and "unat m \<le> 1"
    and "book_view b (opposite s) = (px, xs) # ls"
    and "unat q \<le> sum_list (map ao_vis xs)" and "0 < sum_list (map ao_vis xs)"
    and "\<forall>x \<in> set xs. ao_vis x * unat q < 2 ^ 64"
    and "pro_rata_match m s q b = Some (gs, b')"
  shows "sum_list (map (\<lambda>f. unat (fill_qty f)) gs) = unat q"
proof -
  obtain as b1 where l: "map unat (level_szs b as) = map ao_vis xs"
    "sum_list (map unat (level_szs b as)) < 2 ^ 64"
    "pro_rata_match m s q b = Some (pro_rata_taken m q px as b, b1)"
    by (rule pro_rata_best [OF assms(1,2,4,6), of m q]) blast
  let ?szs = "level_szs b as" and ?ids = "level_ids b as"
  have pos: "0 < sum_list (map unat ?szs)" and le: "unat q \<le> sum_list (map unat ?szs)"
    using assms(5,6) by (simp_all only: l(1))
  note prod = sizes_prod [OF l(1) assms(7)]
  have gs: "gs = pro_rata_taken m q px as b" using l(3) assms(8) by simp
  show ?thesis
    using pro_rata_fills_units [OF l(2) pos prod le assms(3)] pro_exact(2) [OF l(2) pos prod, of ?ids]
      fills_total_spec [of px "mem b"]
    by (simp add: gs pro_rata_taken_def fills_total_def)
qed

text \<open>A quantity at least as large takes all the level shows: every share is at least the size.\<close>

lemma pro_rata_fill_all:
  assumes "book_inv E b" and "book_liq b < 2 ^ 63" and "unat m \<le> 1"
    and "book_view b (opposite s) = (px, xs) # ls"
    and "sum_list (map ao_vis xs) \<le> unat q" and "0 < sum_list (map ao_vis xs)"
    and "\<forall>x \<in> set xs. ao_vis x * unat q < 2 ^ 64"
    and "pro_rata_match m s q b = Some (gs, b')"
  shows "fills_total gs = sum_list (map ao_vis xs)"
proof -
  obtain as b1 where l: "length as = length xs" "map unat (level_szs b as) = map ao_vis xs"
    "sum_list (map unat (level_szs b as)) < 2 ^ 64"
    "pro_rata_match m s q b = Some (pro_rata_taken m q px as b, b1)"
    by (rule pro_rata_best [OF assms(1,2,4,6), of m q]) blast
  let ?szs = "level_szs b as" and ?ids = "level_ids b as"
  let ?al = "pro_rata_alloc m q ?szs ?ids"
  have pos: "0 < sum_list (map unat ?szs)" and ge: "sum_list (map unat ?szs) \<le> unat q"
    using assms(5,6) by (simp_all only: l(2))
  note prod = sizes_prod [OF l(2) assms(7)]
  have len: "length ?al = length as" "length ?szs = length as"
    by (simp_all add: pro_rata_alloc_parts level_szs_def)
  have units: "map unat ?al = pro_units q ?szs ?ids"
    using assms(3) unfolding alloc_unat [OF l(3)] by (intro map_idI) auto
  have enough: "unat (?szs ! i) \<le> unat (?al ! i)" if i: "i < length as" for i
  proof -
    have "unat (?szs ! i) \<le> unat (?szs ! i) * unat q div sum_list (map unat ?szs)"
      using pos ge by (simp add: less_eq_div_iff_mult_less_eq)
    also have "\<dots> = unat (pro_shares q ?szs ! i)" using i len by (simp add: pro_exact(1) [OF l(3) pos prod])
    also have "\<dots> \<le> pro_units q ?szs ?ids ! i" using i len by (simp add: pro_units_def)
    also have "\<dots> = unat (?al ! i)" using arg_cong [OF units, of "\<lambda>xs. xs ! i"] i len by simp
    finally show ?thesis .
  qed
  have "map (\<lambda>(a, tk). min (unat tk) (unat (remaining_qty (mem b a)))) (zip as ?al) = map ao_vis xs"
    unfolding l(2) [symmetric]
  proof (intro nth_equalityI)
    fix i assume "i < length (map (\<lambda>(a, tk). min (unat tk) (unat (remaining_qty (mem b a)))) (zip as ?al))"
    then have i: "i < length as" using len by simp
    moreover have "remaining_qty (mem b (as ! i)) = ?szs ! i" using i by (simp add: level_szs_def)
    ultimately show "map (\<lambda>(a, tk). min (unat tk) (unat (remaining_qty (mem b a)))) (zip as ?al) ! i =
        map unat ?szs ! i" using enough [OF i] len by simp
  qed (use len in simp)
  then show ?thesis using l(4) assms(8) by (simp add: pro_rata_taken_def fills_total_spec)
qed

text \<open>Both cases together, with where the fills are and what they do to the book.\<close>

lemma pro_rata_fill_best:
  assumes "book_inv E b" and "book_liq b < 2 ^ 63" and "unat m \<le> 1"
    and "book_view b (opposite s) = (px, xs) # ls" and "\<forall>x \<in> set xs. 0 < ao_vis x"
    and "\<forall>x \<in> set xs. ao_vis x * unat q < 2 ^ 64"
    and "pro_rata_match m s q b = Some (gs, b')"
  shows "sum_list (map (\<lambda>f. unat (fill_qty f)) gs) = min (unat q) (sum_list (map ao_vis xs))"
    and "\<forall>f \<in> set gs. fill_price f = px" and "book_view b' t = fills_view gs (book_view b t)"
proof -
  from assms(1) obtain L where "book_rel L E b" by (auto simp: book_inv_iff)
  from book_view_full [OF this, of "opposite s"] have "xs \<noteq> []" by (simp add: assms(4))
  then have pos: "0 < sum_list (map ao_vis xs)" using assms(5) by (cases xs) auto
  note prems = pro_rata_fill_exact [OF assms(1-4) _ pos assms(6,7)]
    pro_rata_fill_all [OF assms(1-4) _ pos assms(6,7)]
  then show "sum_list (map (\<lambda>f. unat (fill_qty f)) gs) = min (unat q) (sum_list (map ao_vis xs))"
    unfolding fills_total_def by (cases "unat q \<le> sum_list (map ao_vis xs)") simp_all
  obtain as b1 where r: "pro_rata_match m s q b = Some (pro_rata_taken m q px as b, b1)"
    "(\<forall>x \<in> set xs. 0 < ao_vis x) \<longrightarrow> (\<forall>t. book_view b1 t = fills_view (pro_rata_taken m q px as b) (book_view b t))"
    by (rule pro_rata_best [OF assms(1,2,4) pos, of m q]) blast
  then show "book_view b' t = fills_view gs (book_view b t)" using assms(5,7) by simp
  show "\<forall>f \<in> set gs. fill_price f = px"
    using r(1) assms(7) by (auto simp: pro_rata_taken_def spec_fills_def)
qed

lemma spec_fills_le:
  assumes "length al = length as" and "sum_list (map unat al) \<le> n"
  shows "fills_total (spec_fills px h (zip as al)) \<le> n"
proof -
  have "sum_list (map (\<lambda>(a, tk). min (unat tk) (unat (remaining_qty (h a)))) (zip as al)) \<le>
      sum_list (map (\<lambda>(a, tk). unat tk) (zip as al))"
    by (intro sum_list_mono) auto
  also have "map (\<lambda>(a, tk). unat tk) (zip as al) = map unat (map snd (zip as al))"
    by (simp add: case_prod_beta comp_def)
  also have "\<dots> = map unat al" using assms(1) by simp
  finally show ?thesis using assms(2) by (simp add: fills_total_spec)
qed

lemma pro_rata_match_ok:
  assumes inv: "book_inv E b" and small: "book_liq b < 2 ^ 63"
  shows "\<exists>gs b'. pro_rata_match m s q b = Some (gs, b') \<and> book_inv E b' \<and> book_frame E b b' \<and>
    book_liq b' + fills_total gs = book_liq b \<and> fills_total gs \<le> unat q"
proof (cases "best (opposite s) b")
  case None
  then have "pro_rata_match m s q b = Some ([], b)"
    by (cases s) (simp_all add: pro_rata_match_def best_sides)
  with inv show ?thesis by (simp add: book_frame_refl fills_total_def)
next
  case (Some px)
  obtain as b' where l: "sum_list (map unat (level_szs b as)) < 2 ^ 63"
    "pro_rata_match m s q b = (if sum_u64 (level_szs b as) = 0 then Some ([], b)
      else Some (spec_fills px (mem b) (zip as (pro_rata_alloc m q (level_szs b as) (level_ids b as))), b'))"
    "book_inv E b'" "book_frame E b b'"
    "book_liq b' + fills_total (spec_fills px (mem b)
      (zip as (pro_rata_alloc m q (level_szs b as) (level_ids b as)))) = book_liq b"
    by (rule pro_rata_level [OF inv small Some]) blast
  show ?thesis
  proof (cases "sum_u64 (level_szs b as) = 0")
    case True
    with l(2) inv show ?thesis by (simp add: book_frame_refl fills_total_def)
  next
    case False
    have "sum_list (map unat (level_szs b as)) < 2 ^ 64" using l(1) by simp
    from alloc_sum_le [OF this, of m q "level_ids b as"]
    have "fills_total (spec_fills px (mem b)
        (zip as (pro_rata_alloc m q (level_szs b as) (level_ids b as)))) \<le> unat q"
      by (intro spec_fills_le) (simp_all add: pro_rata_alloc_parts level_szs_def)
    with False l(2-5) show ?thesis by simp
  qed
qed

interpretation pro_rata: matching_policy "pro_rata_match m" for m
  by unfold_locales (rule pro_rata_match_ok)

lemma policy_match_ok: "matching_policy (policy_match p)"
  by (cases p) (simp_all add: policy_match_def fifo.matching_policy_axioms
      pro_rata.matching_policy_axioms)

end
