(* ===== verification/Book_Properties.thy ===== *)
theory Book_Properties
  imports Book_Lifecycle
begin

section \<open>The properties of the order book\<close>

text \<open>
  The statements about \<open>OrderBook\<close> that a user of the class relies on, over the member
  functions of \<open>Order_Book\<close>, each with an example on a small concrete book.
\<close>

subsection \<open>Time priority on the list book\<close>

lemma sp_match_zero [simp]: "sp_match 0 ls = ([], ls)"
  by (cases "(0 :: nat, ls)" rule: sp_match.cases) simp_all

lemma sp_match_queue:
  assumes "sp_match q ((p, xs @ ys) # ls) = (fs, r)" and "i < length fs" and "i < length xs"
  shows "fs ! i = (ao_id (xs ! i), p, min (q - sum_list (map ao_vis (take i xs))) (ao_vis (xs ! i)))"
  using assms
proof (induction xs arbitrary: q ys fs i)
  case (Cons x xs)
  show ?case
  proof (cases "q = 0")
    case True
    with Cons.prems show ?thesis by simp
  next
    case False
    define t where "t = min q (ao_vis x)"
    obtain fs' where rec: "sp_match (q - t) (sp_consume t p x (xs @ ys) ls) = (fs', r)"
      and fs: "fs = (ao_id x, p, t) # fs'"
      using Cons.prems(1) False by (auto simp: Let_def t_def split: prod.splits)
    show ?thesis
    proof (cases i)
      case 0
      then show ?thesis by (simp add: fs t_def)
    next
      case (Suc j)
      then have j: "j < length fs'" "j < length xs" using Cons.prems fs by simp_all
      show ?thesis
      proof (cases "q \<le> ao_vis x")
        case True
        then have "fs' = []" using rec by (simp add: t_def)
        with j show ?thesis by simp
      next
        case False
        then have t: "t = ao_vis x" by (simp add: t_def)
        have "xs \<noteq> []" using j by auto
        then have "\<exists>zs. sp_consume t p x (xs @ ys) ls = (p, xs @ zs) # ls"
          using t by (simp add: sp_consume_def Let_def)
        then obtain zs where "sp_consume t p x (xs @ ys) ls = (p, xs @ zs) # ls" ..
        with rec have "sp_match (q - t) ((p, xs @ zs) # ls) = (fs', r)" by simp
        from Cons.IH [OF this j] show ?thesis by (simp add: fs Suc t)
      qed
    qed
  qed
qed simp

subsection \<open>A book to look at\<close>

text \<open>Two orders at 101 and one at 102 on the sell side, an order at 99 on the buy side.\<close>

definition demo_book :: order_book where
  "demo_book = snd (add_limit_order Buy 99 6 (snd (add_limit_order Sell 102 3
     (snd (add_limit_order Sell 101 4 (snd (add_limit_order Sell 101 5 (new_book 8 Pool))))))))"

lemma add_limit_inv:
  assumes "book_inv E b" and "level_liq px (book_view b s) + unat q < 2 ^ 64"
    and "\<not> pool_full b"
  shows "book_inv E (snd (add_limit_order s px q b))"
proof -
  from assms(1) obtain L where rel: "book_rel L E b" by (auto simp: book_inv_iff)
  obtain b' where "add_limit_order s px q b = (next_order_id b, b')" "book_inv E b'"
    by (rule add_limit_ok [OF rel assms(2,3)])
  then show ?thesis by simp
qed

lemma add_limit_small:
  assumes "book_inv E b" and "level_liq px (book_view b s) + unat q < 100" and "\<not> pool_full b"
  shows "book_inv E (snd (add_limit_order s px q b))"
proof -
  have "level_liq px (book_view b s) + unat q < 2 ^ 64"
    using assms(2) by (rule less_trans) simp
  with assms show ?thesis by (intro add_limit_inv)
qed

lemma demo_inv: "book_inv [] demo_book"
proof -
  define b1 where "b1 = snd (add_limit_order Sell 101 5 (new_book 8 Pool))"
  define b2 where "b2 = snd (add_limit_order Sell 101 4 b1)"
  define b3 where "b3 = snd (add_limit_order Sell 102 3 b2)"
  have 1: "book_inv [] b1"
    unfolding b1_def by (rule add_limit_small [OF new_book_inv]; code_simp)
  have 2: "book_inv [] b2"
    unfolding b2_def by (rule add_limit_small [OF 1]; unfold b1_def; code_simp)
  have 3: "book_inv [] b3"
    unfolding b3_def by (rule add_limit_small [OF 2]; unfold b2_def b1_def; code_simp)
  have "book_inv [] (snd (add_limit_order Buy 99 6 b3))"
    by (rule add_limit_small [OF 3]; unfold b3_def b2_def b1_def; code_simp)
  then show ?thesis by (simp only: demo_book_def b3_def b2_def b1_def)
qed

lemma demo_ids:
  "find_id 1 demo_book = Some 7" "find_id 2 demo_book = Some 6" "find_id 3 demo_book = Some 5"
  "find_id 4 demo_book = Some 4" "find_id 9 demo_book = None"
  by code_simp+

subsection \<open>Market orders\<close>

text \<open>C1. A market order always returns: on every well-formed book the loop ends, leaves a
  well-formed book, and its fills and the opposite side it leaves are those of price-time
  matching on lists; the own side is not touched.\<close>
theorem market_order_refines:
  assumes "book_inv E b"
  shows "\<exists>gs b'. market_order s q b = Some (gs, b') \<and> book_inv E b' \<and>
    (map abs_fill gs, book_view b' (opposite s)) =
      sp_match (unat q) (book_view b (opposite s)) \<and>
    book_view b' s = book_view b s \<and> book_frame E b b'"
proof -
  obtain fs r where m: "sp_match (unat q) (book_view b (opposite s)) = (fs, r)"
    by (cases "sp_match (unat q) (book_view b (opposite s))")
  obtain gs b' where "market_order s q b = Some (gs, b')" "map abs_fill gs = fs" "book_inv E b'"
    "book_view b' = (book_view b)(opposite s := r)" "book_frame E b b'"
    by (rule market_order_spec [OF assms m])
  then show ?thesis using m by simp
qed

theorem market_order_refines_witness:
  "\<exists>gs b'. market_order Buy 6 demo_book = Some (gs, b') \<and> book_inv [] b' \<and>
    map abs_fill gs = [(1, 101, 5), (2, 101, 1)]"
proof -
  have "fst (sp_match (unat (6 :: u64)) (book_view demo_book (opposite Buy))) =
      [(1, 101, 5), (2, 101, 1)]" by code_simp
  then show ?thesis
    using market_order_refines [OF demo_inv, of Buy 6] by (metis fst_conv)
qed

text \<open>C2. A market order is filled as far as there is liquidity: the fills add up to the
  smaller of its quantity and all the opposite side holds, visible and hidden, and the side
  loses exactly what was filled.\<close>
theorem market_order_filled:
  assumes "book_inv E b" and "market_order s q b = Some (gs, b')"
  shows "sum_list (map (\<lambda>f. unat (fill_qty f)) gs) =
      min (unat q) (liquidity (book_view b (opposite s))) \<and>
    liquidity (book_view b' (opposite s)) + sum_list (map (\<lambda>f. unat (fill_qty f)) gs) =
      liquidity (book_view b (opposite s))"
proof -
  have "sum_list (map (\<lambda>f. unat (fill_qty f)) gs) = filled (map abs_fill gs)"
    by (simp add: filled_def abs_fill_def comp_def)
  then show ?thesis
    using sp_match_filled [OF market_order_match(1) [OF assms] book_inv_view(1) [OF assms(1)]]
    by simp
qed

theorem market_order_filled_witness:
  "sum_list (map (\<lambda>f. unat (fill_qty f)) (fst (the (market_order Buy 50 demo_book)))) = 12"
proof -
  obtain gs b' where m: "market_order Buy 50 demo_book = Some (gs, b')"
    using market_order_spec [OF demo_inv] by (metis surj_pair)
  have "min (unat (50 :: u64)) (liquidity (book_view demo_book (opposite Buy))) = 12" by code_simp
  with market_order_filled [OF demo_inv m] m show ?thesis by simp
qed

text \<open>C3. Price priority: the fills of a market order come from the best price outwards, and
  when it returns no level is left in the book at a better price than one that traded.\<close>
theorem market_order_price_priority:
  assumes "book_inv E b" and "market_order s q b = Some (gs, b')"
  shows "sorted_wrt (\<lambda>p p'. p = p' \<or> side_cmp (opposite s) p p') (map fill_price gs) \<and>
    (\<forall>f \<in> set gs. \<forall>l \<in> set (book_view b' (opposite s)).
      \<not> side_cmp (opposite s) (fst l) (fill_price f))"
proof -
  have "fill_prices (map abs_fill gs) = map fill_price gs"
    by (simp add: fill_prices_def abs_fill_def comp_def)
  with sp_match_price_priority [OF market_order_match(1) [OF assms]
      book_inv_view(3) [OF assms(1)] lad.cmp_irrefl lad.cmp_trans]
  show ?thesis by simp
qed

theorem market_order_price_priority_witness:
  "map fill_price (fst (the (market_order Buy 11 demo_book))) = [101, 101, 102] \<and>
   sorted_wrt (\<lambda>p p'. p = p' \<or> side_cmp Sell p p') [101, 101, 102]"
proof -
  obtain gs b' where m: "market_order Buy 11 demo_book = Some (gs, b')"
    using market_order_spec [OF demo_inv] by (metis surj_pair)
  have "map fill_price (fst (the (market_order Buy 11 demo_book))) = [101, 101, 102]" by code_simp
  with market_order_price_priority [OF demo_inv m] m show ?thesis by simp
qed

text \<open>C4. Time priority: the first fills go to the orders queued at the best price, in the order
  of the queue, each taking all it shows or what is left of the market order.\<close>
theorem market_order_time_priority:
  assumes "book_inv E b" and "market_order s q b = Some (gs, b')"
    and "book_view b (opposite s) = (p, xs) # ls" and "i < length gs" and "i < length xs"
  shows "resting_order_id (gs ! i) = ao_id (xs ! i) \<and> fill_price (gs ! i) = p \<and>
    unat (fill_qty (gs ! i)) =
      min (unat q - sum_list (map ao_vis (take i xs))) (ao_vis (xs ! i))"
proof -
  have "sp_match (unat q) ((p, xs @ []) # ls) = (map abs_fill gs, book_view b' (opposite s))"
    using market_order_match(1) [OF assms(1,2)] assms(3) by simp
  from sp_match_queue [OF this, of i] assms(4,5) show ?thesis by (simp add: abs_fill_def)
qed

theorem market_order_time_priority_witness:
  "\<exists>gs b'. market_order Buy 6 demo_book = Some (gs, b') \<and> resting_order_id (gs ! 1) = 2 \<and>
    unat (fill_qty (gs ! 1)) = 1"
proof -
  obtain gs b' where m: "market_order Buy 6 demo_book = Some (gs, b')"
    using market_order_spec [OF demo_inv] by (metis surj_pair)
  have "length (fst (the (market_order Buy 6 demo_book))) = 2" by code_simp
  then have len: "1 < length gs" using m by simp
  define xs where "xs = [new_aorder 1 5, new_aorder 2 4]"
  have view: "book_view demo_book (opposite Buy) = (101, xs) # [(102, [new_aorder 3 3])]"
    unfolding xs_def by code_simp
  have "1 < length xs" by (simp add: xs_def)
  from market_order_time_priority [OF demo_inv m view len this] m show ?thesis
    by (simp add: xs_def new_aorder_def)
qed

subsection \<open>Adding, cancelling and modifying\<close>

text \<open>C5. A limit order gets the next id and joins the end of the queue at its price, in a new
  level if there is none, while the level's total stays below \<open>2 ^ 64\<close> and the pool has
  room; every other order stays where it is.\<close>
theorem add_limit_order_refines:
  assumes "book_inv E b" and "level_liq px (book_view b s) + unat q < 2 ^ 64"
    and "\<not> pool_full b" and "add_limit_order s px q b = (oid, b')"
  shows "oid = next_order_id b \<and> next_order_id b' = oid + 1 \<and> book_inv E b' \<and>
    book_view b' = (book_view b)(s := sp_add (side_cmp s) px (new_aorder oid q) (book_view b s)) \<and>
    book_frame E b b'"
proof -
  from assms(1) obtain L where rel: "book_rel L E b" by (auto simp: book_inv_iff)
  from assms(4) show ?thesis by (cases rule: add_limit_ok [OF rel assms(2,3)]) auto
qed

theorem add_limit_order_refines_witness:
  "book_view (snd (add_limit_order Sell 101 7 demo_book)) Sell =
    [(101, [new_aorder 1 5, new_aorder 2 4, new_aorder 5 7]), (102, [new_aorder 3 3])]"
proof -
  have "level_liq 101 (book_view demo_book Sell) = 9" by code_simp
  then have room: "level_liq 101 (book_view demo_book Sell) + unat (7 :: u64) < 2 ^ 64" by simp
  have space: "\<not> pool_full demo_book" by code_simp
  have id: "fst (add_limit_order Sell 101 7 demo_book) = 5" by code_simp
  have "sp_add (side_cmp Sell) 101 (new_aorder 5 7) (book_view demo_book Sell) =
    [(101, [new_aorder 1 5, new_aorder 2 4, new_aorder 5 7]), (102, [new_aorder 3 3])]"
    by code_simp
  with add_limit_order_refines [OF demo_inv room space surjective_pairing] id show ?thesis by simp
qed

text \<open>A full pool is reported as id 0 and leaves the book as it was.\<close>
theorem add_limit_order_full:
  assumes "mode (pool b) = Pool" and "free_count (pool b) = 0"
  shows "add_limit_order s px q b = (0, b)"
  using assms by (intro add_limit_full) (simp add: pool_full_def free_count_def)

theorem add_limit_order_full_witness: "fst (add_limit_order Buy 5 1 (new_book 0 Pool)) = 0"
  using add_limit_order_full [of "new_book 0 Pool" Buy 5 1]
  by (simp add: new_book_def new_pool_def free_count_def)

text \<open>C6. Cancelling a resting order succeeds, removes that order and no other, drops an empty
  level, gives the slot back to the pool and makes the id unknown.\<close>
theorem cancel_order_refines:
  assumes "book_inv E b" and "find_id oid b = Some a" and "a \<notin> set E"
    and "cancel_order oid b = (ok, b')"
  shows "ok \<and> book_inv E b' \<and> book_view b' = (\<lambda>s. sp_remove oid (book_view b s)) \<and>
    find_id oid b' = None \<and> pool b' = deallocate (pool b) a \<and> book_frame E b b'"
proof -
  from assms(1) obtain L where rel: "book_rel L E b" by (auto simp: book_inv_iff)
  from assms(4) show ?thesis
    by (cases rule: cancel_resting [OF rel assms(2,3)]) (auto simp: find_id_slot)
qed

theorem cancel_order_refines_witness:
  "book_inv [] (snd (cancel_order 1 demo_book)) \<and>
   book_view (snd (cancel_order 1 demo_book)) Sell =
     [(101, [new_aorder 2 4]), (102, [new_aorder 3 3])]"
proof -
  have "sp_remove 1 (book_view demo_book Sell) = [(101, [new_aorder 2 4]), (102, [new_aorder 3 3])]"
    by code_simp
  with cancel_order_refines [OF demo_inv demo_ids(1) _ surjective_pairing] show ?thesis by simp
qed

lemma book_inv_ids:
  assumes "book_inv E b" and "i \<in> set (side_ids (book_view b s))"
  shows "0 < i" and "i < next_order_id b" and "i \<notin> set (side_ids (book_view b (opposite s)))"
proof -
  from assms(1) obtain L where rel: "book_rel L E b" by (auto simp: book_inv_iff)
  have ids: "ids_rel (mem b) (id_slots b) (next_order_id b) (live L E)"
    using rel by (simp add: book_rel_def)
  from assms(2) obtain a where a: "a \<in> set (concat (L s))" "i = order_id (mem b a)"
    by (auto simp: book_view_ids [OF rel])
  then have "a \<in> live L E" unfolding live_def set_resting [of L s] by blast
  then show "0 < i" "i < next_order_id b"
    using ids_relD(2,3) [OF ids, of a] a(2) by simp_all
  show "i \<notin> set (side_ids (book_view b (opposite s)))" by (rule book_view_other [OF rel assms(2)])
qed

text \<open>C7. Adding an order and cancelling it at once gives back the book as it was, both sides.\<close>
theorem add_cancel_roundtrip:
  assumes "book_inv E b" and "level_liq px (book_view b s) + unat q < 2 ^ 64"
    and "\<not> pool_full b" and "add_limit_order s px q b = (oid, b1)"
    and "find_id oid b1 = Some a" and "a \<notin> set E"
  shows "book_view (snd (cancel_order oid b1)) = book_view b"
proof -
  from assms(1) obtain L where rel: "book_rel L E b" by (auto simp: book_inv_iff)
  obtain b' where b': "add_limit_order s px q b = (next_order_id b, b')" "book_inv E b'"
    "book_view b' = (book_view b)(s := sp_add (side_cmp s) px
       (new_aorder (next_order_id b) q) (book_view b s))"
    by (rule add_limit_ok [OF rel assms(2,3)])
  have b1: "b1 = b'" and oid: "oid = next_order_id b" using assms(4) b'(1) by simp_all
  from b'(2) obtain L1 where rel1: "book_rel L1 E b1" by (auto simp: book_inv_iff b1)
  obtain b2 where b2: "cancel_order oid b1 = (True, b2)"
    "book_view b2 = (\<lambda>s. sp_remove oid (book_view b1 s))"
    by (rule cancel_resting [OF rel1 assms(5,6)])
  have new: "oid \<notin> set (side_ids (book_view b t))" for t
    using book_inv_ids(2) [OF assms(1), of oid t] oid by auto
  have "sp_remove oid (sp_add (side_cmp s) px (new_aorder oid q) (book_view b s)) = book_view b s"
    using sp_remove_add [of "book_view b s" "new_aorder oid q" "side_cmp s" px]
      book_inv_view(2) [OF assms(1)] new by (simp add: new_aorder_def)
  moreover have "sp_remove oid (book_view b (opposite s)) = book_view b (opposite s)"
    using book_inv_view(2) [OF assms(1)] new by (intro sp_remove_absent)
  ultimately have "book_view b2 = book_view b"
    using b2(2) b'(3) oid b1 by (intro fun_side_eqI [where s = s]) simp_all
  with b2(1) show ?thesis by simp
qed

theorem add_cancel_roundtrip_witness:
  "book_view (snd (cancel_order 5 (snd (add_limit_order Buy 98 7 demo_book)))) =
   book_view demo_book"
proof -
  have "level_liq 98 (book_view demo_book Buy) = 0" by code_simp
  then have room: "level_liq 98 (book_view demo_book Buy) + unat (7 :: u64) < 2 ^ 64" by simp
  have space: "\<not> pool_full demo_book" by code_simp
  have id: "fst (add_limit_order Buy 98 7 demo_book) = 5" by code_simp
  have found: "find_id 5 (snd (add_limit_order Buy 98 7 demo_book)) = Some 3" by code_simp
  have add: "add_limit_order Buy 98 7 demo_book = (5, snd (add_limit_order Buy 98 7 demo_book))"
    using id by (metis surjective_pairing)
  show ?thesis by (rule add_cancel_roundtrip [OF demo_inv room space add found]) simp
qed

text \<open>C8. Turning a resting order into an iceberg shows at most the display size, hides the rest
  of its original quantity and keeps its place in the queue, with the aggregate of the level
  adjusted, as long as the level's quantities stay below \<open>2 ^ 63\<close>.\<close>
theorem configure_iceberg_refines:
  assumes "book_inv E b" and "find_id oid b = Some a" and "a \<notin> set E" and "d \<noteq> 0"
    and "level_liq (price (mem b a)) (book_view b (side_of_code (oside (mem b a)))) +
      unat (qty (mem b a)) < 2 ^ 63"
    and "configure_iceberg oid d b = (ok, b')"
  shows "ok \<and> book_inv E b' \<and>
    book_view b' = (\<lambda>s. sp_update oid (\<lambda>x. x\<lparr>ao_vis := min (unat d) (ao_qty x),
      ao_disp := unat d, ao_hid := ao_qty x - unat d\<rparr>) (book_view b s)) \<and> book_frame E b b'"
proof -
  from assms(1) obtain L where rel: "book_rel L E b" by (auto simp: book_inv_iff)
  from assms(6) show ?thesis
    by (cases rule: configure_iceberg_spec [OF rel assms(2-5)])
      (auto simp: ice_def [abs_def])
qed

theorem configure_iceberg_refines_witness:
  "book_view (snd (configure_iceberg 2 1 demo_book)) Sell =
    [(101, [new_aorder 1 5, (new_aorder 2 4)\<lparr>ao_vis := 1, ao_disp := 1, ao_hid := 3\<rparr>]),
     (102, [new_aorder 3 3])]"
proof -
  have "level_liq (price (mem demo_book 6)) (book_view demo_book
      (side_of_code (oside (mem demo_book 6)))) + unat (qty (mem demo_book 6)) = 13" by code_simp
  then have room: "level_liq (price (mem demo_book 6)) (book_view demo_book
      (side_of_code (oside (mem demo_book 6)))) + unat (qty (mem demo_book 6)) < 2 ^ 63" by simp
  have "sp_update 2 (\<lambda>x. x\<lparr>ao_vis := min (unat (1 :: u64)) (ao_qty x), ao_disp := unat (1 :: u64),
      ao_hid := ao_qty x - unat (1 :: u64)\<rparr>) (book_view demo_book Sell) =
    [(101, [new_aorder 1 5, (new_aorder 2 4)\<lparr>ao_vis := 1, ao_disp := 1, ao_hid := 3\<rparr>]),
     (102, [new_aorder 3 3])]" by code_simp
  with configure_iceberg_refines [OF demo_inv demo_ids(2) _ _ room surjective_pairing]
  show ?thesis by simp
qed

text \<open>C9. Modifying the quantity at the same price keeps the order's place in the queue: an
  increase is added to what it shows, a decrease caps what it shows, and the level's
  aggregate follows.\<close>
theorem modify_order_keeps_priority:
  assumes "book_inv E b" and "find_id oid b = Some a" and "a \<notin> set E"
    and "level_liq (price (mem b a)) (book_view b (side_of_code (oside (mem b a)))) +
      unat n < 2 ^ 63" and "unat (qty (mem b a)) < 2 ^ 63"
    and "modify_order oid (price (mem b a)) n b = (ok, b')"
  shows "ok \<and> book_inv E b' \<and> next_order_id b' = next_order_id b \<and>
    book_view b' = (\<lambda>s. sp_update oid (\<lambda>x. x\<lparr>ao_qty := unat n,
      ao_vis := (if ao_qty x \<le> unat n then ao_vis x + (unat n - ao_qty x)
                 else min (ao_vis x) (unat n))\<rparr>) (book_view b s)) \<and> book_frame E b b'"
proof -
  from assms(1) obtain L where rel: "book_rel L E b" by (auto simp: book_inv_iff)
  from assms(6) show ?thesis
    by (cases rule: modify_same_price [OF rel assms(2-5)])
      (auto simp: resize_def [abs_def])
qed

theorem modify_order_keeps_priority_witness:
  "book_view (snd (modify_order 1 101 2 demo_book)) Sell =
    [(101, [new_aorder 1 2, new_aorder 2 4]), (102, [new_aorder 3 3])]"
proof -
  have px: "price (mem demo_book 7) = 101" and q: "unat (qty (mem demo_book 7)) = 5"
    by code_simp+
  have "level_liq (price (mem demo_book 7)) (book_view demo_book
      (side_of_code (oside (mem demo_book 7)))) + unat (2 :: u64) = 11" by code_simp
  then have room: "level_liq (price (mem demo_book 7)) (book_view demo_book
      (side_of_code (oside (mem demo_book 7)))) + unat (2 :: u64) < 2 ^ 63" by simp
  have small: "unat (qty (mem demo_book 7)) < 2 ^ 63" using q by simp
  have "sp_update 1 (\<lambda>x. x\<lparr>ao_qty := unat (2 :: u64), ao_vis := (if ao_qty x \<le> unat (2 :: u64)
      then ao_vis x + (unat (2 :: u64) - ao_qty x) else min (ao_vis x) (unat (2 :: u64)))\<rparr>)
      (book_view demo_book Sell) =
    [(101, [new_aorder 1 2, new_aorder 2 4]), (102, [new_aorder 3 3])]" by code_simp
  with modify_order_keeps_priority [OF demo_inv demo_ids(1) _ room small, unfolded px,
      OF _ surjective_pairing]
  show ?thesis by simp
qed

text \<open>C10. Modifying the price is a cancel and a new limit order: the order leaves its queue and
  joins the end of the queue at the new price on the same side, under the next id, with the
  new quantity and no iceberg; the pool cannot be full at that point.\<close>
theorem modify_order_moves:
  assumes "book_inv E b" and "find_id oid b = Some a" and "a \<notin> set E"
    and "px \<noteq> price (mem b a)" and "s = side_of_code (oside (mem b a))"
    and "level_liq px (book_view b s) + unat n < 2 ^ 64"
    and "modify_order oid px n b = (ok, b')"
  shows "ok \<and> book_inv E b' \<and> next_order_id b' = next_order_id b + 1 \<and>
    book_view b' = (\<lambda>t. sp_remove oid (book_view b t))(s := sp_add (side_cmp s) px
      (new_aorder (next_order_id b) n) (sp_remove oid (book_view b s))) \<and> book_frame E b b'"
proof -
  from assms(1) obtain L where rel: "book_rel L E b" by (auto simp: book_inv_iff)
  from assms(7) show ?thesis by (cases rule: modify_new_price [OF rel assms(2-6)]) auto
qed

theorem modify_order_moves_witness:
  "book_view (snd (modify_order 1 102 2 demo_book)) Sell =
    [(101, [new_aorder 2 4]), (102, [new_aorder 3 3, new_aorder 5 2])]"
proof -
  have px: "102 \<noteq> price (mem demo_book 7)" and s: "Sell = side_of_code (oside (mem demo_book 7))"
    by code_simp+
  have "level_liq 102 (book_view demo_book Sell) = 3" by code_simp
  then have room: "level_liq 102 (book_view demo_book Sell) + unat (2 :: u64) < 2 ^ 64" by simp
  have "sp_add (side_cmp Sell) 102 (new_aorder (next_order_id demo_book) 2)
      (sp_remove 1 (book_view demo_book Sell)) =
    [(101, [new_aorder 2 4]), (102, [new_aorder 3 3, new_aorder 5 2])]" by code_simp
  with modify_order_moves [OF demo_inv demo_ids(1) _ px s room surjective_pairing]
  show ?thesis by simp
qed

text \<open>C11. A fill by id takes the smaller of the request and what the order shows; the order is
  reduced in place, or done and unlinked, or replenished at the back of its level, and the
  invariant is kept.\<close>
theorem apply_fill_refines:
  assumes "book_inv E b" and "find_id oid b = Some a" and "a \<notin> set E"
    and "apply_fill oid w b = (t, b')"
  shows "t = min w (remaining_qty (mem b a)) \<and> book_inv E b' \<and>
    book_view b' = (\<lambda>s. sp_fill oid (unat t) (book_view b s)) \<and> book_frame E b b'"
proof -
  from assms(1) obtain L where rel: "book_rel L E b" by (auto simp: book_inv_iff)
  from assms(4) show ?thesis by (cases rule: apply_fill_spec [OF rel assms(2,3), of w]) auto
qed

theorem apply_fill_refines_witness:
  "fst (apply_fill 2 9 demo_book) = 4 \<and>
   book_view (snd (apply_fill 2 9 demo_book)) Sell =
     [(101, [new_aorder 1 5]), (102, [new_aorder 3 3])]"
proof -
  have r: "remaining_qty (mem demo_book 6) = 4" by code_simp
  have "sp_fill 2 4 (book_view demo_book Sell) = [(101, [new_aorder 1 5]), (102, [new_aorder 3 3])]"
    by code_simp
  with apply_fill_refines [OF demo_inv demo_ids(2) _ surjective_pairing, of 9] r
  show ?thesis by (simp add: min_def)
qed

text \<open>Every operation by id reports an unknown id, with the book as it was.\<close>
theorem unknown_id_rejected:
  assumes "find_id oid b = None"
  shows "cancel_order oid b = (False, b) \<and> configure_iceberg oid d b = (False, b) \<and>
    modify_order oid px q b = (False, b) \<and> apply_fill oid q b = (0, b) \<and>
    get_order oid b = None"
  using assms
  by (simp add: cancel_unknown configure_iceberg_unknown modify_unknown apply_fill_unknown
      get_order_def)

theorem unknown_id_rejected_witness: "cancel_order 9 demo_book = (False, demo_book)"
  using unknown_id_rejected [OF demo_ids(5)] by blast

subsection \<open>Ids, slots and quotes\<close>

lemma id_table:
  assumes "book_inv E b"
  shows "(find_id oid b \<noteq> None \<longleftrightarrow>
      oid \<in> set (side_ids (book_view b Buy)) \<union> set (side_ids (book_view b Sell)) \<union>
        (\<lambda>a. order_id (mem b a)) ` set E) \<and>
    (\<forall>a. find_id oid b = Some a \<longrightarrow> order_id (mem b a) = oid)"
proof -
  from assms obtain L where rel: "book_rel L E b" by (auto simp: book_inv_iff)
  have "find_id oid b \<noteq> None \<longleftrightarrow> (\<exists>a \<in> live L E. order_id (mem b a) = oid)"
  proof
    assume "find_id oid b \<noteq> None"
    then obtain a where "find_id oid b = Some a" by blast
    from find_id_live [OF rel this] show "\<exists>a \<in> live L E. order_id (mem b a) = oid" by blast
  next
    assume "\<exists>a \<in> live L E. order_id (mem b a) = oid"
    then obtain a where "a \<in> live L E" "order_id (mem b a) = oid" by blast
    with find_id_Some [OF rel, of a] show "find_id oid b \<noteq> None" by simp
  qed
  also have "\<dots> \<longleftrightarrow> oid \<in> (\<lambda>a. order_id (mem b a)) ` live L E" by auto
  also have "(\<lambda>a. order_id (mem b a)) ` live L E = set (side_ids (book_view b Buy)) \<union>
      set (side_ids (book_view b Sell)) \<union> (\<lambda>a. order_id (mem b a)) ` set E"
    by (simp only: book_view_ids [OF rel] live_def resting_def set_append set_map image_Un)
  finally show ?thesis using find_id_live(2) [OF rel] by blast
qed

text \<open>
  The calls a client can make on a book, in any order, and the books they lead to. \<open>P\<close> are the ids of
  the stops that wait. A call by id does not name one of them (for a cancel see
  \<open>cancel_pending_dangles\<close>), and quantities leave room for the sums of a level.
\<close>

inductive book_calls :: "nat set \<Rightarrow> order_book \<Rightarrow> bool" where
  new: "book_calls {} (new_book n m)"
| add: "book_calls P b \<Longrightarrow> level_liq px (book_view b s) + unat q < 2 ^ 64 \<Longrightarrow>
    book_calls P (snd (add_limit_order s px q b))"
| cancel: "book_calls P b \<Longrightarrow> oid \<notin> P \<Longrightarrow> book_calls P (snd (cancel_order oid b))"
| modify: "book_calls P b \<Longrightarrow> oid \<notin> P \<Longrightarrow>
    (\<And>a. find_id oid b = Some a \<Longrightarrow> unat (qty (mem b a)) < 2 ^ 63 \<and>
       level_liq px (book_view b (side_of_code (oside (mem b a)))) + unat n < 2 ^ 63) \<Longrightarrow>
    book_calls P (snd (modify_order oid px n b))"
| iceberg: "book_calls P b \<Longrightarrow> oid \<notin> P \<Longrightarrow>
    (\<And>a. find_id oid b = Some a \<Longrightarrow> level_liq (price (mem b a))
       (book_view b (side_of_code (oside (mem b a)))) + unat (qty (mem b a)) < 2 ^ 63) \<Longrightarrow>
    book_calls P (snd (configure_iceberg oid d b))"
| fill: "book_calls P b \<Longrightarrow> oid \<notin> P \<Longrightarrow> book_calls P (snd (apply_fill oid w b))"
| market: "book_calls P b \<Longrightarrow> market_order s q b = Some (fs, b') \<Longrightarrow> book_calls P b'"
| stop: "book_calls P b \<Longrightarrow> add_pending_stop s stop_px q st px d b = (oid, b') \<Longrightarrow>
    book_calls (if oid = 0 then P else insert oid P) b'"
| trigger: "book_calls P b \<Longrightarrow> oid \<in> P \<Longrightarrow> detach_pending oid b = (p, b') \<Longrightarrow>
    book_calls (P - {oid}) (free_order p b')"
| take: "book_calls P b \<Longrightarrow> book_calls P (snd (take_pending_stops b))"

definition waiting :: "nat set \<Rightarrow> addr list \<Rightarrow> order_book \<Rightarrow> bool" where
  "waiting P E b \<longleftrightarrow> book_inv E b \<and> P = (\<lambda>a. order_id (mem b a)) ` set E"

lemma waiting_frame: "waiting P E b \<Longrightarrow> book_inv E b' \<Longrightarrow> book_frame E b b' \<Longrightarrow> waiting P E b'"
  by (auto simp: waiting_def book_frame_def)

text \<open>A call by id either finds nothing, or an order that is not waiting.\<close>

lemma waiting_by_id:
  assumes w: "waiting P E b" and new: "oid \<notin> P"
    and unknown: "find_id oid b = None \<Longrightarrow> f b = b"
    and known: "\<And>L a. book_rel L E b \<Longrightarrow> find_id oid b = Some a \<Longrightarrow> a \<notin> set E \<Longrightarrow>
      book_inv E (f b) \<and> book_frame E b (f b)"
  shows "waiting P E (f b)"
proof (cases "find_id oid b")
  case None
  then show ?thesis using w unknown by simp
next
  case (Some a)
  from w obtain L where rel: "book_rel L E b" by (auto simp: waiting_def book_inv_iff)
  have "order_id (mem b a) = oid" using find_id_live(2) [OF rel Some] by simp
  then have "a \<notin> set E" using new w by (auto simp: waiting_def)
  from known [OF rel Some this] show ?thesis using waiting_frame [OF w] by blast
qed

lemma book_calls_waiting: "book_calls P b \<Longrightarrow> \<exists>E. waiting P E b"
proof (induction rule: book_calls.induct)
  case (new n m)
  show ?case by (intro exI [of _ "[]"]) (simp add: waiting_def new_book_inv)
next
  case (add P b px s q)
  then obtain E where w: "waiting P E b" by blast
  then obtain L where rel: "book_rel L E b" by (auto simp: waiting_def book_inv_iff)
  show ?case
  proof (cases "pool_full b")
    case True
    then show ?thesis using w by (auto simp: add_limit_full)
  next
    case False
    from add_limit_ok [OF rel add.hyps(2) False] obtain b' where
      "add_limit_order s px q b = (next_order_id b, b')" "book_inv E b'" "book_frame E b b'" by blast
    then show ?thesis using waiting_frame [OF w] by auto
  qed
next
  case (cancel P b oid)
  then obtain E where w: "waiting P E b" by blast
  have "waiting P E (snd (cancel_order oid b))"
  proof (rule waiting_by_id [where f = "\<lambda>b. snd (cancel_order oid b)", OF w cancel.hyps(2)])
    fix L a assume "book_rel L E b" "find_id oid b = Some a" "a \<notin> set E"
    from cancel_resting [OF this] obtain b' where
      "cancel_order oid b = (True, b')" "book_inv E b'" "book_frame E b b'" by blast
    then show "book_inv E (snd (cancel_order oid b)) \<and> book_frame E b (snd (cancel_order oid b))" by simp
  qed (simp add: cancel_unknown)
  then show ?case by blast
next
  case (modify P b oid px n)
  then obtain E where w: "waiting P E b" by blast
  have "waiting P E (snd (modify_order oid px n b))"
  proof (rule waiting_by_id [where f = "\<lambda>b. snd (modify_order oid px n b)", OF w modify.hyps(2)])
    fix L a assume a: "book_rel L E b" "find_id oid b = Some a" "a \<notin> set E"
    from modify.hyps(3) [OF a(2)] have room: "unat (qty (mem b a)) < 2 ^ 63"
      "level_liq px (book_view b (side_of_code (oside (mem b a)))) + unat n < 2 ^ 63" by blast+
    show "book_inv E (snd (modify_order oid px n b)) \<and> book_frame E b (snd (modify_order oid px n b))"
    proof (cases "px = price (mem b a)")
      case True
      from modify_same_price [OF a room(2) [unfolded True] room(1)] obtain b' where
        "modify_order oid (price (mem b a)) n b = (True, b')" "book_inv E b'" "book_frame E b b'" by blast
      then show ?thesis by (simp add: True)
    next
      case False
      have "level_liq px (book_view b (side_of_code (oside (mem b a)))) + unat n < 2 ^ 64" using room(2) by simp
      from modify_new_price [OF a False refl this] obtain b' where
        "modify_order oid px n b = (True, b')" "book_inv E b'" "book_frame E b b'" by blast
      then show ?thesis by simp
    qed
  qed (simp add: modify_unknown)
  then show ?case by blast
next
  case (iceberg P b oid d)
  then obtain E where w: "waiting P E b" by blast
  have "waiting P E (snd (configure_iceberg oid d b))"
  proof (rule waiting_by_id [where f = "\<lambda>b. snd (configure_iceberg oid d b)", OF w iceberg.hyps(2)])
    fix L a assume a: "book_rel L E b" "find_id oid b = Some a" "a \<notin> set E"
    show "book_inv E (snd (configure_iceberg oid d b)) \<and> book_frame E b (snd (configure_iceberg oid d b))"
    proof (cases "d = 0")
      case True
      then show ?thesis using w by (simp add: configure_iceberg_unknown waiting_def book_frame_refl)
    next
      case False
      from configure_iceberg_spec [OF a False iceberg.hyps(3) [OF a(2)]] obtain b' where
        "configure_iceberg oid d b = (True, b')" "book_inv E b'" "book_frame E b b'" by blast
      then show ?thesis by simp
    qed
  qed (simp add: configure_iceberg_unknown)
  then show ?case by blast
next
  case (fill P b oid w)
  then obtain E where wt: "waiting P E b" by blast
  have "waiting P E (snd (apply_fill oid w b))"
  proof (rule waiting_by_id [where f = "\<lambda>b. snd (apply_fill oid w b)", OF wt fill.hyps(2)])
    fix L a assume "book_rel L E b" "find_id oid b = Some a" "a \<notin> set E"
    from apply_fill_spec [OF this, of w] obtain t b' where
      "apply_fill oid w b = (t, b')" "book_inv E b'" "book_frame E b b'" by blast
    then show "book_inv E (snd (apply_fill oid w b)) \<and> book_frame E b (snd (apply_fill oid w b))" by simp
  qed (simp add: apply_fill_unknown)
  then show ?case by blast
next
  case (market P b s q fs b')
  then obtain E where w: "waiting P E b" by blast
  then have "book_inv E b" by (simp add: waiting_def)
  from market_order_match(2,4) [OF this market.hyps(2)] waiting_frame [OF w] show ?case by blast
next
  case (stop P b s stop_px q st px d oid b')
  then obtain E where w: "waiting P E b" by blast
  then obtain L where rel: "book_rel L E b" by (auto simp: waiting_def book_inv_iff)
  show ?case
  proof (cases "pool_full b")
    case True
    then show ?thesis using w stop.hyps(2) by (auto simp: add_pending_full)
  next
    case False
    from add_pending_ok [OF rel False, of s stop_px q st px d] obtain a b1 where
      b1: "add_pending_stop s stop_px q st px d b = (next_order_id b, b1)" "a \<notin> live L E" "book_rel L (a # E) b1"
      "mem b1 = (mem b)(a := stop_order (next_order_id b) s stop_px q st px d)" by blast
    have "0 < next_order_id b" using rel ids_relD(3) [of "mem b"] unfolding book_rel_def by fastforce
    moreover have "a \<notin> set E" using b1(2) by (simp add: live_def)
    then have "(\<lambda>c. order_id (mem b1 c)) ` set (a # E) = insert (next_order_id b) P"
      using w by (auto simp: b1(4) waiting_def stop_order_def)
    ultimately show ?thesis using b1(1,3) stop.hyps(2)
      by (intro exI [of _ "a # E"]) (auto simp: waiting_def book_inv_iff)
  qed
next
  case (trigger P b oid p b')
  then obtain E where w: "waiting P E b" by blast
  then obtain L where rel: "book_rel L E b" by (auto simp: waiting_def book_inv_iff)
  from w trigger.hyps(2) obtain a where a: "a \<in> set E" "order_id (mem b a) = oid" by (auto simp: waiting_def)
  from detach_free_ok [OF rel a(1)] obtain b1 b2 where b2: "detach_pending oid b = (Some a, b1)"
    "b2 = free_order (Some a) b1" "book_rel L (remove1 a E) b2" "mem b2 = mem b" unfolding a(2) by blast
  have ids: "ids_rel (mem b) (id_slots b) (next_order_id b) (live L E)" and dist: "distinct E"
    using rel by (simp_all add: book_rel_def)
  have uniq: "c = a" if "c \<in> set E" "order_id (mem b c) = oid" for c
    using ids_relD(4) [OF ids, of a c] a that by (simp add: live_def)
  have P: "P = (\<lambda>c. order_id (mem b c)) ` set E" using w by (simp add: waiting_def)
  have "(\<lambda>c. order_id (mem b2 c)) ` set (remove1 a E) = P - {oid}"
    unfolding b2(4) set_remove1_eq [OF dist] P using a(2) uniq by blast
  then show ?case using b2(1-3) trigger.hyps(3)
    by (intro exI [of _ "remove1 a E"]) (auto simp: waiting_def book_inv_iff)
next
  case (take P b)
  then obtain E where w: "waiting P E b" by blast
  then obtain L where "book_rel L E b" by (auto simp: waiting_def book_inv_iff)
  from take_pending_ok [OF this] w show ?case
    by (intro exI [of _ E]) (auto simp: waiting_def book_inv_iff take_pending_stops_def)
qed

lemma id_fresh: "book_inv E b \<Longrightarrow> find_id (next_order_id b) b = None"
proof (rule ccontr)
  assume "book_inv E b" and "find_id (next_order_id b) b \<noteq> None"
  then obtain L a where rel: "book_rel L E b" and a: "find_id (next_order_id b) b = Some a"
    by (auto simp: book_inv_iff)
  have "order_id (mem b a) < next_order_id b"
    using rel ids_relD(3) [of "mem b" "id_slots b" "next_order_id b" "live L E" a] by (simp add: book_rel_def)
  with find_id_live(2) [OF rel a] show False by simp
qed


lemma book_calls_add_small:
  assumes "book_calls P b" and "level_liq px (book_view b s) + unat q < 100"
  shows "book_calls P (snd (add_limit_order s px q b))"
proof -
  have "level_liq px (book_view b s) + unat q < 2 ^ 64" using assms(2) by (rule less_trans) simp
  then show ?thesis by (rule book_calls.add [OF assms(1)])
qed


lemma length_view_ids: "book_rel L E b \<Longrightarrow> length (side_ids (book_view b s)) = length (concat (L s))"
  by (simp only: book_view_ids length_map)

lemma slots_count:
  assumes "book_inv E b" and "mode (pool b) = Pool"
  shows "free_count (pool b) + length (side_ids (book_view b Buy)) +
    length (side_ids (book_view b Sell)) + length E = capacity (pool b)"
proof -
  from assms(1) obtain L where rel: "book_rel L E b" by (auto simp: book_inv_iff)
  have "distinct (resting L @ E)" using rel by (simp add: book_rel_def)
  then have "card (live L E) = length (resting L @ E)"
    unfolding live_def set_append [symmetric] by (rule distinct_card)
  moreover have "free_count (pool b) + card (live L E) = capacity (pool b)"
    using rel assms(2) by (intro pool_inv_count) (simp_all add: book_rel_def)
  ultimately show ?thesis by (simp add: length_view_ids [OF rel] resting_def)
qed

text \<open>No slot is lost or handed out twice: the free slots, the orders resting on both sides
  and the pending stops always add up to the capacity of the pool.\<close>
theorem slots_conserved:
  assumes "book_inv E b" and "mode (pool b) = Pool"
  shows "free_count (pool b) + length (side_ids (book_view b Buy)) +
    length (side_ids (book_view b Sell)) + length E = capacity (pool b)"
  by (rule slots_count [OF assms])

theorem slots_conserved_witness: "free_count (pool demo_book) + 1 + 3 + 0 = 8"
proof -
  have "mode (pool demo_book) = Pool" by code_simp
  moreover have "length (side_ids (book_view demo_book Buy)) = 1"
    "length (side_ids (book_view demo_book Sell)) = 3" "capacity (pool demo_book) = 8"
    by code_simp+
  ultimately show ?thesis using slots_conserved [OF demo_inv] by simp
qed

text \<open>C13. The destructor returns every order to the pool: afterwards all slots are free.\<close>
theorem destroy_returns_all:
  assumes "book_inv E b" and "mode (pool b) = Pool"
  shows "free_count (pool (destroy_book b)) = capacity (pool b)"
proof -
  from assms(1) obtain L where rel: "book_rel L E b" by (auto simp: book_inv_iff)
  have fold: "mode (fold (\<lambda>a p. deallocate p a) as p) = mode p"
    "capacity (fold (\<lambda>a p. deallocate p a) as p) = capacity p" for as p
    by (induction as arbitrary: p) simp_all
  have m: "mode (pool (destroy_book b)) = Pool" "capacity (pool (destroy_book b)) = capacity (pool b)"
    using assms(2) by (simp_all add: destroy_book_def dealloc_fold fold)
  show ?thesis using pool_inv_count [OF destroy_ok [OF rel] m(1)] m(2) by simp
qed

theorem destroy_returns_all_witness: "free_count (pool (destroy_book demo_book)) = 8"
proof -
  have "mode (pool demo_book) = Pool" "capacity (pool demo_book) = 8" by code_simp+
  then show ?thesis using destroy_returns_all [OF demo_inv] by simp
qed

text \<open>\<open>get_level_orders\<close> always returns, and returns the orders of the level in queue order,
  or nothing when there is no level at that price.\<close>
theorem get_level_orders_queue:
  assumes "book_inv E b"
  shows "\<exists>as. get_level_orders s px b = Some as \<and> distinct as \<and>
    map (\<lambda>a. abs_order (mem b a)) as =
      (case map_of (book_view b s) px of None \<Rightarrow> [] | Some xs \<Rightarrow> xs)"
proof -
  from assms obtain L where rel: "book_rel L E b" by (auto simp: book_inv_iff)
  show ?thesis
    by (rule get_level_orders_spec [OF rel, of s px])
      (auto simp: abs_level_def level_queue_def)
qed

theorem get_level_orders_queue_witness:
  "get_level_orders Sell 101 demo_book = Some [7, 6] \<and>
   map (\<lambda>a. abs_order (mem demo_book a)) [7, 6] = [new_aorder 1 5, new_aorder 2 4]"
proof -
  have "get_level_orders Sell 101 demo_book = Some [7, 6]" by code_simp
  moreover have "map_of (book_view demo_book Sell) 101 = Some [new_aorder 1 5, new_aorder 2 4]"
    by code_simp
  ultimately show ?thesis using get_level_orders_queue [OF demo_inv, of Sell 101] by simp
qed

lemma sorted_first:
  "side_sorted cmp ((p, xs) # ls) \<Longrightarrow> l \<in> set ls \<Longrightarrow> cmp p (fst l)"
  by (auto simp: side_sorted_def)

lemma quotes_are_best:
  assumes "book_inv E b"
  shows "(best_bid b = None \<longleftrightarrow> book_view b Buy = []) \<and> (best_ask b = None \<longleftrightarrow> book_view b Sell = []) \<and>
    (\<forall>p. best_bid b = Some p \<longrightarrow> (\<exists>xs ls. book_view b Buy = (p, xs) # ls \<and>
      unat (best_bid_qty b) = sum_list (map ao_vis xs) \<and> (\<forall>l \<in> set ls. fst l <s p))) \<and>
    (\<forall>p. best_ask b = Some p \<longrightarrow> (\<exists>xs ls. book_view b Sell = (p, xs) # ls \<and>
      unat (best_ask_qty b) = sum_list (map ao_vis xs) \<and> (\<forall>l \<in> set ls. p <s fst l)))"
proof -
  from assms obtain L where rel: "book_rel L E b" by (auto simp: book_inv_iff)
  define top where "top s = (case ladder s b of [] \<Rightarrow> 0 | nd # _ \<Rightarrow> lv_agg (nd_level nd))" for s
  have side: "(best s b = None \<longleftrightarrow> book_view b s = []) \<and>
    (\<forall>p. best s b = Some p \<longrightarrow> (\<exists>xs ls. book_view b s = (p, xs) # ls \<and>
      unat (top s) = sum_list (map ao_vis xs) \<and> (\<forall>l \<in> set ls. side_cmp s p (fst l))))" for s
  proof (cases "ladder s b")
    case Nil
    then show ?thesis by (simp add: best_def book_view_rel [OF rel] view_of_def)
  next
    case (Cons nd vs)
    from book_rel_nodes [OF rel, of s] Cons obtain as ys where L: "L s = as # ys"
      and node: "node_rel s (mem b) nd as" by (auto simp: list_all2_Cons1)
    have view: "book_view b s = (nd_price nd, abs_level (mem b) as) # view_of (mem b) vs ys"
      by (simp add: book_view_rel [OF rel] Cons L)
    have "\<forall>l \<in> set (view_of (mem b) vs ys). side_cmp s (nd_price nd) (fst l)"
      using sorted_first book_inv_view(3) [OF assms, of s] unfolding view by blast
    with view level_agg_view [OF node] show ?thesis by (simp add: best_def top_def Cons)
  qed
  have "best_bid_qty b = top Buy" "best_ask_qty b = top Sell"
    by (simp_all add: best_bid_qty_def best_ask_qty_def top_def ladder_def)
  then show ?thesis
    using side [of Buy] side [of Sell] unfolding best_sides
    by (simp add: side_cmp_def bid_cmp_def ask_cmp_def)
qed

text \<open>The quotes: no best price exactly when the side is empty, else the highest bid or the
  lowest ask, and the quoted quantity is what the orders at that price show.\<close>
theorem best_quotes:
  assumes "book_inv E b"
  shows "(best_bid b = None \<longleftrightarrow> book_view b Buy = []) \<and> (best_ask b = None \<longleftrightarrow> book_view b Sell = []) \<and>
    (\<forall>p. best_bid b = Some p \<longrightarrow> (\<exists>xs ls. book_view b Buy = (p, xs) # ls \<and>
      unat (best_bid_qty b) = sum_list (map ao_vis xs) \<and> (\<forall>l \<in> set ls. fst l <s p))) \<and>
    (\<forall>p. best_ask b = Some p \<longrightarrow> (\<exists>xs ls. book_view b Sell = (p, xs) # ls \<and>
      unat (best_ask_qty b) = sum_list (map ao_vis xs) \<and> (\<forall>l \<in> set ls. p <s fst l)))"
  by (rule quotes_are_best [OF assms])

theorem best_quotes_witness: "best_bid demo_book = Some 99 \<and> unat (best_bid_qty demo_book) = 6"
proof -
  have "best_bid demo_book = Some 99" by code_simp
  moreover have "book_view demo_book Buy = [(99, [new_aorder 4 6])]" by code_simp
  ultimately show ?thesis using best_quotes [OF demo_inv] by (simp add: new_aorder_def)
qed

subsection \<open>Cancelling a pending stop\<close>

text \<open>Cancelling a pending stop frees its order but leaves the pointer in the list of pending
  stops: the list then refers to a free slot.\<close>
theorem cancel_pending_dangles:
  assumes "find_id oid b = Some a" and "a \<in> set (pending_stop_storage b)"
    and "mode (pool b) = Pool" and "cancel_order oid b = (ok, b')"
  shows "ok \<and> a \<in> set (pending_stop_storage b') \<and> a \<in> set (freelist (pool b'))"
proof -
  define b1 where "b1 = (case find_level (side_of_code (oside (mem b a))) (price (mem b a)) b of
      None \<Rightarrow> b | Some i \<Rightarrow> unlink_order (side_of_code (oside (mem b a))) i a b)"
  have "pool b1 = pool b" "pending_stop_storage b1 = pending_stop_storage b"
    by (auto simp: b1_def unlink_order_def Let_def split: option.splits prod.splits)
  moreover have "b' = dealloc a (drop_id oid b1)" "ok"
    using assms(1,4) by (simp_all add: cancel_order_def Let_def b1_def)
  ultimately show ?thesis using assms(2,3) by (simp add: deallocate_def)
qed

definition stop_book :: order_book where
  "stop_book = snd (add_pending_stop Buy 105 4 2 100 0
     (snd (add_limit_order Buy 100 5 (new_book 8 Pool))))"

theorem cancel_pending_dangles_witness:
  "6 \<in> set (pending_stop_storage (snd (cancel_order 2 stop_book)))"
proof -
  have 1: "find_id 2 stop_book = Some 6" by code_simp
  have 2: "6 \<in> set (pending_stop_storage stop_book)" by code_simp
  have 3: "mode (pool stop_book) = Pool" by code_simp
  show ?thesis using cancel_pending_dangles [OF 1 2 3 surjective_pairing] by blast
qed

text \<open>Cancelling a pending stop-limit order whose limit price has a level unlinks it from a
  list it is not on: here the level disappears from the book although a limit order still
  rests there, which no query by price finds again and whose id is still known.\<close>
theorem cancel_pending_corrupts_level:
  "let b = snd (cancel_order 2 stop_book)
   in book_view stop_book Buy = [(100, [new_aorder 1 5])] \<and> bids b = [] \<and> best_bid b = None \<and>
      get_level_orders Buy 100 b = Some [] \<and> find_id 1 b = Some 7 \<and>
      order_id (mem b 7) = 1 \<and> remaining_qty (mem b 7) = 5"
proof -
  have none: "find_level Buy 100 (snd (cancel_order 2 stop_book)) = None" by code_simp
  have "get_level_orders Buy 100 (snd (cancel_order 2 stop_book)) = Some []"
    by (simp add: get_level_orders_def none)
  moreover have "book_view stop_book Buy = [(100, [new_aorder 1 5])]"
    "bids (snd (cancel_order 2 stop_book)) = []" "best_bid (snd (cancel_order 2 stop_book)) = None"
    "find_id 1 (snd (cancel_order 2 stop_book)) = Some 7"
    "order_id (mem (snd (cancel_order 2 stop_book)) 7) = 1"
    "remaining_qty (mem (snd (cancel_order 2 stop_book)) 7) = 5"
    by code_simp+
  ultimately show ?thesis by (simp add: Let_def)
qed

end
