(* ===== verification/Engine_Properties.thy ===== *)
theory Engine_Properties
  imports Pro_Rata Book_Properties
begin

section \<open>The properties of the matching engine\<close>

text \<open>
  The statements about \<open>MatchingEngine\<close> and its policies, for both policies of the program
  at once where they do not differ, with examples on concrete engines.
\<close>

interpretation any: matching_policy "policy_match p" for p
  by (rule policy_match_ok)

text \<open>An engine over the demo book, and one with a buy stop at 102 on top.\<close>

definition demo_engine :: engine where
  "demo_engine = new_engine demo_book"

definition stop_engine :: engine where
  "stop_engine = snd (submit_stop Buy 102 2 StopMarket 0 0 demo_engine)"

lemma demo_engine_inv: "engine_inv [] demo_engine"
proof -
  have "mode (pool demo_book) = Pool" "book_liq demo_book = 18" by code_simp+
  then show ?thesis
    by (simp add: engine_rel_def demo_engine_def new_engine_def demo_inv stop_qty_def)
qed

lemma stop_engine_inv: "engine_inv [3] stop_engine"
proof -
  have space: "\<not> pool_full (book demo_engine)" by code_simp
  have "book_liq (book demo_engine) = 18" by code_simp
  then have room: "book_liq (book demo_engine) + 2 * stop_qty [] (book demo_engine) +
      2 * unat (2 :: u64) < 2 ^ 63" by (simp add: stop_qty_def)
  obtain a e where s: "submit_stop Buy 102 2 StopMarket 0 0 demo_engine =
      (next_order_id (book demo_engine), e)" "engine_inv [a] e"
    "pending_stops e = pending_stops demo_engine @ [a]"
    by (rule submit_stop_ok [OF demo_engine_inv space stop_kind.distinct(2) room,
      where s = Buy and stop_px = 102 and px = 0 and d = 0]) blast
  have "pending_stops (snd (submit_stop Buy 102 2 StopMarket 0 0 demo_engine)) = [3]" by code_simp
  then have "a = 3" using s by (simp add: demo_engine_def new_engine_def)
  then show ?thesis using s by (simp add: stop_engine_def)
qed

subsection \<open>Market submissions and stops\<close>

text \<open>C14. Submitting a market order always returns, whatever cascade of stops it sets off, and
  with either policy: with \<open>k\<close> pending stops and \<open>n\<close> queue entries, \<open>(k + 1) * (n + 1)\<close>
  rounds of fuel are enough. The engine stays well formed, so every stop still pending is
  still queued and none is new, and the fills are at most the quantity submitted.\<close>
theorem submit_market_total:
  assumes "engine_inv E e" and "Suc (length E) * Suc (queued e) \<le> n"
  shows "\<exists>gs e' E'. submit_market n (policy_match p) s q e = Some (gs, e') \<and> engine_inv E' e' \<and>
    set E' \<subseteq> set E \<and> set E' \<subseteq> set (pending_stops e') \<union> set (pending_stop_storage (book e')) \<and>
    sum_list (map (\<lambda>f. unat (fill_qty f)) gs) \<le> unat q"
proof -
  obtain gs e' E' where "submit_market n (policy_match p) s q e = Some (gs, e')"
    "engine_inv E' e'" "set E' \<subseteq> set E" "fills_total gs \<le> unat q"
    using any.submit_market_ok [OF assms] by blast
  then show ?thesis using engine_relD(4) [of E' "{}" e'] unfolding fills_total_def by auto
qed

theorem submit_market_total_witness:
  "\<exists>gs e'. submit_market 6 (policy_match FIFOStack) Buy 10 stop_engine = Some (gs, e') \<and>
    book_view (book e') Sell = []"
proof -
  have "queued stop_engine = 2" by code_simp
  then have "Suc (length [3 :: addr]) * Suc (queued stop_engine) \<le> 6" by simp
  from submit_market_total [OF stop_engine_inv this, of FIFOStack Buy 10] obtain gs e' where
    "submit_market 6 (policy_match FIFOStack) Buy 10 stop_engine = Some (gs, e')" by blast
  moreover have "book_view (book (snd (the (submit_market 6 (policy_match FIFOStack) Buy 10
      stop_engine)))) Sell = []" by code_simp
  ultimately show ?thesis by simp
qed

text \<open>C15. A limit order submitted to the engine joins the book; with a display size it shows that
  much and hides the rest, at the end of the queue of its price. The pending stops are as
  before.\<close>
theorem submit_limit_refines:
  assumes "engine_inv E e" and "\<not> pool_full (book e)"
    and "book_liq (book e) + 2 * stop_qty E (book e) + 2 * unat q < 2 ^ 63"
    and "submit_limit s px q d e = (oid, e')"
  shows "oid = next_order_id (book e) \<and> engine_inv E e' \<and> pending_stops e' = pending_stops e \<and>
    book_view (book e') = (\<lambda>t. if t = s
      then sp_update oid (\<lambda>x. if d = 0 then x else x\<lparr>ao_vis := min (unat d) (ao_qty x),
             ao_disp := unat d, ao_hid := ao_qty x - unat d\<rparr>)
           (sp_add (side_cmp s) px (new_aorder oid q) (book_view (book e) s))
      else book_view (book e) t)"
proof -
  obtain e1 where r: "submit_limit s px q d e = (next_order_id (book e), e1)" "engine_inv E e1"
    "pending_stops e1 = pending_stops e"
    "book_view (book e1) = limit_view s px q d (book e)"
    by (rule submit_limit_ok [OF assms(1-3)]) blast
  have e1: "e1 = e'" "oid = next_order_id (book e)" using r(1) assms(4) by simp_all
  have same: "sp_update oid (\<lambda>x. x) ls = ls" for ls by (simp add: sp_update_def case_prod_beta map_idI)
  have other: "sp_update oid f (book_view (book e) t) = book_view (book e) t" for f t
    using book_inv_ids(2) [OF engine_relD(1) [OF assms(1)], of oid t] e1(2)
    by (intro sp_update_absent) auto
  have "limit_view s px q d (book e) = (\<lambda>t. if t = s
      then sp_update oid (\<lambda>x. if d = 0 then x else x\<lparr>ao_vis := min (unat d) (ao_qty x),
             ao_disp := unat d, ao_hid := ao_qty x - unat d\<rparr>)
           (sp_add (side_cmp s) px (new_aorder oid q) (book_view (book e) s))
      else book_view (book e) t)"
    by (rule ext) (simp add: limit_view_def Let_def e1(2) [symmetric] same other ice_def [abs_def])
  with r e1 show ?thesis by simp
qed

theorem submit_limit_refines_witness:
  "book_view (book (snd (submit_limit Sell 102 9 4 demo_engine))) Sell =
    [(101, [new_aorder 1 5, new_aorder 2 4]),
     (102, [new_aorder 3 3, (new_aorder 5 9)\<lparr>ao_vis := 4, ao_disp := 4, ao_hid := 5\<rparr>])]"
proof -
  have space: "\<not> pool_full (book demo_engine)" by code_simp
  have "book_liq (book demo_engine) = 18" by code_simp
  then have room: "book_liq (book demo_engine) + 2 * stop_qty [] (book demo_engine) +
      2 * unat (9 :: u64) < 2 ^ 63" by (simp add: stop_qty_def)
  have "fst (submit_limit Sell 102 9 4 demo_engine) = 5" by code_simp
  moreover have "sp_update 5 (\<lambda>x. if (4 :: u64) = 0 then x else x\<lparr>ao_vis := min (unat (4 :: u64)) (ao_qty x),
      ao_disp := unat (4 :: u64), ao_hid := ao_qty x - unat (4 :: u64)\<rparr>)
      (sp_add (side_cmp Sell) 102 (new_aorder 5 9) (book_view (book demo_engine) Sell)) =
    [(101, [new_aorder 1 5, new_aorder 2 4]),
     (102, [new_aorder 3 3, (new_aorder 5 9)\<lparr>ao_vis := 4, ao_disp := 4, ao_hid := 5\<rparr>])]"
    by code_simp
  ultimately show ?thesis
    using submit_limit_refines [OF demo_engine_inv space room surjective_pairing] by simp
qed

text \<open>Submitting a stop with a kind the trigger loop knows adds a pending stop and leaves both
  sides of the book alone. It is registered twice, in the engine's list and in the book's,
  so that \<open>process_triggers\<close> finds the same address twice in its queue.\<close>
theorem submit_stop_registers_twice:
  assumes "engine_inv E e" and "\<not> pool_full (book e)" and "k \<noteq> NoStop"
    and "book_liq (book e) + 2 * stop_qty E (book e) + 2 * unat q < 2 ^ 63"
    and "submit_stop s stop_px q k px d e = (oid, e')"
  shows "\<exists>a. oid = next_order_id (book e) \<and> engine_inv (a # E) e' \<and>
    book_view (book e') = book_view (book e) \<and>
    pending_stops e' = pending_stops e @ [a] \<and>
    fst (gather_stops e') = pending_stops e @ [a] @ pending_stop_storage (book e) @ [a]"
proof -
  obtain a e1 where r: "submit_stop s stop_px q k px d e = (next_order_id (book e), e1)"
    "engine_inv (a # E) e1" "book_view (book e1) = book_view (book e)"
    "pending_stops e1 = pending_stops e @ [a]"
    "pending_stop_storage (book e1) = pending_stop_storage (book e) @ [a]"
    by (rule submit_stop_ok [OF assms(1-4)]) blast
  then show ?thesis
    using assms(5) by (simp add: gather_stops_def take_pending_stops_def)
qed

theorem submit_stop_registers_twice_witness: "fst (gather_stops stop_engine) = [3, 3]"
proof -
  have space: "\<not> pool_full (book demo_engine)" by code_simp
  have "book_liq (book demo_engine) = 18" by code_simp
  then have room: "book_liq (book demo_engine) + 2 * stop_qty [] (book demo_engine) +
      2 * unat (2 :: u64) < 2 ^ 63" by (simp add: stop_qty_def)
  have "pending_stops (snd (submit_stop Buy 102 2 StopMarket 0 0 demo_engine)) = [3]" by code_simp
  moreover have "pending_stops demo_engine = []" "pending_stop_storage (book demo_engine) = []"
    by code_simp+
  ultimately show ?thesis
    using submit_stop_registers_twice [OF demo_engine_inv space stop_kind.distinct(2) room
      surjective_pairing, where s = Buy and stop_px = 102 and px = 0 and d = 0]
    by (auto simp: stop_engine_def)
qed

subsection \<open>Pro-rata\<close>

text \<open>C16. Pro-rata matching always returns, keeps the book well formed, takes from the book
  exactly what its fills say, and never fills more than the incoming quantity, even when the
  64-bit products of the allocation overflow.\<close>
theorem pro_rata_never_overfills:
  assumes "book_inv E b" and "book_liq b < 2 ^ 63"
  shows "\<exists>gs b'. pro_rata_match m s q b = Some (gs, b') \<and> book_inv E b' \<and>
    sum_list (map (\<lambda>f. unat (fill_qty f)) gs) \<le> unat q \<and>
    book_liq b' + sum_list (map (\<lambda>f. unat (fill_qty f)) gs) = book_liq b"
  using pro_rata_match_ok [OF assms, of m s q] unfolding fills_total_def by blast

theorem pro_rata_never_overfills_witness:
  "\<exists>gs b'. pro_rata_match 1 Buy 5 demo_book = Some (gs, b') \<and>
    map abs_fill gs = [(1, 101, 3), (2, 101, 2)]"
proof -
  have "book_liq demo_book = 18" by code_simp
  then have "book_liq demo_book < 2 ^ 63" by simp
  from pro_rata_never_overfills [OF demo_inv this, of 1 Buy 5] obtain gs b' where
    "pro_rata_match 1 Buy 5 demo_book = Some (gs, b')" by blast
  moreover have "map abs_fill (fst (the (pro_rata_match 1 Buy 5 demo_book))) =
      [(1, 101, 3), (2, 101, 2)]" by code_simp
  ultimately show ?thesis by simp
qed

text \<open>C17. Pro-rata matching at a level whose orders all show something fills the incoming quantity or
  all the level shows, whichever is less, when no product of a visible size and the quantity
  overflows 64 bits and no minimum above one unit is set: rounding loses nothing. All fills are at the
  best price, and the book afterwards is the old one with the reported fills applied in turn,
  icebergs replenished and done orders and levels gone.\<close>
theorem pro_rata_exact_fill:
  assumes "book_inv E b" and "book_liq b < 2 ^ 63" and "unat m \<le> 1"
    and "book_view b (opposite s) = (px, xs) # ls" and "\<forall>x \<in> set xs. 0 < ao_vis x"
    and "\<forall>x \<in> set xs. ao_vis x * unat q < 2 ^ 64"
    and "pro_rata_match m s q b = Some (gs, b')"
  shows "sum_list (map (\<lambda>f. unat (fill_qty f)) gs) = min (unat q) (sum_list (map ao_vis xs)) \<and>
    (\<forall>f \<in> set gs. fill_price f = px) \<and> (\<forall>t. book_view b' t = fills_view gs (book_view b t))"
  using pro_rata_fill_best [OF assms] by blast

theorem pro_rata_exact_fill_witness:
  "sum_list (map (\<lambda>f. unat (fill_qty f)) (fst (the (pro_rata_match 1 Buy 7 demo_book)))) = 7"
proof -
  have "book_liq demo_book = 18" by code_simp
  then have small: "book_liq demo_book < 2 ^ 63" by simp
  define xs where "xs = [new_aorder 1 5, new_aorder 2 4]"
  have view: "book_view demo_book (opposite Buy) = (101, xs) # [(102, [new_aorder 3 3])]"
    unfolding xs_def by code_simp
  obtain gs b' where m: "pro_rata_match 1 Buy 7 demo_book = Some (gs, b')"
    using pro_rata_match_ok [OF demo_inv small, of 1 Buy 7] by blast
  from pro_rata_exact_fill [OF demo_inv small _ view _ _ m]
  have "sum_list (map (\<lambda>f. unat (fill_qty f)) gs) = min (unat (7 :: u64)) (sum_list (map ao_vis xs))"
    by (simp add: xs_def new_aorder_def)
  with m show ?thesis by (simp add: xs_def new_aorder_def)
qed

text \<open>C18. Each order gets its proportional share rounded down, or one unit more, and the units go
  by largest remainder: an order that got one has a larger remainder than an order that got
  none, or an equal one and a smaller id. (Without overflow and without a minimum above
  one.)\<close>
theorem pro_rata_fair:
  assumes "sum_list (map unat szs) < 2 ^ 64" and "0 < sum_list (map unat szs)"
    and "\<forall>z \<in> set szs. unat z * unat q < 2 ^ 64" and "unat m \<le> 1"
    and "i < length szs" and "j < length szs"
  shows "unat (pro_rata_alloc m q szs ids ! i) \<in>
      {unat (szs ! i) * unat q div sum_list (map unat szs),
       unat (szs ! i) * unat q div sum_list (map unat szs) + 1} \<and>
    (unat (pro_rata_alloc m q szs ids ! i) =
        unat (szs ! i) * unat q div sum_list (map unat szs) + 1 \<and>
     unat (pro_rata_alloc m q szs ids ! j) =
        unat (szs ! j) * unat q div sum_list (map unat szs) \<longrightarrow>
     unat (szs ! j) * unat q mod sum_list (map unat szs) <
        unat (szs ! i) * unat q mod sum_list (map unat szs) \<or>
     unat (szs ! j) * unat q mod sum_list (map unat szs) =
        unat (szs ! i) * unat q mod sum_list (map unat szs) \<and> ids ! i \<le> ids ! j)"
proof -
  let ?t = "sum_list (map unat szs)"
  let ?key = "\<lambda>i. Pro_Key (map (\<lambda>sz. (sz * q) mod sum_u64 szs) szs ! i) (ids ! i)"
  note small = assms(1) and pos = assms(2) and prod = assms(3)
  have units: "map unat (pro_rata_alloc m q szs ids) = pro_units q szs ids"
    using assms(4) unfolding alloc_unat [OF small] by (intro map_idI) auto
  have alloc: "unat (pro_rata_alloc m q szs ids ! k) = unat (szs ! k) * unat q div ?t +
      (if k \<in> set (pro_picks q szs ids) then 1 else 0)" if "k < length szs" for k
    using arg_cong [OF units, of "\<lambda>xs. xs ! k"] that pro_exact(1) [OF small pos prod that]
    by (simp add: pro_units_def pro_rata_alloc_parts)
  have rem: "unat (key_rem (?key k)) = unat (szs ! k) * unat q mod ?t" if "k < length szs" for k
    using that prod by (simp add: unat_mod sum_u64_unat [OF small] unat_word_ariths)
  have "?key i \<le> ?key j" if "i \<in> set (pro_picks q szs ids)" "j \<notin> set (pro_picks q szs ids)"
  proof -
    let ?xs = "pro_rank q szs ids"
    have "sorted (map ?key ?xs)" by (simp add: pro_rank_def Let_def)
    then have "sorted (map ?key (take (pro_left q szs) ?xs) @ map ?key (drop (pro_left q szs) ?xs))"
      by (metis append_take_drop_id map_append)
    moreover have "j \<in> set (drop (pro_left q szs) ?xs)"
      using that(2) assms(6) pro_rank_perm(2) [of q szs ids]
      by (metis Un_iff append_take_drop_id lessThan_iff pro_picks_def set_append)
    ultimately show ?thesis using that(1) by (auto simp: sorted_append pro_picks_def)
  qed
  then have "unat (key_rem (?key j)) < unat (key_rem (?key i)) \<or>
      unat (key_rem (?key j)) = unat (key_rem (?key i)) \<and> ids ! i \<le> ids ! j"
    if "i \<in> set (pro_picks q szs ids)" "j \<notin> set (pro_picks q szs ids)"
    using that by (auto simp: less_eq_pro_key_def word_less_nat_alt split: if_splits)
  then show ?thesis using alloc [OF assms(5)] alloc [OF assms(6)] rem [OF assms(5)] rem [OF assms(6)]
    by auto
qed

theorem pro_rata_fair_witness: "unat (pro_rata_alloc 1 5 [5, 4] [1, 2] ! 0) = 3"
proof -
  have "pro_rata_alloc 1 5 [5, 4] [1, 2] = [3, 2]" by code_simp
  moreover have "unat (pro_rata_alloc 1 5 [5, 4] [1, 2] ! 0) \<in> {2, 2 + 1}"
    using pro_rata_fair [of "[5, 4]" 5 1 0 1 "[1, 2]"] by simp
  ultimately show ?thesis by simp
qed

text \<open>When a product overflows, pro-rata matching gives away too little: an incoming order of
  \<open>2 ^ 32\<close> against a single resting order of the same size is allocated one unit.\<close>
theorem pro_rata_overflow:
  "pro_rata_alloc 1 4294967296 [4294967296] [i] = [1]"
proof -
  have shares: "pro_shares 4294967296 [4294967296] = [0]"
    by (simp add: pro_shares_def sum_u64_def)
  have left: "pro_left 4294967296 [4294967296] = 4294967296"
    by (simp add: pro_left_def shares sum_u64_def)
  have "pro_rank 4294967296 [4294967296] [i] = [0]" by (simp add: pro_rank_def Let_def)
  then have "pro_picks 4294967296 [4294967296] [i] = [0]" by (simp add: pro_picks_def left)
  then show ?thesis by (simp add: pro_rata_alloc_parts shares add_leftover_def)
qed

subsection \<open>Stops that are missed or lost\<close>

text \<open>
  A book with asks at 101 and 110, a buy stop at 101 for 3 and a buy stop at 105 for 1.
\<close>

definition cascade_engine :: engine where
  "cascade_engine =
     snd (submit_stop Buy 105 1 StopMarket 0 0
       (snd (submit_stop Buy 101 3 StopMarket 0 0
         (snd (submit_limit Sell 110 5 0
           (snd (submit_limit Sell 101 1 0 (new_engine (new_book 8 Pool)))))))))"

text \<open>A stop can miss its trigger. A purchase at 101 sets off the first stop, which trades at
  110, beyond the second stop's price; but that stop sits in the queue of the outer call,
  so the inner call does not see it, and the outer call still compares it with 101. When
  all is done the market has traded at 110 and the stop at 105 is pending, twice.\<close>
theorem cascade_misses_stop:
  "let e = snd (the (submit_market 20 fifo_match Buy 1 cascade_engine))
   in book_view (book e) Sell = [(110, [(new_aorder 2 5)\<lparr>ao_vis := 2\<rparr>])] \<and>
      find_id 3 (book e) = None \<and> pending_stops e = [4, 4] \<and>
      order_id (mem (book e) 4) = 4 \<and> is_triggered 110 (mem (book e) 4)"
  unfolding Let_def by (intro conjI; code_simp)

text \<open>A stop submitted with kind \<open>None\<close> is lost at the next trade: no list refers to it any
  more, it can never trigger, and its slot and id stay taken.\<close>
theorem stop_none_lost:
  "let e0 = snd (submit_stop Buy 105 1 NoStop 0 0 demo_engine);
       e = snd (the (submit_market 20 fifo_match Buy 1 e0))
   in pending_stops e = [] \<and> pending_stop_storage (book e) = [] \<and> find_id 5 (book e) = Some 3 \<and>
      stop_price (mem (book e) 3) = 105 \<and> 3 \<notin> set (freelist (pool (book e)))"
  unfolding Let_def by (intro conjI; code_simp)

end
