(* ===== verification/Itch_Protocol.thy ===== *)
theory Itch_Protocol
  imports Lob_Types
begin

section \<open>The market data protocol\<close>

text \<open>
  net/itch_protocol.hpp: packed structs, big-endian on the wire, with the functions that
  write one message into a buffer and read one back. Memory is a list of bytes. The host
  is little-endian (the branch of \<open>bswap32\<close> and its relatives that the supported targets
  compile), so a field of a packed struct is its bytes from the lowest up, and \<open>bswap\<close>
  reverses them.
\<close>

subsection \<open>Bytes\<close>

definition byte_of :: "'a::len word \<Rightarrow> nat \<Rightarrow> u8" where
  "byte_of x k = ucast (drop_bit (8 * k) x)"

definition le_bytes :: "nat \<Rightarrow> 'a::len word \<Rightarrow> u8 list" where
  "le_bytes n x = map (byte_of x) [0..<n]"

primrec of_le :: "u8 list \<Rightarrow> 'a::len word" where
  "of_le [] = 0"
| "of_le (b # bs) = ucast b OR push_bit 8 (of_le bs)"

definition bswap64 :: "u64 \<Rightarrow> u64" where
  "bswap64 x = of_le (rev (le_bytes 8 x))"

definition bswap32 :: "u32 \<Rightarrow> u32" where
  "bswap32 x = of_le (rev (le_bytes 4 x))"

definition bswap16 :: "u16 \<Rightarrow> u16" where
  "bswap16 x = push_bit 8 x OR drop_bit 8 x"

definition bswap_i64 :: "i64 \<Rightarrow> i64" where
  "bswap_i64 x = bswap64 x"

lemma length_le_bytes [simp]: "length (le_bytes n x) = n"
  by (simp add: le_bytes_def)

lemma nth_le_bytes: "k < n \<Longrightarrow> le_bytes n x ! k = byte_of x k"
  by (simp add: le_bytes_def)

lemma bit_byte_of: "bit (byte_of (x :: 'a::len word) k) j \<longleftrightarrow> j < 8 \<and> bit x (8 * k + j)"
  by (auto simp: byte_of_def bit_simps dest: bit_imp_le_length)

lemma bit_of_le:
  "bit (of_le bs :: 'a::len word) n \<longleftrightarrow>
     n < LENGTH('a) \<and> n div 8 < length bs \<and> bit (bs ! (n div 8)) (n mod 8)"
proof (induction bs arbitrary: n)
  case (Cons b bs)
  show ?case
  proof (cases "n < 8")
    case True
    then show ?thesis by (auto simp: bit_simps)
  next
    case False
    then obtain m where n: "n = m + 8" by (metis add.commute le_iff_add not_less)
    have "\<not> bit b n" using False by (auto dest: bit_imp_le_length)
    moreover have "(m + 8) div 8 = Suc (m div 8)" by simp
    ultimately show ?thesis by (auto simp: bit_simps n Cons)
  qed
qed simp

text \<open>Writing a word as bytes and reading it back, and the other way round.\<close>

lemma of_le_bytes:
  assumes "LENGTH('a) \<le> 8 * n"
  shows "of_le (le_bytes n x) = (x :: 'a::len word)"
proof (rule bit_word_eqI)
  fix k assume k: "k < LENGTH('a)"
  then have "k div 8 < n" using assms by (simp add: div_less_iff_less_mult)
  with k show "bit (of_le (le_bytes n x) :: 'a word) k \<longleftrightarrow> bit x k"
    by (simp add: bit_of_le nth_le_bytes bit_byte_of)
qed

lemma le_bytes_of:
  assumes "LENGTH('a) = 8 * length bs"
  shows "le_bytes (length bs) (of_le bs :: 'a::len word) = bs"
proof (rule nth_equalityI)
  fix k assume "k < length (le_bytes (length bs) (of_le bs :: 'a word))"
  then have k: "k < length bs" by simp
  show "le_bytes (length bs) (of_le bs :: 'a word) ! k = bs ! k"
  proof (rule bit_word_eqI)
    fix j assume "j < LENGTH(8)"
    then have "j < 8" by simp
    then show "bit (le_bytes (length bs) (of_le bs :: 'a word) ! k) j \<longleftrightarrow> bit (bs ! k) j"
      using k assms by (simp add: nth_le_bytes bit_byte_of bit_of_le)
  qed
qed simp

lemma bytes_bswap64: "le_bytes 8 (bswap64 x) = rev (le_bytes 8 x)"
  using le_bytes_of [of "rev (le_bytes 8 x)", where ?'a = 64] by (simp add: bswap64_def)

lemma bswap64_inv [simp]: "bswap64 (bswap64 x) = x"
  by (subst bswap64_def) (simp add: bytes_bswap64 of_le_bytes)

lemma bytes_bswap32: "le_bytes 4 (bswap32 x) = rev (le_bytes 4 x)"
  using le_bytes_of [of "rev (le_bytes 4 x)", where ?'a = 32] by (simp add: bswap32_def)

lemma bswap32_inv [simp]: "bswap32 (bswap32 x) = x"
  by (subst bswap32_def) (simp add: bytes_bswap32 of_le_bytes)

lemma bswap16_inv [simp]: "bswap16 (bswap16 x) = x"
  by (rule bit_word_eqI) (auto simp: bswap16_def bit_simps)

lemma bswap_i64_inv [simp]: "bswap_i64 (bswap_i64 x) = x"
  by (simp add: bswap_i64_def)

subsection \<open>Buffers\<close>

definition write_at :: "nat \<Rightarrow> u8 list \<Rightarrow> u8 list \<Rightarrow> u8 list" where
  "write_at off bs buf = take off buf @ bs @ drop (off + length bs) buf"

definition read_at :: "nat \<Rightarrow> nat \<Rightarrow> u8 list \<Rightarrow> u8 list" where
  "read_at off n buf = take n (drop off buf)"

lemma length_write_at [simp]:
  "off + length bs \<le> length buf \<Longrightarrow> length (write_at off bs buf) = length buf"
  by (simp add: write_at_def)

lemma read_write_at [simp]:
  "off + length bs \<le> length buf \<Longrightarrow> n = length bs \<Longrightarrow> read_at off n (write_at off bs buf) = bs"
  by (simp add: read_at_def write_at_def)

lemma read_write_before:
  "k + n \<le> off \<Longrightarrow> off + length bs \<le> length buf \<Longrightarrow>
   read_at k n (write_at off bs buf) = read_at k n buf"
  by (simp add: read_at_def write_at_def take_drop min_def)

lemma read_write_after:
  "off + length bs \<le> k \<Longrightarrow> off + length bs \<le> length buf \<Longrightarrow>
   read_at k n (write_at off bs buf) = read_at k n buf"
  by (simp add: read_at_def write_at_def)

lemma read_at_split:
  "read_at off (m + n) buf = read_at off m buf @ read_at (off + m) n buf"
  by (simp add: read_at_def take_add add.commute)

lemma read_at_sub: "k + n \<le> m \<Longrightarrow> take n (drop k (read_at off m buf)) = read_at (off + k) n buf"
  by (simp add: read_at_def drop_take add.commute)

lemma read_at_append:
  assumes "read_at off (m + n) buf = xs @ ys" and "length xs = m" and "length ys = n"
  shows "read_at off m buf = xs" and "read_at (off + m) n buf = ys"
  using read_at_sub [of 0 m "m + n" off buf] read_at_sub [of m n "m + n" off buf] assms by simp_all

subsection \<open>Messages and packets\<close>

definition k_magic :: u32 where
  "k_magic = 0x49544348"

definition k_version :: u8 where
  "k_version = 1"

definition k_udp_payload :: nat where
  "k_udp_payload = 1400"

datatype msg_type = Add | Cancel | Execute | Snapshot

definition msg_code :: "msg_type \<Rightarrow> u8" where
  "msg_code t = (case t of Add \<Rightarrow> 1 | Cancel \<Rightarrow> 2 | Execute \<Rightarrow> 3 | Snapshot \<Rightarrow> 4)"

record pkt_hdr =
  magic_be :: u32
  version :: u8
  hcount :: u8
  nbytes_be :: u16
  pkt_seq_be :: u64
  send_ns_be :: u64

record add_body =
  ab_order_id_be :: u64
  ab_side :: u8
  ab_price_be :: i64
  ab_qty_be :: u64
  ab_event_ns_be :: u64

record cancel_body =
  cb_order_id_be :: u64
  cb_event_ns_be :: u64

record execute_body =
  eb_order_id_be :: u64
  eb_price_be :: i64
  eb_qty_be :: u64
  eb_event_ns_be :: u64

record snapshot_body =
  sb_flags :: u8
  sb_bid_be :: i64
  sb_bid_qty_be :: u64
  sb_ask_be :: i64
  sb_ask_qty_be :: u64
  sb_event_ns_be :: u64

text \<open>The packed structs in memory: the bytes \<open>memcpy\<close> copies out of them, and into them.\<close>

definition hdr_bytes :: "pkt_hdr \<Rightarrow> u8 list" where
  "hdr_bytes h = le_bytes 4 (magic_be h) @ [version h, hcount h] @ le_bytes 2 (nbytes_be h) @
     le_bytes 8 (pkt_seq_be h) @ le_bytes 8 (send_ns_be h)"

definition hdr_of :: "u8 list \<Rightarrow> pkt_hdr" where
  "hdr_of m = \<lparr>magic_be = of_le (read_at 0 4 m), version = m ! 4, hcount = m ! 5,
     nbytes_be = of_le (read_at 6 2 m), pkt_seq_be = of_le (read_at 8 8 m),
     send_ns_be = of_le (read_at 16 8 m)\<rparr>"

definition add_bytes :: "add_body \<Rightarrow> u8 list" where
  "add_bytes b = le_bytes 8 (ab_order_id_be b) @ [ab_side b] @ le_bytes 8 (ab_price_be b) @
     le_bytes 8 (ab_qty_be b) @ le_bytes 8 (ab_event_ns_be b)"

definition add_of :: "u8 list \<Rightarrow> add_body" where
  "add_of m = \<lparr>ab_order_id_be = of_le (read_at 0 8 m), ab_side = m ! 8,
     ab_price_be = of_le (read_at 9 8 m), ab_qty_be = of_le (read_at 17 8 m),
     ab_event_ns_be = of_le (read_at 25 8 m)\<rparr>"

definition cancel_bytes :: "cancel_body \<Rightarrow> u8 list" where
  "cancel_bytes b = le_bytes 8 (cb_order_id_be b) @ le_bytes 8 (cb_event_ns_be b)"

definition cancel_of :: "u8 list \<Rightarrow> cancel_body" where
  "cancel_of m = \<lparr>cb_order_id_be = of_le (read_at 0 8 m), cb_event_ns_be = of_le (read_at 8 8 m)\<rparr>"

definition execute_bytes :: "execute_body \<Rightarrow> u8 list" where
  "execute_bytes b = le_bytes 8 (eb_order_id_be b) @ le_bytes 8 (eb_price_be b) @
     le_bytes 8 (eb_qty_be b) @ le_bytes 8 (eb_event_ns_be b)"

definition execute_of :: "u8 list \<Rightarrow> execute_body" where
  "execute_of m = \<lparr>eb_order_id_be = of_le (read_at 0 8 m), eb_price_be = of_le (read_at 8 8 m),
     eb_qty_be = of_le (read_at 16 8 m), eb_event_ns_be = of_le (read_at 24 8 m)\<rparr>"

definition snapshot_bytes :: "snapshot_body \<Rightarrow> u8 list" where
  "snapshot_bytes b = [sb_flags b] @ le_bytes 8 (sb_bid_be b) @ le_bytes 8 (sb_bid_qty_be b) @
     le_bytes 8 (sb_ask_be b) @ le_bytes 8 (sb_ask_qty_be b) @ le_bytes 8 (sb_event_ns_be b)"

definition snapshot_of :: "u8 list \<Rightarrow> snapshot_body" where
  "snapshot_of m = \<lparr>sb_flags = m ! 0, sb_bid_be = of_le (read_at 1 8 m),
     sb_bid_qty_be = of_le (read_at 9 8 m), sb_ask_be = of_le (read_at 17 8 m),
     sb_ask_qty_be = of_le (read_at 25 8 m), sb_event_ns_be = of_le (read_at 33 8 m)\<rparr>"

text \<open>The sizes of the static assertions.\<close>

definition hdr_size :: nat where "hdr_size = 24"
definition add_size :: nat where "add_size = 33"
definition cancel_size :: nat where "cancel_size = 16"
definition execute_size :: nat where "execute_size = 32"
definition snapshot_size :: nat where "snapshot_size = 41"
definition k_max_msg_bytes :: nat where "k_max_msg_bytes = 1 + snapshot_size"

lemmas sizes = hdr_size_def add_size_def cancel_size_def execute_size_def snapshot_size_def
  k_max_msg_bytes_def k_udp_payload_def

lemma struct_sizes:
  "length (hdr_bytes h) = hdr_size" "length (add_bytes ab) = add_size"
  "length (cancel_bytes cb) = cancel_size" "length (execute_bytes eb) = execute_size"
  "length (snapshot_bytes sb) = snapshot_size"
  by (simp_all add: hdr_bytes_def add_bytes_def cancel_bytes_def execute_bytes_def
      snapshot_bytes_def sizes)

lemma read_le_bytes [simp]: "read_at 0 n (le_bytes n x @ r) = le_bytes n x"
  by (simp add: read_at_def)

lemma struct_of_bytes:
  "hdr_of (hdr_bytes h) = h" "add_of (add_bytes ab) = ab" "cancel_of (cancel_bytes cb) = cb"
  "execute_of (execute_bytes eb) = eb" "snapshot_of (snapshot_bytes sb) = sb"
  by (simp_all add: hdr_of_def hdr_bytes_def add_of_def add_bytes_def cancel_of_def
      cancel_bytes_def execute_of_def execute_bytes_def snapshot_of_def snapshot_bytes_def
      read_at_def nth_append of_le_bytes)

text \<open>An event of the matching thread, and a decoded message. A decoded type is whatever byte
  was read.\<close>

record event =
  ev_type :: msg_type
  ev_side :: side
  ev_order_id :: u64
  ev_price :: price_t
  ev_qty :: qty_t
  ev_bid :: price_t
  ev_bid_qty :: qty_t
  ev_ask :: price_t
  ev_ask_qty :: qty_t
  ev_snap_flags :: u8
  ev_ns :: u64

definition new_event :: event where
  "new_event = \<lparr>ev_type = Add, ev_side = Buy, ev_order_id = 0, ev_price = 0, ev_qty = 0,
     ev_bid = 0, ev_bid_qty = 0, ev_ask = 0, ev_ask_qty = 0, ev_snap_flags = 0, ev_ns = 0\<rparr>"

record decoded =
  d_type :: u8
  d_side :: u8
  d_order_id :: u64
  d_price :: price_t
  d_qty :: qty_t
  d_bid :: price_t
  d_bid_qty :: qty_t
  d_ask :: price_t
  d_ask_qty :: qty_t
  d_snap_flags :: u8
  d_ns :: u64

definition new_decoded :: decoded where
  "new_decoded = \<lparr>d_type = 1, d_side = 0, d_order_id = 0, d_price = 0, d_qty = 0,
     d_bid = 0, d_bid_qty = 0, d_ask = 0, d_ask_qty = 0, d_snap_flags = 0, d_ns = 0\<rparr>"

subsection \<open>Packing and unpacking\<close>

definition body_bytes :: "event \<Rightarrow> u8 list" where
  "body_bytes e =
     (case ev_type e of
        Add \<Rightarrow> add_bytes \<lparr>ab_order_id_be = bswap64 (ev_order_id e), ab_side = side_code (ev_side e),
                 ab_price_be = bswap_i64 (ev_price e), ab_qty_be = bswap64 (ev_qty e),
                 ab_event_ns_be = bswap64 (ev_ns e)\<rparr>
      | Cancel \<Rightarrow> cancel_bytes \<lparr>cb_order_id_be = bswap64 (ev_order_id e),
                 cb_event_ns_be = bswap64 (ev_ns e)\<rparr>
      | Execute \<Rightarrow> execute_bytes \<lparr>eb_order_id_be = bswap64 (ev_order_id e),
                 eb_price_be = bswap_i64 (ev_price e), eb_qty_be = bswap64 (ev_qty e),
                 eb_event_ns_be = bswap64 (ev_ns e)\<rparr>
      | Snapshot \<Rightarrow> snapshot_bytes \<lparr>sb_flags = ev_snap_flags e, sb_bid_be = bswap_i64 (ev_bid e),
                 sb_bid_qty_be = bswap64 (ev_bid_qty e), sb_ask_be = bswap_i64 (ev_ask e),
                 sb_ask_qty_be = bswap64 (ev_ask_qty e), sb_event_ns_be = bswap64 (ev_ns e)\<rparr>)"

text \<open>\<open>pack_msg\<close> writes at \<open>off\<close> (\<open>dst\<close>) and returns how many bytes it wrote.\<close>

definition pack_msg :: "nat \<Rightarrow> event \<Rightarrow> u8 list \<Rightarrow> nat \<times> u8 list" where
  "pack_msg off e buf =
     (let b = body_bytes e
      in (1 + length b, write_at (off + 1) b (write_at off [msg_code (ev_type e)] buf)))"

text \<open>\<open>unpack_msg\<close> reads at \<open>off\<close> (\<open>src\<close>) with \<open>avail\<close> bytes to go, into \<open>d\<close>; 0 is an error.\<close>

definition unpack_msg :: "u8 list \<Rightarrow> nat \<Rightarrow> nat \<Rightarrow> decoded \<Rightarrow> nat \<times> decoded" where
  "unpack_msg buf off avail d =
     (if avail < 1 then (0, d)
      else
        (let t = buf ! off; d0 = d\<lparr>d_type := t\<rparr>
         in if t = msg_code Add then
              (if avail < 1 + add_size then (0, d0)
               else (let b = add_of (read_at (off + 1) add_size buf)
                     in (1 + add_size,
                         d0\<lparr>d_order_id := bswap64 (ab_order_id_be b), d_side := ab_side b,
                            d_price := bswap_i64 (ab_price_be b), d_qty := bswap64 (ab_qty_be b),
                            d_ns := bswap64 (ab_event_ns_be b)\<rparr>)))
            else if t = msg_code Cancel then
              (if avail < 1 + cancel_size then (0, d0)
               else (let b = cancel_of (read_at (off + 1) cancel_size buf)
                     in (1 + cancel_size,
                         d0\<lparr>d_order_id := bswap64 (cb_order_id_be b),
                            d_ns := bswap64 (cb_event_ns_be b)\<rparr>)))
            else if t = msg_code Execute then
              (if avail < 1 + execute_size then (0, d0)
               else (let b = execute_of (read_at (off + 1) execute_size buf)
                     in (1 + execute_size,
                         d0\<lparr>d_order_id := bswap64 (eb_order_id_be b),
                            d_price := bswap_i64 (eb_price_be b), d_qty := bswap64 (eb_qty_be b),
                            d_ns := bswap64 (eb_event_ns_be b)\<rparr>)))
            else if t = msg_code Snapshot then
              (if avail < 1 + snapshot_size then (0, d0)
               else (let b = snapshot_of (read_at (off + 1) snapshot_size buf)
                     in (1 + snapshot_size,
                         d0\<lparr>d_snap_flags := sb_flags b, d_bid := bswap_i64 (sb_bid_be b),
                            d_bid_qty := bswap64 (sb_bid_qty_be b),
                            d_ask := bswap_i64 (sb_ask_be b),
                            d_ask_qty := bswap64 (sb_ask_qty_be b),
                            d_ns := bswap64 (sb_event_ns_be b)\<rparr>)))
            else (0, d0)))"

lemma msg_code_simps [simp]:
  "msg_code Add = 1" "msg_code Cancel = 2" "msg_code Execute = 3" "msg_code Snapshot = 4"
  by (simp_all add: msg_code_def)

text \<open>What a packed event decodes to: the fields of its type, the others as they were.\<close>

definition decode_event :: "event \<Rightarrow> decoded \<Rightarrow> decoded" where
  "decode_event e d =
     (case ev_type e of
        Add \<Rightarrow> d\<lparr>d_type := 1, d_order_id := ev_order_id e, d_side := side_code (ev_side e),
                 d_price := ev_price e, d_qty := ev_qty e, d_ns := ev_ns e\<rparr>
      | Cancel \<Rightarrow> d\<lparr>d_type := 2, d_order_id := ev_order_id e, d_ns := ev_ns e\<rparr>
      | Execute \<Rightarrow> d\<lparr>d_type := 3, d_order_id := ev_order_id e, d_price := ev_price e,
                 d_qty := ev_qty e, d_ns := ev_ns e\<rparr>
      | Snapshot \<Rightarrow> d\<lparr>d_type := 4, d_snap_flags := ev_snap_flags e, d_bid := ev_bid e,
                 d_bid_qty := ev_bid_qty e, d_ask := ev_ask e, d_ask_qty := ev_ask_qty e,
                 d_ns := ev_ns e\<rparr>)"

definition msg_bytes :: "event \<Rightarrow> u8 list" where
  "msg_bytes e = msg_code (ev_type e) # body_bytes e"

lemma length_body: "length (body_bytes e) =
    (case ev_type e of Add \<Rightarrow> add_size | Cancel \<Rightarrow> cancel_size | Execute \<Rightarrow> execute_size
     | Snapshot \<Rightarrow> snapshot_size)"
  by (simp add: body_bytes_def struct_sizes split: msg_type.split)

lemma length_msg: "length (msg_bytes e) = 1 + length (body_bytes e)"
  "1 \<le> length (msg_bytes e)" "length (msg_bytes e) \<le> k_max_msg_bytes"
  by (simp_all add: msg_bytes_def length_body sizes split: msg_type.split)

lemma write_at_twice:
  "off + 1 + length b \<le> length buf \<Longrightarrow> write_at (off + 1) b (write_at off [x] buf) = write_at off (x # b) buf"
  by (simp add: write_at_def add.commute)

lemma pack_msg_bytes:
  "off + length (msg_bytes e) \<le> length buf \<Longrightarrow>
   pack_msg off e buf = (length (msg_bytes e), write_at off (msg_bytes e) buf)"
  using write_at_twice [of off "body_bytes e" buf "msg_code (ev_type e)"]
  by (simp add: pack_msg_def length_msg(1) Let_def) (simp add: msg_bytes_def)

lemma read_at_first: "read_at off (Suc n) buf = x # xs \<Longrightarrow> buf ! off = x \<and> read_at (Suc off) n buf = xs"
  by (cases "drop off buf") (auto simp: read_at_def drop_Suc nth_via_drop simp flip: tl_drop)

text \<open>Unpacking bytes that are those of an event.\<close>

lemma unpack_bytes:
  assumes "read_at off (length (msg_bytes e)) buf = msg_bytes e" and "length (msg_bytes e) \<le> avail"
  shows "unpack_msg buf off avail d = (length (msg_bytes e), decode_event e d)"
proof -
  have r: "buf ! off = msg_code (ev_type e)"
    "read_at (Suc off) (length (body_bytes e)) buf = body_bytes e"
    using read_at_first [of off "length (body_bytes e)" buf "msg_code (ev_type e)" "body_bytes e"]
      assms(1) by (simp_all add: msg_bytes_def)
  have len: "1 + length (body_bytes e) \<le> avail" using assms(2) by (simp add: msg_bytes_def)
  show ?thesis
  proof (cases "ev_type e")
    case Add
    with r len show ?thesis
      by (simp add: unpack_msg_def length_msg(1) length_body decode_event_def Let_def)
        (simp add: body_bytes_def struct_of_bytes)
  next
    case Cancel
    with r len show ?thesis
      by (simp add: unpack_msg_def length_msg(1) length_body decode_event_def Let_def)
        (simp add: body_bytes_def struct_of_bytes)
  next
    case Execute
    with r len show ?thesis
      by (simp add: unpack_msg_def length_msg(1) length_body decode_event_def Let_def)
        (simp add: body_bytes_def struct_of_bytes)
  next
    case Snapshot
    with r len show ?thesis
      by (simp add: unpack_msg_def length_msg(1) length_body decode_event_def Let_def)
        (simp add: body_bytes_def struct_of_bytes)
  qed
qed

text \<open>The bytes of a sequence of messages.\<close>

definition msgs_bytes :: "event list \<Rightarrow> u8 list" where
  "msgs_bytes es = concat (map msg_bytes es)"

lemma msgs_bytes_simps [simp]:
  "msgs_bytes [] = []" "msgs_bytes (e # es) = msg_bytes e @ msgs_bytes es"
  by (simp_all add: msgs_bytes_def)

lemma msgs_bytes_snoc [simp]: "msgs_bytes (es @ [e]) = msgs_bytes es @ msg_bytes e"
  by (simp add: msgs_bytes_def)

lemma length_msgs: "length es \<le> length (msgs_bytes es)"
proof (induction es)
  case (Cons e es)
  then show ?case using length_msg(2) [of e] by (simp add: msgs_bytes_def)
qed (simp add: msgs_bytes_def)

text \<open>Bounds: no more than \<open>avail\<close> bytes are consumed, and none beyond them is looked at.\<close>

lemma unpack_used: "fst (unpack_msg buf off avail d) \<le> avail"
  by (auto simp: unpack_msg_def Let_def)

lemma read_at_cong:
  assumes "\<And>k. off \<le> k \<Longrightarrow> k < off + n \<Longrightarrow> buf' ! k = buf ! k"
    and "off + n \<le> length buf" and "off + n \<le> length buf'"
  shows "read_at off n buf' = read_at off n buf"
  using assms by (intro nth_equalityI) (simp_all add: read_at_def)

lemma unpack_local:
  assumes same: "\<And>k. off \<le> k \<Longrightarrow> k < off + avail \<Longrightarrow> buf' ! k = buf ! k"
    and len: "off + avail \<le> length buf" "off + avail \<le> length buf'"
  shows "unpack_msg buf' off avail d = unpack_msg buf off avail d"
proof (cases "avail < 1")
  case True
  then show ?thesis by (simp add: unpack_msg_def)
next
  case False
  then have "buf' ! off = buf ! off" by (intro same) simp_all
  moreover have "read_at (off + 1) n buf' = read_at (off + 1) n buf" if "\<not> avail < 1 + n" for n
    using that len by (intro read_at_cong same) simp_all
  ultimately show ?thesis unfolding unpack_msg_def Let_def by (simp cong: if_cong)
qed

subsection \<open>The properties of the protocol\<close>

definition demo_event :: event where
  "demo_event = new_event\<lparr>ev_type := Execute, ev_order_id := 7, ev_price := - 5, ev_qty := 300,
     ev_ns := 1000\<rparr>"

text \<open>C21. Packing any event into a buffer with room for the largest message and unpacking it at the
  same place returns the event: the same number of bytes, at least one and at most
  \<open>kMaxMsgBytes\<close>, and every field of its type, negative prices included. Nothing else in
  the buffer changes.\<close>
theorem itch_roundtrip:
  assumes "off + k_max_msg_bytes \<le> length buf" and "pack_msg off e buf = (n, buf')"
    and "n \<le> avail"
  shows "unpack_msg buf' off avail d = (n, decode_event e d) \<and> 1 \<le> n \<and> n \<le> k_max_msg_bytes \<and>
    length buf' = length buf \<and> take off buf' = take off buf \<and> drop (off + n) buf' = drop (off + n) buf"
proof -
  have fits: "off + length (msg_bytes e) \<le> length buf" using assms(1) length_msg(3) [of e] by linarith
  have n: "n = length (msg_bytes e)" and buf': "buf' = write_at off (msg_bytes e) buf"
    using assms(2) pack_msg_bytes [OF fits] by simp_all
  have "unpack_msg buf' off avail d = (n, decode_event e d)"
    using fits assms(3) unfolding n buf' by (intro unpack_bytes) simp_all
  then show ?thesis
    using fits length_msg(2,3) [of e] by (simp add: n buf') (simp add: write_at_def)
qed

theorem itch_roundtrip_witness:
  "unpack_msg (snd (pack_msg 3 demo_event (replicate 60 0))) 3 33 new_decoded =
     (33, new_decoded\<lparr>d_type := 3, d_order_id := 7, d_price := - 5, d_qty := 300, d_ns := 1000\<rparr>)"
proof -
  let ?buf = "replicate 60 (0 :: u8)"
  have fits: "3 + k_max_msg_bytes \<le> length ?buf" by (simp add: sizes)
  have "length (msg_bytes demo_event) = 33"
    by (simp add: length_msg(1) length_body demo_event_def sizes)
  then have n: "fst (pack_msg 3 demo_event ?buf) = 33" using pack_msg_bytes [of 3 demo_event ?buf] by simp
  have "decode_event demo_event new_decoded =
      new_decoded\<lparr>d_type := 3, d_order_id := 7, d_price := - 5, d_qty := 300, d_ns := 1000\<rparr>"
    by (simp add: decode_event_def demo_event_def)
  with n itch_roundtrip [OF fits surjective_pairing, of demo_event 33 new_decoded] show ?thesis
    by simp
qed

text \<open>Unpacking hostile bytes is safe: it never claims to have used more than the bytes available,
  and neither its result nor its decoded message depends on any byte outside them. It
  fails (returns 0) exactly when the type byte is none of the four or the message does not
  fit.\<close>
theorem unpack_bounds:
  assumes "\<forall>k. off \<le> k \<and> k < off + avail \<longrightarrow> buf' ! k = buf ! k"
    and "off + avail \<le> length buf" and "off + avail \<le> length buf'"
  shows "fst (unpack_msg buf off avail d) \<le> avail \<and>
    unpack_msg buf' off avail d = unpack_msg buf off avail d \<and>
    (fst (unpack_msg buf off avail d) = 0 \<longleftrightarrow>
       (\<forall>t \<in> {Add, Cancel, Execute, Snapshot}. 1 \<le> avail \<and> buf ! off = msg_code t \<longrightarrow>
          avail < 1 + (case t of Add \<Rightarrow> add_size | Cancel \<Rightarrow> cancel_size | Execute \<Rightarrow> execute_size
            | Snapshot \<Rightarrow> snapshot_size)))"
proof (intro conjI)
  show "unpack_msg buf' off avail d = unpack_msg buf off avail d"
    using assms by (intro unpack_local) simp_all
  show "fst (unpack_msg buf off avail d) = 0 \<longleftrightarrow>
      (\<forall>t \<in> {Add, Cancel, Execute, Snapshot}. 1 \<le> avail \<and> buf ! off = msg_code t \<longrightarrow>
        avail < 1 + (case t of Add \<Rightarrow> add_size | Cancel \<Rightarrow> cancel_size | Execute \<Rightarrow> execute_size
          | Snapshot \<Rightarrow> snapshot_size))"
    by (auto simp: unpack_msg_def Let_def sizes)
qed (rule unpack_used)

theorem unpack_bounds_witness:
  "fst (unpack_msg [2, 0, 0, 9] 0 3 new_decoded) \<le> 3 \<and>
   unpack_msg [2, 0, 0, 1] 0 3 new_decoded = unpack_msg [2, 0, 0, 9] 0 3 new_decoded"
proof -
  have "\<forall>k. 0 \<le> k \<and> k < 0 + 3 \<longrightarrow> [2, 0, 0, 1 :: u8] ! k = [2, 0, 0, 9] ! k"
    by (auto simp: less_Suc_eq numeral_3_eq_3)
  from unpack_bounds [OF this, of new_decoded] show ?thesis by simp
qed

end
