(* ===== verification/Spsc_Ring.thy ===== *)
theory Spsc_Ring
  imports Lob_Prelude
begin

section \<open>The single-producer single-consumer ring\<close>

text \<open>
  include/lob/spsc_queue.hpp. First the two operations run alone, as an implementation of
  the bounded queue interface; then both threads at the grain of single memory accesses,
  in any interleaving. The indices are 64-bit words that count for ever and wrap; the
  capacity \<open>2 ^ k\<close> is the length of the buffer.
\<close>

subsection \<open>The interface of a bounded queue, and loops over one\<close>

text \<open>
  The loop \<open>while (n < max && go && q.try_pop(x)) step(x)\<close> that the publisher and the
  pipeline have in common, over any \<open>pop\<close>; and the same over a list.
\<close>

fun pop_while ::
    "('q \<Rightarrow> ('a \<times> 'q) option) \<Rightarrow> nat \<Rightarrow> ('s \<Rightarrow> bool) \<Rightarrow> ('a \<Rightarrow> 's \<Rightarrow> 's) \<Rightarrow> 's \<Rightarrow> 'q \<Rightarrow> 's \<times> 'q"
  where
  "pop_while pop 0 go f s q = (s, q)"
| "pop_while pop (Suc n) go f s q =
     (if \<not> go s then (s, q)
      else
        (case pop q of
           None \<Rightarrow> (s, q)
         | Some (x, q') \<Rightarrow> pop_while pop n go f (f x s) q'))"

fun list_while :: "nat \<Rightarrow> ('s \<Rightarrow> bool) \<Rightarrow> ('a \<Rightarrow> 's \<Rightarrow> 's) \<Rightarrow> 's \<Rightarrow> 'a list \<Rightarrow> 's \<times> 'a list" where
  "list_while 0 go f s xs = (s, xs)"
| "list_while (Suc n) go f s xs =
     (if \<not> go s then (s, xs)
      else (case xs of [] \<Rightarrow> (s, xs) | x # xs' \<Rightarrow> list_while n go f (f x s) xs'))"

text \<open>
  The list loop takes a prefix; an invariant of the state and the prefix taken so far holds
  at the end, and the loop stops only at its bound, at \<open>go\<close> or at the end of the list.
\<close>

lemma list_while_prefix:
  assumes "I [] s" and step: "\<And>ys x t. I ys t \<Longrightarrow> go t \<Longrightarrow> I (ys @ [x]) (f x t)"
  obtains ys zs t where "list_while n go f s xs = (t, zs)" "xs = ys @ zs" "I ys t"
    "t = fold f ys s" "length ys \<le> n" "length ys = n \<or> \<not> go t \<or> zs = []"
proof -
  have "\<exists>ys zs t. list_while n go f u xs = (t, zs) \<and> xs = ys @ zs \<and> I (ws @ ys) t \<and>
      t = fold f ys u \<and> length ys \<le> n \<and> (length ys = n \<or> \<not> go t \<or> zs = [])"
    if "I ws u" for ws u xs n
    using that
  proof (induction n arbitrary: ws u xs)
    case 0
    then show ?case by (intro exI [of _ "[]"] exI [of _ xs] exI [of _ u] conjI) simp_all
  next
    case (Suc n)
    show ?case
    proof (cases "\<not> go u \<or> xs = []")
      case True
      then show ?thesis using Suc.prems
        by (intro exI [of _ "[]"] exI [of _ xs] exI [of _ u] conjI) (auto split: list.splits)
    next
      case False
      then obtain x xs' where x: "go u" "xs = x # xs'" by (cases xs) auto
      from Suc.IH [OF step [OF Suc.prems x(1)], of x xs'] obtain ys zs t where
        "list_while n go f (f x u) xs' = (t, zs) \<and> xs' = ys @ zs \<and> I ((ws @ [x]) @ ys) t \<and>
         t = fold f ys (f x u) \<and> length ys \<le> n \<and> (length ys = n \<or> \<not> go t \<or> zs = [])" by blast
      then show ?thesis using x
        by (intro exI [of _ "x # ys"] exI [of _ zs] exI [of _ t]) auto
    qed
  qed
  from this [OF assms(1), of n xs] show thesis using that by auto
qed

locale bounded_queue =
  fixes inv :: "'q \<Rightarrow> bool"
    and items :: "'q \<Rightarrow> 'a list"
    and room :: "'q \<Rightarrow> nat"
    and push :: "'a \<Rightarrow> 'q \<Rightarrow> bool \<times> 'q"
    and pop :: "'q \<Rightarrow> ('a \<times> 'q) option"
  assumes push_full: "inv q \<Longrightarrow> room q = 0 \<Longrightarrow> push v q = (False, q)"
    and push_ok: "inv q \<Longrightarrow> 0 < room q \<Longrightarrow> \<exists>q'. push v q = (True, q') \<and> inv q' \<and>
      items q' = items q @ [v] \<and> room q' = room q - 1"
    and pop_empty: "inv q \<Longrightarrow> items q = [] \<Longrightarrow> pop q = None"
    and pop_ok: "inv q \<Longrightarrow> items q = x # xs \<Longrightarrow> \<exists>q'. pop q = Some (x, q') \<and> inv q' \<and>
      items q' = xs \<and> room q' = room q + 1"
begin

lemma pop_while_list:
  assumes "inv q"
  shows "\<exists>q'. pop_while pop n go f s q = (fst (list_while n go f s (items q)), q') \<and> inv q' \<and>
    items q' = snd (list_while n go f s (items q))"
  using assms
proof (induction n arbitrary: s q)
  case (Suc n)
  show ?case
  proof (cases "items q")
    case Nil
    then show ?thesis using Suc.prems pop_empty [OF Suc.prems] by simp
  next
    case (Cons x xs)
    from pop_ok [OF Suc.prems Cons] obtain q1 where q1: "pop q = Some (x, q1)" "inv q1"
      "items q1 = xs" by blast
    from Suc.IH [OF q1(2), of "f x s"] Suc.prems q1 Cons show ?thesis by auto
  qed
qed simp

text \<open>What is pushed comes out, in the order it went in.\<close>

lemma push_pop:
  assumes "inv q" and "items q = []" and "0 < room q"
  shows "\<exists>q1 q2. push v q = (True, q1) \<and> pop q1 = Some (v, q2) \<and> items q2 = [] \<and> room q2 = room q"
proof -
  from push_ok [OF assms(1,3), of v] obtain q1 where q1: "push v q = (True, q1)" "inv q1"
    "items q1 = [v]" "room q1 = room q - 1" using assms(2) by auto
  from pop_ok [OF q1(2,3)] q1 assms(3) show ?thesis by auto
qed

end

subsection \<open>The ring\<close>

record 'a spsc =
  rb_buf :: "'a list"
  rb_head :: u64
  rb_tail :: u64

definition spsc_new :: "nat \<Rightarrow> 'a \<Rightarrow> 'a spsc" where
  "spsc_new cap v = \<lparr>rb_buf = replicate cap v, rb_head = 0, rb_tail = 0\<rparr>"

definition slot_of :: "nat \<Rightarrow> u64 \<Rightarrow> nat" where
  "slot_of cap i = unat (i AND (of_nat cap - 1))"

definition try_push :: "'a \<Rightarrow> 'a spsc \<Rightarrow> bool \<times> 'a spsc" where
  "try_push v r =
     (let h = rb_head r; n = h + 1; cap = length (rb_buf r)
      in if n - rb_tail r > of_nat cap then (False, r)
         else (True, r\<lparr>rb_buf := (rb_buf r)[slot_of cap h := v], rb_head := n\<rparr>))"

definition try_pop :: "'a spsc \<Rightarrow> ('a \<times> 'a spsc) option" where
  "try_pop r =
     (let t = rb_tail r
      in if t = rb_head r then None
         else Some (rb_buf r ! slot_of (length (rb_buf r)) t, r\<lparr>rb_tail := t + 1\<rparr>))"

text \<open>
  With a power of two below \<open>2 ^ 64\<close> as capacity, masking the wrapped index is the same as
  taking the true count modulo the capacity.
\<close>

definition pow_cap :: "nat \<Rightarrow> bool" where
  "pow_cap cap \<longleftrightarrow> (\<exists>k. 0 < k \<and> k < 63 \<and> cap = 2 ^ k)"

lemma pow_cap_bounds:
  assumes "pow_cap cap"
  shows "2 \<le> cap" and "cap < 2 ^ 63"
proof -
  from assms obtain k where k: "0 < k" "k < 63" "cap = 2 ^ k" by (auto simp: pow_cap_def)
  then show "2 \<le> cap" by (cases k) simp_all
  have "(2 :: nat) ^ k < 2 ^ 63" using k(2) by (intro power_strict_increasing) simp_all
  then show "cap < 2 ^ 63" using k(3) by simp
qed

lemma slot_of_mod:
  assumes "pow_cap cap"
  shows "slot_of cap i = unat i mod cap"
proof -
  from assms obtain k where k: "k < 63" "cap = 2 ^ k" by (auto simp: pow_cap_def)
  have "of_nat cap - 1 = (mask k :: u64)" by (simp add: k(2) mask_eq_exp_minus_1)
  then have "slot_of cap i = unat (take_bit k i)" unfolding slot_of_def by (simp only: take_bit_eq_mask)
  also have "\<dots> = take_bit k (unat i)" by (rule unsigned_take_bit_eq)
  finally show ?thesis by (simp only: take_bit_eq_mod k(2))
qed

lemma slot_of_nat:
  assumes "pow_cap cap"
  shows "slot_of cap (of_nat n) = n mod cap"
proof -
  from assms obtain k where k: "k < 63" "cap = 2 ^ k" by (auto simp: pow_cap_def)
  have "(2 :: nat) ^ k dvd 2 ^ 64" using k(1) by (intro le_imp_power_dvd) simp
  then have m: "n mod 2 ^ 64 mod 2 ^ k = n mod 2 ^ k" by (rule mod_mod_cancel)
  have "slot_of cap (of_nat n) = unat (of_nat n :: u64) mod cap" by (rule slot_of_mod [OF assms])
  also have "unat (of_nat n :: u64) = n mod 2 ^ 64" by (simp add: unat_of_nat)
  finally show ?thesis unfolding k(2) m .
qed

lemma unat_diff_counts:
  "c \<le> p \<Longrightarrow> p - c < 2 ^ 64 \<Longrightarrow> unat (of_nat p - of_nat c :: u64) = p - c"
  by (simp add: unat_of_nat flip: of_nat_diff)

text \<open>\<open>c\<close> items have been taken out of \<open>p\<close> put in; the ring holds those between.\<close>

definition ring_at :: "nat \<Rightarrow> nat \<Rightarrow> 'a spsc \<Rightarrow> bool" where
  "ring_at c p r \<longleftrightarrow>
     pow_cap (length (rb_buf r)) \<and> rb_head r = of_nat p \<and> rb_tail r = of_nat c \<and>
     c \<le> p \<and> p - c \<le> length (rb_buf r)"

definition ring_inv :: "'a spsc \<Rightarrow> bool" where
  "ring_inv r \<longleftrightarrow> (\<exists>c p. ring_at c p r)"

definition ring_items :: "'a spsc \<Rightarrow> 'a list" where
  "ring_items r =
     map (\<lambda>i. rb_buf r ! ((unat (rb_tail r) + i) mod length (rb_buf r)))
       [0..<unat (rb_head r - rb_tail r)]"

definition ring_room :: "'a spsc \<Rightarrow> nat" where
  "ring_room r = length (rb_buf r) - unat (rb_head r - rb_tail r)"

lemma ring_at_mod:
  assumes "ring_at c p r"
  shows "(unat (rb_tail r) + i) mod length (rb_buf r) = (c + i) mod length (rb_buf r)"
proof -
  have cap: "pow_cap (length (rb_buf r))" and t: "rb_tail r = of_nat c"
    using assms by (simp_all add: ring_at_def)
  have "unat (rb_tail r) mod length (rb_buf r) = c mod length (rb_buf r)"
    using slot_of_mod [OF cap, of "rb_tail r"] slot_of_nat [OF cap, of c] t by simp
  then show ?thesis by (metis mod_add_left_eq)
qed

lemma ring_at_items:
  assumes "ring_at c p r"
  shows "ring_items r = map (\<lambda>i. rb_buf r ! (i mod length (rb_buf r))) [c..<p]"
    and "length (ring_items r) = p - c" and "ring_room r = length (rb_buf r) - (p - c)"
proof -
  have le: "c \<le> p" "p - c < 2 ^ 64" and ht: "rb_head r = of_nat p" "rb_tail r = of_nat c"
    using assms pow_cap_bounds(2) [of "length (rb_buf r)"] by (auto simp: ring_at_def)
  have d: "unat (rb_head r - rb_tail r) = p - c" using unat_diff_counts [OF le] ht by simp
  have "[c..<p] = map (\<lambda>i. c + i) [0..<p - c]"
    using map_add_upt [of c "p - c"] le(1) by (simp add: add.commute)
  then show "ring_items r = map (\<lambda>i. rb_buf r ! (i mod length (rb_buf r))) [c..<p]"
    by (simp add: ring_items_def d ring_at_mod [OF assms] comp_def)
  then show "length (ring_items r) = p - c" by simp
  show "ring_room r = length (rb_buf r) - (p - c)" by (simp add: ring_room_def d)
qed

lemma mod_window_inj:
  fixes i j :: nat
  assumes "i < j" and "j - i < n"
  shows "i mod n \<noteq> j mod n"
proof
  assume "i mod n = j mod n"
  then have "n dvd j - i" using assms(1) by (metis less_imp_le mod_eq_dvd_iff_nat)
  with assms show False by (auto dest: dvd_imp_le)
qed

lemma try_push_cases:
  assumes at: "ring_at c p r"
  shows "p - c = length (rb_buf r) \<Longrightarrow> try_push v r = (False, r)"
    and "p - c < length (rb_buf r) \<Longrightarrow>
      try_push v r = (True, r\<lparr>rb_buf := (rb_buf r)[p mod length (rb_buf r) := v],
        rb_head := of_nat (Suc p)\<rparr>)"
proof -
  let ?n = "length (rb_buf r)"
  have cap: "pow_cap ?n" and ht: "rb_head r = of_nat p" "rb_tail r = of_nat c"
    and le: "c \<le> p" "p - c \<le> ?n" using at by (simp_all add: ring_at_def)
  note b = pow_cap_bounds [OF cap]
  have n: "of_nat p + 1 = (of_nat (Suc p) :: u64)" by simp
  have d: "unat (of_nat (Suc p) - of_nat c :: u64) = Suc p - c"
    using le b by (intro unat_diff_counts) simp_all
  have capn: "unat (of_nat ?n :: u64) = ?n" using b by (simp add: unat_of_nat)
  have gt: "(of_nat (Suc p) - of_nat c :: u64) > of_nat ?n \<longleftrightarrow> Suc p - c > ?n"
    unfolding word_less_nat_alt d capn ..
  show "try_push v r = (False, r)" if "p - c = ?n"
  proof -
    have "Suc p - c > ?n" using that le by simp
    then show ?thesis using gt unfolding try_push_def Let_def ht n by simp
  qed
  show "try_push v r = (True, r\<lparr>rb_buf := (rb_buf r)[p mod ?n := v], rb_head := of_nat (Suc p)\<rparr>)"
    if "p - c < ?n"
  proof -
    have "\<not> Suc p - c > ?n" using that le by simp
    then show ?thesis using gt unfolding try_push_def Let_def ht n slot_of_nat [OF cap] by simp
  qed
qed

lemma ring_items_push:
  assumes at: "ring_at c p r" and space: "p - c < length (rb_buf r)"
  shows "ring_at c (Suc p) (r\<lparr>rb_buf := (rb_buf r)[p mod length (rb_buf r) := v],
      rb_head := of_nat (Suc p)\<rparr>)"
    and "ring_items (r\<lparr>rb_buf := (rb_buf r)[p mod length (rb_buf r) := v],
      rb_head := of_nat (Suc p)\<rparr>) = ring_items r @ [v]"
proof -
  let ?n = "length (rb_buf r)"
  let ?r = "r\<lparr>rb_buf := (rb_buf r)[p mod ?n := v], rb_head := of_nat (Suc p)\<rparr>"
  have le: "c \<le> p" "0 < ?n" using at space by (auto simp: ring_at_def)
  show at': "ring_at c (Suc p) ?r" using at space by (simp add: ring_at_def Suc_diff_le)
  have old: "(rb_buf r)[p mod ?n := v] ! (i mod ?n) = rb_buf r ! (i mod ?n)" if "c \<le> i" "i < p" for i
  proof -
    have "p - i < ?n" using that space by linarith
    then have "i mod ?n \<noteq> p mod ?n" using that by (intro mod_window_inj) simp_all
    then show ?thesis by simp
  qed
  have "ring_items ?r = map (\<lambda>i. (rb_buf r)[p mod ?n := v] ! (i mod ?n)) [c..<Suc p]"
    using ring_at_items(1) [OF at'] by simp
  also have "\<dots> = map (\<lambda>i. (rb_buf r)[p mod ?n := v] ! (i mod ?n)) [c..<p] @ [v]"
    using le by simp
  also have "map (\<lambda>i. (rb_buf r)[p mod ?n := v] ! (i mod ?n)) [c..<p] = ring_items r"
    unfolding ring_at_items(1) [OF at] using old by (intro map_cong) auto
  finally show "ring_items ?r = ring_items r @ [v]" .
qed

lemma try_pop_cases:
  assumes at: "ring_at c p r"
  shows "p = c \<Longrightarrow> try_pop r = None"
    and "c < p \<Longrightarrow> try_pop r = Some (rb_buf r ! (c mod length (rb_buf r)),
      r\<lparr>rb_tail := of_nat (Suc c)\<rparr>)"
proof -
  let ?n = "length (rb_buf r)"
  have cap: "pow_cap ?n" and ht: "rb_head r = of_nat p" "rb_tail r = of_nat c"
    and le: "c \<le> p" "p - c \<le> ?n" using at by (simp_all add: ring_at_def)
  note b = pow_cap_bounds [OF cap]
  show "p = c \<Longrightarrow> try_pop r = None" by (simp add: try_pop_def ht)
  assume "c < p"
  moreover have "unat (of_nat p - of_nat c :: u64) = p - c"
    using le b by (intro unat_diff_counts) simp_all
  ultimately have "(of_nat c :: u64) \<noteq> of_nat p" by (metis diff_self not_less_iff_gr_or_eq unsigned_0 zero_less_diff)
  then show "try_pop r = Some (rb_buf r ! (c mod ?n), r\<lparr>rb_tail := of_nat (Suc c)\<rparr>)"
    by (simp add: try_pop_def Let_def ht slot_of_nat [OF cap])
qed

lemma ring_items_pop:
  assumes at: "ring_at c p r" and some: "c < p"
  shows "ring_at (Suc c) p (r\<lparr>rb_tail := of_nat (Suc c)\<rparr>)"
    and "ring_items r = rb_buf r ! (c mod length (rb_buf r)) #
      ring_items (r\<lparr>rb_tail := of_nat (Suc c)\<rparr>)"
proof -
  show at': "ring_at (Suc c) p (r\<lparr>rb_tail := of_nat (Suc c)\<rparr>)"
    using at some by (simp add: ring_at_def) linarith
  show "ring_items r = rb_buf r ! (c mod length (rb_buf r)) #
      ring_items (r\<lparr>rb_tail := of_nat (Suc c)\<rparr>)"
    using ring_at_items(1) [OF at] ring_at_items(1) [OF at'] some by (simp add: upt_rec)
qed

lemma spsc_new_at: "pow_cap cap \<Longrightarrow> ring_at 0 0 (spsc_new cap v)"
  by (simp add: ring_at_def spsc_new_def)

interpretation spsc: bounded_queue ring_inv ring_items ring_room try_push try_pop
proof
  fix r :: "'a spsc" and v x xs
  assume "ring_inv r"
  then obtain c p where at: "ring_at c p r" by (auto simp: ring_inv_def)
  note len = ring_at_items(2,3) [OF at]
  have le: "p - c \<le> length (rb_buf r)" "c \<le> p" using at by (simp_all add: ring_at_def)
  show "try_push v r = (False, r)" if "ring_room r = 0"
    using that len le by (intro try_push_cases [OF at]) simp
  show "\<exists>q'. try_push v r = (True, q') \<and> ring_inv q' \<and> ring_items q' = ring_items r @ [v] \<and>
      ring_room q' = ring_room r - 1" if "0 < ring_room r"
  proof -
    have space: "p - c < length (rb_buf r)" using that len by simp
    note pu = ring_items_push [OF at space, of v]
    show ?thesis
      using try_push_cases(2) [OF at space, of v] pu ring_at_items(3) [OF pu(1)] len le
      by (auto simp: ring_inv_def)
  qed
  show "try_pop r = None" if "ring_items r = []"
    using that len le by (intro try_pop_cases [OF at]) simp
  show "\<exists>q'. try_pop r = Some (x, q') \<and> ring_inv q' \<and> ring_items q' = xs \<and>
      ring_room q' = ring_room r + 1" if "ring_items r = x # xs"
  proof -
    have some: "c < p" using that len by simp
    note po = ring_items_pop [OF at some]
    show ?thesis
      using try_pop_cases(2) [OF at some] po that ring_at_items(3) [OF po(1)] len le some
      by (auto simp: ring_inv_def)
  qed
qed

subsection \<open>Both threads, one memory access at a time\<close>

text \<open>
  The producer runs \<open>try_push\<close>, the consumer \<open>try_pop\<close>; a step is one access to the shared
  memory, and the steps of the two interleave freely. A thread knows its own index exactly.
  The other thread's index is loaded from an atomic, and such a load may be stale: it
  returns some value the index has had, not older than the one this thread saw last. The
  records of what has been pushed and popped are history, read by no step except as the
  range of those loads.
\<close>

datatype 'a producer =
    P_Idle
  | P_Head 'a u64
  | P_Room 'a u64
  | P_Written 'a u64

datatype 'a consumer =
    C_Idle
  | C_Tail u64
  | C_Avail u64
  | C_Read u64 'a

record 'a spsc_run =
  ring :: "'a spsc"
  prod :: "'a producer"
  cons :: "'a consumer"
  seen_tail :: nat
  seen_head :: nat
  pushed :: "'a list"
  popped :: "'a list"

definition spsc_start :: "nat \<Rightarrow> 'a \<Rightarrow> 'a spsc_run" where
  "spsc_start cap v =
     \<lparr>ring = spsc_new cap v, prod = P_Idle, cons = C_Idle, seen_tail = 0, seen_head = 0,
      pushed = [], popped = []\<rparr>"

inductive spsc_step :: "'a spsc_run \<Rightarrow> 'a spsc_run \<Rightarrow> bool" where
  push_call: "prod s = P_Idle \<Longrightarrow> spsc_step s (s\<lparr>prod := P_Head v (rb_head (ring s))\<rparr>)"
| push_full: "prod s = P_Head v h \<Longrightarrow> seen_tail s \<le> j \<Longrightarrow> j \<le> length (popped s) \<Longrightarrow>
    h + 1 - of_nat j > of_nat (length (rb_buf (ring s))) \<Longrightarrow>
    spsc_step s (s\<lparr>prod := P_Idle, seen_tail := j\<rparr>)"
| push_room: "prod s = P_Head v h \<Longrightarrow> seen_tail s \<le> j \<Longrightarrow> j \<le> length (popped s) \<Longrightarrow>
    \<not> h + 1 - of_nat j > of_nat (length (rb_buf (ring s))) \<Longrightarrow>
    spsc_step s (s\<lparr>prod := P_Room v h, seen_tail := j\<rparr>)"
| push_write: "prod s = P_Room v h \<Longrightarrow>
    spsc_step s (s\<lparr>prod := P_Written v h, ring := (ring s)\<lparr>rb_buf :=
      (rb_buf (ring s))[slot_of (length (rb_buf (ring s))) h := v]\<rparr>\<rparr>)"
| push_publish: "prod s = P_Written v h \<Longrightarrow>
    spsc_step s (s\<lparr>prod := P_Idle, ring := (ring s)\<lparr>rb_head := h + 1\<rparr>,
      pushed := pushed s @ [v]\<rparr>)"
| pop_call: "cons s = C_Idle \<Longrightarrow> spsc_step s (s\<lparr>cons := C_Tail (rb_tail (ring s))\<rparr>)"
| pop_none: "cons s = C_Tail t \<Longrightarrow> seen_head s \<le> j \<Longrightarrow> j \<le> length (pushed s) \<Longrightarrow>
    t = of_nat j \<Longrightarrow> spsc_step s (s\<lparr>cons := C_Idle, seen_head := j\<rparr>)"
| pop_avail: "cons s = C_Tail t \<Longrightarrow> seen_head s \<le> j \<Longrightarrow> j \<le> length (pushed s) \<Longrightarrow>
    t \<noteq> of_nat j \<Longrightarrow> spsc_step s (s\<lparr>cons := C_Avail t, seen_head := j\<rparr>)"
| pop_read: "cons s = C_Avail t \<Longrightarrow>
    spsc_step s (s\<lparr>cons := C_Read t (rb_buf (ring s) ! slot_of (length (rb_buf (ring s))) t)\<rparr>)"
| pop_publish: "cons s = C_Read t x \<Longrightarrow>
    spsc_step s (s\<lparr>cons := C_Idle, ring := (ring s)\<lparr>rb_tail := t + 1\<rparr>,
      popped := popped s @ [x]\<rparr>)"

abbreviation spsc_steps :: "'a spsc_run \<Rightarrow> 'a spsc_run \<Rightarrow> bool" where
  "spsc_steps \<equiv> spsc_step\<^sup>*\<^sup>*"

text \<open>What holds at every point of every interleaving.\<close>

definition spsc_counts :: "'a spsc_run \<Rightarrow> bool" where
  "spsc_counts s \<longleftrightarrow>
     pow_cap (length (rb_buf (ring s))) \<and>
     rb_head (ring s) = of_nat (length (pushed s)) \<and>
     rb_tail (ring s) = of_nat (length (popped s)) \<and>
     seen_tail s \<le> length (popped s) \<and> length (popped s) \<le> seen_head s \<and>
     seen_head s \<le> length (pushed s) \<and>
     length (pushed s) - seen_tail s \<le> length (rb_buf (ring s))"

definition spsc_data :: "'a spsc_run \<Rightarrow> bool" where
  "spsc_data s \<longleftrightarrow>
     popped s = take (length (popped s)) (pushed s) \<and>
     (\<forall>i. length (popped s) \<le> i \<and> i < length (pushed s) \<longrightarrow>
        rb_buf (ring s) ! (i mod length (rb_buf (ring s))) = pushed s ! i)"

definition prod_ok :: "'a spsc_run \<Rightarrow> bool" where
  "prod_ok s \<longleftrightarrow>
     (case prod s of
        P_Idle \<Rightarrow> True
      | P_Head v h \<Rightarrow> h = of_nat (length (pushed s))
      | P_Room v h \<Rightarrow> h = of_nat (length (pushed s)) \<and>
          length (pushed s) - seen_tail s < length (rb_buf (ring s))
      | P_Written v h \<Rightarrow> h = of_nat (length (pushed s)) \<and>
          length (pushed s) - seen_tail s < length (rb_buf (ring s)) \<and>
          rb_buf (ring s) ! (length (pushed s) mod length (rb_buf (ring s))) = v)"

definition cons_ok :: "'a spsc_run \<Rightarrow> bool" where
  "cons_ok s \<longleftrightarrow>
     (case cons s of
        C_Idle \<Rightarrow> True
      | C_Tail t \<Rightarrow> t = of_nat (length (popped s))
      | C_Avail t \<Rightarrow> t = of_nat (length (popped s)) \<and> length (popped s) < seen_head s
      | C_Read t x \<Rightarrow> t = of_nat (length (popped s)) \<and> length (popped s) < seen_head s \<and>
          x = pushed s ! length (popped s))"

definition spsc_ok :: "'a spsc_run \<Rightarrow> bool" where
  "spsc_ok s \<longleftrightarrow> spsc_counts s \<and> spsc_data s \<and> prod_ok s \<and> cons_ok s"

lemma spsc_start_ok: "pow_cap cap \<Longrightarrow> spsc_ok (spsc_start cap v)"
  by (simp add: spsc_ok_def spsc_counts_def spsc_data_def prod_ok_def cons_ok_def spsc_start_def
      spsc_new_def)

lemma room_iff:
  assumes "spsc_counts s" and "seen_tail s \<le> j" and "j \<le> length (popped s)"
  shows "(of_nat (length (pushed s)) + 1 - of_nat j :: u64) > of_nat (length (rb_buf (ring s))) \<longleftrightarrow>
    length (pushed s) - j \<ge> length (rb_buf (ring s))"
proof -
  let ?n = "length (rb_buf (ring s))" and ?p = "length (pushed s)"
  have cap: "pow_cap ?n" and le: "j \<le> ?p" "?p - j \<le> ?n"
    using assms by (auto simp: spsc_counts_def)
  note b = pow_cap_bounds [OF cap]
  have n: "of_nat ?p + 1 = (of_nat (Suc ?p) :: u64)" by simp
  have "unat (of_nat (Suc ?p) - of_nat j :: u64) = Suc ?p - j"
    using le b by (intro unat_diff_counts) simp_all
  moreover have "unat (of_nat ?n :: u64) = ?n" using b by (simp add: unat_of_nat)
  ultimately show ?thesis unfolding word_less_nat_alt n using le by linarith
qed

lemma avail_iff:
  assumes "spsc_counts s" and "seen_head s \<le> j" and "j \<le> length (pushed s)"
  shows "(of_nat (length (popped s)) :: u64) = of_nat j \<longleftrightarrow> j = length (popped s)"
proof
  assume eq: "(of_nat (length (popped s)) :: u64) = of_nat j"
  have le: "length (popped s) \<le> j" "j - length (popped s) < 2 ^ 64"
    using assms pow_cap_bounds(2) [of "length (rb_buf (ring s))"] by (auto simp: spsc_counts_def)
  have "unat (of_nat j - of_nat (length (popped s)) :: u64) = j - length (popped s)"
    using le by (rule unat_diff_counts)
  with eq le show "j = length (popped s)" by simp
qed simp

named_theorems spsc_defs \<open>the parts of the invariant of the running ring\<close>

lemmas [spsc_defs] = spsc_ok_def spsc_counts_def spsc_data_def prod_ok_def cons_ok_def

lemma spsc_ok_counts: "spsc_ok s \<Longrightarrow> spsc_counts s"
  by (simp add: spsc_ok_def)

lemma spsc_write_ok:
  assumes ok: "spsc_ok s" and pc: "prod s = P_Room v h"
  shows "spsc_ok (s\<lparr>prod := P_Written v h, ring := (ring s)\<lparr>rb_buf :=
      (rb_buf (ring s))[slot_of (length (rb_buf (ring s))) h := v]\<rparr>\<rparr>)"
proof -
  let ?b = "rb_buf (ring s)" and ?p = "length (pushed s)" and ?c = "length (popped s)"
  have h: "h = of_nat ?p" "?p - seen_tail s < length ?b"
    using ok pc by (simp_all add: spsc_defs)
  have cap: "pow_cap (length ?b)" and le: "seen_tail s \<le> ?c"
    using ok by (simp_all add: spsc_defs)
  have slot: "slot_of (length ?b) h = ?p mod length ?b" by (simp add: h(1) slot_of_nat [OF cap])
  have pos: "?p mod length ?b < length ?b" using pow_cap_bounds(1) [OF cap] by (intro mod_less_divisor) linarith
  have keep: "?b[?p mod length ?b := v] ! (i mod length ?b) = ?b ! (i mod length ?b)"
    if "?c \<le> i" "i < ?p" for i
  proof -
    have "?p - i < length ?b" using that h(2) le by linarith
    then have "i mod length ?b \<noteq> ?p mod length ?b" using that by (intro mod_window_inj) simp_all
    then show ?thesis by simp
  qed
  show ?thesis
    using ok h pos keep unfolding slot by (auto simp: spsc_defs pc split: consumer.splits)
qed

lemma spsc_publish_ok:
  assumes ok: "spsc_ok s" and pc: "prod s = P_Written v h"
  shows "spsc_ok (s\<lparr>prod := P_Idle, ring := (ring s)\<lparr>rb_head := h + 1\<rparr>,
      pushed := pushed s @ [v]\<rparr>)"
proof -
  let ?b = "rb_buf (ring s)" and ?p = "length (pushed s)" and ?c = "length (popped s)"
  have v: "h = of_nat ?p" "?p - seen_tail s < length ?b" "?b ! (?p mod length ?b) = v"
    using ok pc by (simp_all add: spsc_defs)
  have c: "?c \<le> seen_head s" "seen_head s \<le> ?p" "seen_tail s \<le> ?c"
    using ok by (simp_all add: spsc_defs)
  have "spsc_counts (s\<lparr>prod := P_Idle, ring := (ring s)\<lparr>rb_head := h + 1\<rparr>, pushed := pushed s @ [v]\<rparr>)"
    using ok v c by (auto simp: spsc_ok_def spsc_counts_def)
  moreover have "spsc_data (s\<lparr>prod := P_Idle, ring := (ring s)\<lparr>rb_head := h + 1\<rparr>, pushed := pushed s @ [v]\<rparr>)"
    using ok v(3) c by (auto simp: spsc_ok_def spsc_data_def nth_append less_Suc_eq)
  ultimately show ?thesis
    using ok c by (auto simp: spsc_ok_def prod_ok_def cons_ok_def nth_append split: consumer.splits)
qed

lemma spsc_read_ok:
  assumes ok: "spsc_ok s" and pc: "cons s = C_Avail t"
  shows "spsc_ok (s\<lparr>cons := C_Read t (rb_buf (ring s) ! slot_of (length (rb_buf (ring s))) t)\<rparr>)"
proof -
  let ?b = "rb_buf (ring s)" and ?c = "length (popped s)"
  have t: "t = of_nat ?c" "?c < seen_head s" "seen_head s \<le> length (pushed s)"
    "pow_cap (length ?b)" using ok pc by (simp_all add: spsc_defs)
  have "slot_of (length ?b) t = ?c mod length ?b" by (simp add: t(1) slot_of_nat [OF t(4)])
  moreover have "?b ! (?c mod length ?b) = pushed s ! ?c" using ok t by (simp add: spsc_defs)
  ultimately show ?thesis using ok t by (auto simp: spsc_defs split: producer.splits)
qed

lemma spsc_take_ok:
  assumes ok: "spsc_ok s" and pc: "cons s = C_Read t x"
  shows "spsc_ok (s\<lparr>cons := C_Idle, ring := (ring s)\<lparr>rb_tail := t + 1\<rparr>, popped := popped s @ [x]\<rparr>)"
proof -
  let ?c = "length (popped s)"
  have t: "t = of_nat ?c" "?c < seen_head s" "x = pushed s ! ?c" "seen_head s \<le> length (pushed s)"
    using ok pc by (simp_all add: spsc_defs)
  have "popped s @ [x] = take (Suc ?c) (pushed s)"
    using ok t by (simp add: spsc_defs take_Suc_conv_app_nth)
  then show ?thesis using ok t by (auto simp: spsc_defs split: producer.splits)
qed

lemma spsc_step_ok:
  assumes "spsc_step s s'" and ok: "spsc_ok s"
  shows "spsc_ok s'"
  using assms(1)
proof (cases rule: spsc_step.cases)
  case (push_room v h j)
  then have h: "h = of_nat (length (pushed s))" using ok by (simp add: spsc_defs)
  have "length (pushed s) - j < length (rb_buf (ring s))"
    using push_room room_iff [OF spsc_ok_counts [OF ok]] by (auto simp: h not_le)
  then show ?thesis using ok push_room h by (auto simp: spsc_defs split: consumer.splits)
next
  case (pop_avail t j)
  then have t: "t = of_nat (length (popped s))" using ok by (simp add: spsc_defs)
  have "j \<noteq> length (popped s)" using pop_avail avail_iff [OF spsc_ok_counts [OF ok]] t by auto
  then show ?thesis using ok pop_avail t by (auto simp: spsc_defs split: producer.splits)
next
  case (push_full v h j)
  then show ?thesis using ok by (auto simp: spsc_defs split: consumer.splits)
next
  case (pop_none t j)
  then show ?thesis using ok by (auto simp: spsc_defs split: producer.splits)
next
  case (push_write v h)
  then show ?thesis using spsc_write_ok [OF ok] by simp
next
  case (push_publish v h)
  then show ?thesis using spsc_publish_ok [OF ok] by simp
next
  case (pop_read t)
  then show ?thesis using spsc_read_ok [OF ok] by simp
next
  case (pop_publish t x)
  then show ?thesis using spsc_take_ok [OF ok] by simp
next
  case (push_call v)
  then show ?thesis using ok by (auto simp: spsc_defs split: consumer.splits)
next
  case pop_call
  then show ?thesis using ok by (auto simp: spsc_defs split: producer.splits)
qed

lemma spsc_steps_ok: "spsc_steps s s' \<Longrightarrow> spsc_ok s \<Longrightarrow> spsc_ok s'"
  by (induction rule: rtranclp_induct) (auto intro: spsc_step_ok)

text \<open>
  The two threads never touch the same slot at once: when the producer is about to write or
  has written and not yet published, and the consumer is about to read, the slots differ.
\<close>

lemma spsc_slots_differ:
  assumes ok: "spsc_ok s" and p: "prod s = P_Room v h \<or> prod s = P_Written v h"
    and c: "cons s = C_Avail t"
  shows "slot_of (length (rb_buf (ring s))) h \<noteq> slot_of (length (rb_buf (ring s))) t"
proof -
  let ?n = "length (rb_buf (ring s))"
  have h: "h = of_nat (length (pushed s))" "length (pushed s) - seen_tail s < ?n"
    using ok p by (auto simp: spsc_defs)
  have t: "t = of_nat (length (popped s))" "length (popped s) < length (pushed s)"
    "seen_tail s \<le> length (popped s)" "pow_cap ?n"
    using ok c by (auto simp: spsc_defs)
  have "length (popped s) mod ?n \<noteq> length (pushed s) mod ?n"
    using h t by (intro mod_window_inj) simp_all
  then show ?thesis by (simp add: h t slot_of_nat)
qed

text \<open>A thread that runs its operation with nobody in between does what the function does.\<close>

lemma push_alone:
  assumes ok: "spsc_ok s" and pc: "prod s = P_Idle" and r: "try_push v (ring s) = (r, q)"
  shows "\<exists>s'. spsc_steps s s' \<and> ring s' = q \<and> prod s' = P_Idle \<and> cons s' = cons s \<and>
    pushed s' = (if r then pushed s @ [v] else pushed s) \<and> popped s' = popped s"
proof -
  let ?b = "rb_buf (ring s)" and ?h = "rb_head (ring s)" and ?c = "length (popped s)"
  have tail: "rb_tail (ring s) = of_nat ?c" "seen_tail s \<le> ?c" using ok by (simp_all add: spsc_defs)
  note call = push_call [where v = v, OF pc]
  show ?thesis
  proof (cases "?h + 1 - of_nat ?c > of_nat (length ?b)")
    case True
    then have "r = False" "q = ring s" using r tail by (simp_all add: try_push_def Let_def)
    moreover have "spsc_step (s\<lparr>prod := P_Head v ?h\<rparr>)
        (s\<lparr>prod := P_Head v ?h, prod := P_Idle, seen_tail := ?c\<rparr>)"
      by (rule push_full [where v = v and h = "?h"]) (use True tail in simp_all)
    ultimately show ?thesis using call pc
      by (intro exI [of _ "s\<lparr>prod := P_Idle, seen_tail := ?c\<rparr>"]) (auto intro: rtranclp.rtrancl_into_rtrancl)
  next
    case False
    let ?s1 = "s\<lparr>prod := P_Head v ?h\<rparr>" and ?s2 = "s\<lparr>prod := P_Room v ?h, seen_tail := ?c\<rparr>"
    let ?r = "(ring s)\<lparr>rb_buf := ?b[slot_of (length ?b) ?h := v]\<rparr>"
    let ?s3 = "?s2\<lparr>prod := P_Written v ?h, ring := ?r\<rparr>"
    let ?s4 = "?s3\<lparr>prod := P_Idle, ring := ?r\<lparr>rb_head := ?h + 1\<rparr>, pushed := pushed s @ [v]\<rparr>"
    have "spsc_step ?s1 ?s2"
      using push_room [of ?s1 v ?h ?c] False tail by simp
    moreover have "spsc_step ?s2 ?s3" using push_write [of ?s2 v ?h] by simp
    moreover have "spsc_step ?s3 ?s4" using push_publish [of ?s3 v ?h] by simp
    ultimately have "spsc_steps s ?s4"
      using call by (meson converse_rtranclp_into_rtranclp r_into_rtranclp)
    moreover have "r = True" "q = ?r\<lparr>rb_head := ?h + 1\<rparr>"
      using r False tail by (simp_all add: try_push_def Let_def)
    ultimately show ?thesis by (intro exI [of _ ?s4]) simp
  qed
qed

lemma pop_alone:
  assumes ok: "spsc_ok s" and pc: "cons s = C_Idle"
  shows "\<exists>s'. spsc_steps s s' \<and> cons s' = C_Idle \<and> prod s' = prod s \<and> pushed s' = pushed s \<and>
    (case try_pop (ring s) of
       None \<Rightarrow> ring s' = ring s \<and> popped s' = popped s
     | Some (x, q) \<Rightarrow> ring s' = q \<and> popped s' = popped s @ [x])"
proof -
  let ?b = "rb_buf (ring s)" and ?t = "rb_tail (ring s)" and ?p = "length (pushed s)"
  have head: "rb_head (ring s) = of_nat ?p" "seen_head s \<le> ?p" using ok by (simp_all add: spsc_defs)
  let ?s1 = "s\<lparr>cons := C_Tail ?t\<rparr>"
  note call = pop_call [OF pc]
  show ?thesis
  proof (cases "?t = of_nat ?p")
    case True
    then have "try_pop (ring s) = None" using head by (simp add: try_pop_def Let_def)
    moreover have "spsc_step ?s1 (?s1\<lparr>cons := C_Idle, seen_head := ?p\<rparr>)"
      by (rule pop_none [where t = "?t"]) (use True head in simp_all)
    ultimately show ?thesis using call
      by (intro exI [of _ "s\<lparr>cons := C_Idle, seen_head := ?p\<rparr>"])
        (auto intro: converse_rtranclp_into_rtranclp)
  next
    case False
    let ?x = "?b ! slot_of (length ?b) ?t"
    let ?s2 = "s\<lparr>cons := C_Avail ?t, seen_head := ?p\<rparr>" and ?r = "(ring s)\<lparr>rb_tail := ?t + 1\<rparr>"
    let ?s3 = "?s2\<lparr>cons := C_Read ?t ?x\<rparr>"
    let ?s4 = "?s3\<lparr>cons := C_Idle, ring := ?r, popped := popped s @ [?x]\<rparr>"
    have "spsc_step ?s1 ?s2" using pop_avail [of ?s1 ?t ?p] False head by simp
    moreover have "spsc_step ?s2 ?s3" using pop_read [of ?s2 ?t] by simp
    moreover have "spsc_step ?s3 ?s4" using pop_publish [of ?s3 ?t ?x] by simp
    ultimately have "spsc_steps s ?s4"
      using call by (meson converse_rtranclp_into_rtranclp r_into_rtranclp)
    moreover have "try_pop (ring s) = Some (?x, ?r)" using False head by (simp add: try_pop_def Let_def)
    ultimately show ?thesis by (intro exI [of _ ?s4]) simp
  qed
qed

lemma spsc_step_cap: "spsc_step s s' \<Longrightarrow> length (rb_buf (ring s')) = length (rb_buf (ring s))"
  by (cases rule: spsc_step.cases) auto

lemma spsc_steps_cap: "spsc_steps s s' \<Longrightarrow> length (rb_buf (ring s')) = length (rb_buf (ring s))"
  by (induction rule: rtranclp_induct) (auto dest: spsc_step_cap)

lemma spsc_run_ok:
  assumes "pow_cap cap" and "spsc_steps (spsc_start cap v) s"
  shows "spsc_ok s" and "length (rb_buf (ring s)) = cap"
  using spsc_steps_ok [OF assms(2) spsc_start_ok [OF assms(1)]] spsc_steps_cap [OF assms(2)]
  by (simp_all add: spsc_start_def spsc_new_def)

subsection \<open>The properties of the ring\<close>

text \<open>
  An interleaving of capacity four: 7 has been pushed; the producer is at its slot with 8
  while the consumer is at the slot of 7, and later the consumer has taken 7.
\<close>

definition busy_run :: "nat spsc_run" where
  "busy_run =
     \<lparr>ring = \<lparr>rb_buf = [7, 0, 0, 0], rb_head = 1, rb_tail = 0\<rparr>, prod = P_Room 8 1,
      cons = C_Avail 0, seen_tail = 0, seen_head = 1, pushed = [7], popped = []\<rparr>"

lemma pow_cap_4: "pow_cap 4"
  unfolding pow_cap_def by (intro exI [of _ 2]) simp

lemma busy_run_reach: "spsc_steps (spsc_start 4 0) busy_run"
proof -
  let ?r0 = "spsc_new 4 (0 :: nat)" and ?r1 = "\<lparr>rb_buf = [7, 0, 0, 0 :: nat], rb_head = 1, rb_tail = 0\<rparr>"
  have push: "try_push 7 ?r0 = (True, ?r1)" by code_simp
  have start: "spsc_ok (spsc_start 4 (0 :: nat))" "prod (spsc_start 4 (0 :: nat)) = P_Idle"
    "ring (spsc_start 4 (0 :: nat)) = ?r0"
    by (rule spsc_start_ok [OF pow_cap_4]) (simp_all add: spsc_start_def)
  obtain s1 where s1: "spsc_steps (spsc_start 4 (0 :: nat)) s1" "ring s1 = ?r1" "prod s1 = P_Idle"
    "cons s1 = C_Idle" "pushed s1 = [7]" "popped s1 = []"
    using push_alone [OF start(1,2), of 7 True ?r1] push start(3) by (auto simp: spsc_start_def)
  have seen: "seen_tail s1 = 0" "seen_head s1 \<le> 1"
    using spsc_run_ok(1) [OF pow_cap_4 s1(1)] s1 by (simp_all add: spsc_defs)
  let ?s2 = "s1\<lparr>prod := P_Head 8 1\<rparr>"
  let ?s3 = "?s2\<lparr>prod := P_Room 8 1, seen_tail := 0\<rparr>"
  let ?s4 = "?s3\<lparr>cons := C_Tail 0\<rparr>"
  let ?s5 = "?s4\<lparr>cons := C_Avail 0, seen_head := 1\<rparr>"
  have "spsc_step s1 ?s2" using push_call [of s1 8] s1 by simp
  moreover have "spsc_step ?s2 ?s3" using push_room [of ?s2 8 1 0] s1 seen by simp
  moreover have "spsc_step ?s3 ?s4" using pop_call [of ?s3] s1 by simp
  moreover have "spsc_step ?s4 ?s5" using pop_avail [of ?s4 0 1] s1 seen by simp
  ultimately have "spsc_steps s1 ?s5" by (meson converse_rtranclp_into_rtranclp r_into_rtranclp)
  moreover have "?s5 = busy_run" using s1 seen by (simp add: busy_run_def)
  ultimately show ?thesis using s1(1) by (metis rtranclp_trans)
qed

text \<open>C19. In every interleaving of the producer and the consumer, with arbitrarily stale loads of the
  other thread's index and indices that may wrap, what has been popped is a prefix of what
  has been pushed, in the same order and with no value lost, duplicated or changed, and at
  most the capacity is in between.\<close>
theorem spsc_fifo:
  assumes "pow_cap cap" and "spsc_steps (spsc_start cap v) s"
  shows "popped s = take (length (popped s)) (pushed s) \<and>
    length (popped s) \<le> length (pushed s) \<and> length (pushed s) - length (popped s) \<le> cap"
  using spsc_run_ok [OF assms] by (auto simp: spsc_defs)

theorem spsc_fifo_witness:
  "\<exists>s. spsc_steps (spsc_start 4 0) s \<and> pushed s = [7 :: nat] \<and> popped s = [7]"
proof -
  let ?s1 = "busy_run\<lparr>cons := C_Read 0 7\<rparr>"
  let ?s2 = "?s1\<lparr>cons := C_Idle, ring := (ring ?s1)\<lparr>rb_tail := 1\<rparr>, popped := [7]\<rparr>"
  have "rb_buf (ring busy_run) ! slot_of (length (rb_buf (ring busy_run))) 0 = 7"
    by (simp add: busy_run_def slot_of_def)
  then have "spsc_step busy_run ?s1"
    using pop_read [of busy_run 0] by (simp only:) (simp add: busy_run_def)
  moreover have "spsc_step ?s1 ?s2" using pop_publish [of ?s1 0 7] by (simp add: busy_run_def)
  ultimately have run: "spsc_steps (spsc_start 4 0) ?s2"
    using busy_run_reach by (meson rtranclp.rtrancl_into_rtrancl)
  have "length (popped ?s2) = 1" "pushed ?s2 = [7]" by (simp_all add: busy_run_def)
  moreover from this have "popped ?s2 = [7]" using spsc_fifo [OF pow_cap_4 run] by simp
  ultimately show ?thesis using run by blast
qed

text \<open>C20. The ring has no data race on its buffer: whenever the producer is at the point of writing a
  slot, or has written it and not yet published, and the consumer is at the point of
  reading one, the two slots are different; and the slot the consumer reads holds the
  oldest value not yet popped.\<close>
theorem spsc_race_free:
  assumes "pow_cap cap" and "spsc_steps (spsc_start cap v) s"
    and "prod s = P_Room x h \<or> prod s = P_Written x h" and "cons s = C_Avail t"
  shows "slot_of cap h \<noteq> slot_of cap t \<and>
    rb_buf (ring s) ! slot_of cap t = pushed s ! length (popped s)"
proof -
  note ok = spsc_run_ok [OF assms(1,2)]
  have "t = of_nat (length (popped s))" "length (popped s) < length (pushed s)"
    using ok(1) assms(4) by (auto simp: spsc_defs)
  then have "rb_buf (ring s) ! slot_of cap t = pushed s ! length (popped s)"
    using ok slot_of_nat [OF assms(1)] by (auto simp: spsc_defs)
  then show ?thesis using spsc_slots_differ [OF ok(1) assms(3,4)] by (simp add: ok(2))
qed

theorem spsc_race_free_witness: "slot_of 4 1 \<noteq> slot_of 4 0 \<and> rb_buf (ring busy_run) ! 0 = 7"
  using spsc_race_free [OF pow_cap_4 busy_run_reach, of 8 1 0]
  by (simp add: busy_run_def slot_of_def)

end
