(* ===== verification/Md_Publisher.thy ===== *)
theory Md_Publisher
  imports Itch_Protocol Spsc_Ring Order_Book
begin

section \<open>The market data publisher\<close>

text \<open>
  net/md_publisher.hpp and net/md_publisher.cpp. The matching thread enqueues events on the
  ring; the publisher's thread packs as many as fit into a datagram and sends it. The
  operating system is outside the model: the result of \<open>sendto\<close> and the readings of the clock
  are arguments, and what a round hands to \<open>sendto\<close> is a result. Md_Sockets has the system
  calls of starting and stopping.
\<close>

definition k_queue :: nat where
  "k_queue = 2 ^ 16"

definition k_hist :: nat where
  "k_hist = 2 ^ 14"

record pub_stats =
  enqueued :: u64
  dropped :: u64
  packets :: u64
  messages :: u64
  send_fail :: u64
  pub_ns :: "u64 list"
  ser_ns :: "u64 list"
  n_pub :: u32
  n_ser :: u32

record publisher =
  pq :: "event spsc"
  stats :: pub_stats
  joinable :: bool
  run :: bool
  fd :: int
  pkt_seq :: u64

definition new_publisher :: "nat \<Rightarrow> publisher" where
  "new_publisher cap =
     \<lparr>pq = spsc_new cap new_event,
      stats = \<lparr>enqueued = 0, dropped = 0, packets = 0, messages = 0, send_fail = 0,
        pub_ns = replicate k_hist 0, ser_ns = replicate k_hist 0, n_pub = 0, n_ser = 0\<rparr>,
      joinable = False, run = False, fd = - 1, pkt_seq = 0\<rparr>"

subsection \<open>The matching thread's side\<close>

definition enqueue :: "event \<Rightarrow> publisher \<Rightarrow> bool \<times> publisher" where
  "enqueue e p =
     (let (ok, q) = try_push e (pq p); st = stats p
      in if \<not> ok then (False, p\<lparr>stats := st\<lparr>dropped := dropped st + 1\<rparr>\<rparr>)
         else (True, p\<lparr>pq := q, stats := st\<lparr>enqueued := enqueued st + 1\<rparr>\<rparr>))"

definition add_event :: "u64 \<Rightarrow> side \<Rightarrow> price_t \<Rightarrow> qty_t \<Rightarrow> u64 \<Rightarrow> event" where
  "add_event oid s px q ns =
     new_event\<lparr>ev_type := Add, ev_side := s, ev_order_id := oid, ev_price := px, ev_qty := q,
       ev_ns := ns\<rparr>"

definition try_publish_add ::
    "u64 \<Rightarrow> side \<Rightarrow> price_t \<Rightarrow> qty_t \<Rightarrow> u64 \<Rightarrow> publisher \<Rightarrow> bool \<times> publisher" where
  "try_publish_add oid s px q ns p = enqueue (add_event oid s px q ns) p"

definition cancel_event :: "u64 \<Rightarrow> u64 \<Rightarrow> event" where
  "cancel_event oid ns = new_event\<lparr>ev_type := Cancel, ev_order_id := oid, ev_ns := ns\<rparr>"

definition try_publish_cancel :: "u64 \<Rightarrow> u64 \<Rightarrow> publisher \<Rightarrow> bool \<times> publisher" where
  "try_publish_cancel oid ns p = enqueue (cancel_event oid ns) p"

definition execute_event :: "u64 \<Rightarrow> price_t \<Rightarrow> qty_t \<Rightarrow> u64 \<Rightarrow> event" where
  "execute_event oid px q ns =
     new_event\<lparr>ev_type := Execute, ev_order_id := oid, ev_price := px, ev_qty := q, ev_ns := ns\<rparr>"

definition try_publish_execute ::
    "u64 \<Rightarrow> price_t \<Rightarrow> qty_t \<Rightarrow> u64 \<Rightarrow> publisher \<Rightarrow> bool \<times> publisher" where
  "try_publish_execute oid px q ns p = enqueue (execute_event oid px q ns) p"

definition snapshot_event :: "order_book \<Rightarrow> u64 \<Rightarrow> event" where
  "snapshot_event b ns =
     (let e0 = new_event\<lparr>ev_type := Snapshot, ev_ns := ns\<rparr>;
          e1 = (case best_bid b of
                  None \<Rightarrow> e0
                | Some px \<Rightarrow> e0\<lparr>ev_snap_flags := ev_snap_flags e0 OR 1, ev_bid := px,
                    ev_bid_qty := best_bid_qty b\<rparr>)
      in case best_ask b of
           None \<Rightarrow> e1
         | Some px \<Rightarrow> e1\<lparr>ev_snap_flags := ev_snap_flags e1 OR 2, ev_ask := px,
             ev_ask_qty := best_ask_qty b\<rparr>)"

definition try_publish_snapshot :: "order_book \<Rightarrow> u64 \<Rightarrow> publisher \<Rightarrow> bool \<times> publisher" where
  "try_publish_snapshot b ns p = enqueue (snapshot_event b ns) p"

subsection \<open>One round of the publisher's thread\<close>

text \<open>\<open>record\<close> of the source: the index is always counted, the sample kept while there is room.\<close>

definition record_sample :: "u64 \<Rightarrow> u64 list \<times> u32 \<Rightarrow> u64 list \<times> u32" where
  "record_sample v bn =
     (let (buf, i) = bn in (if unat i < k_hist then buf[unat i := v] else buf, i + 1))"

definition record_ser :: "u64 \<Rightarrow> pub_stats \<Rightarrow> pub_stats" where
  "record_ser v st =
     (let (buf, i) = record_sample v (ser_ns st, n_ser st) in st\<lparr>ser_ns := buf, n_ser := i\<rparr>)"

definition record_pub :: "u64 \<Rightarrow> pub_stats \<Rightarrow> pub_stats" where
  "record_pub v st =
     (let (buf, i) = record_sample v (pub_ns st, n_pub st) in st\<lparr>pub_ns := buf, n_pub := i\<rparr>)"

text \<open>
  The local variables of the round: the datagram buffer, which is not cleared from one round
  to the next, the write offset, the count and the array of time stamps; \<open>bt_stop\<close> is the
  \<open>break\<close> on a message that packs to nothing.
\<close>

record batch =
  bt_pkt :: "u8 list"
  bt_off :: nat
  bt_count :: u8
  bt_ns :: "u64 list"
  bt_stop :: bool

definition batch_go :: "batch \<Rightarrow> bool" where
  "batch_go s \<longleftrightarrow> \<not> bt_stop s \<and> bt_count s < 64 \<and> bt_off s + k_max_msg_bytes \<le> k_udp_payload"

definition batch_step :: "event \<Rightarrow> batch \<Rightarrow> batch" where
  "batch_step e s =
     (let (n, pkt) = pack_msg (bt_off s) e (bt_pkt s)
      in if n = 0 then s\<lparr>bt_pkt := pkt, bt_stop := True\<rparr>
         else s\<lparr>bt_pkt := pkt, bt_ns := (bt_ns s)[unat (bt_count s) := ev_ns e],
                bt_off := bt_off s + n, bt_count := bt_count s + 1\<rparr>)"

text \<open>The count grows with each message and stops the loop at 64, so 64 rounds are all there are.\<close>

definition fill_batch :: "u8 list \<Rightarrow> u64 list \<Rightarrow> event spsc \<Rightarrow> batch \<times> event spsc" where
  "fill_batch pkt ns q =
     pop_while try_pop 64 batch_go batch_step
       \<lparr>bt_pkt = pkt, bt_off = hdr_size, bt_count = 0, bt_ns = ns, bt_stop = False\<rparr> q"

definition make_hdr :: "u8 \<Rightarrow> nat \<Rightarrow> u64 \<Rightarrow> u64 \<Rightarrow> pkt_hdr" where
  "make_hdr count off sq ns =
     \<lparr>magic_be = bswap32 k_magic, version = k_version, hcount = count,
      nbytes_be = bswap16 (of_nat (off - hdr_size)), pkt_seq_be = bswap64 sq,
      send_ns_be = bswap64 ns\<rparr>"

definition publish_round ::
    "(u8 list \<Rightarrow> int) \<Rightarrow> u64 \<Rightarrow> u64 \<Rightarrow> u64 \<Rightarrow> u8 list \<Rightarrow> u64 list \<Rightarrow> publisher \<Rightarrow>
     u8 list option \<times> u8 list \<times> publisher" where
  "publish_round sendto ser0 ser1 after_send pkt ns p =
     (let (s, q) = fill_batch pkt ns (pq p);
          p1 = p\<lparr>pq := q\<rparr>; count = bt_count s
      in if count = 0 then (None, bt_pkt s, p1)
         else
           (let ser_each = (ser1 - ser0) div ucast count;
                st1 = (record_ser ser_each ^^ unat count) (stats p1);
                hdr = make_hdr count (bt_off s) (pkt_seq p1) ser1;
                pkt1 = write_at 0 (hdr_bytes hdr) (bt_pkt s);
                dgram = take (bt_off s) pkt1;
                sent = sendto dgram;
                p2 = p1\<lparr>pkt_seq := pkt_seq p1 + 1\<rparr>
            in if sent < 0 \<or> sent \<noteq> int (bt_off s)
               then (Some dgram, pkt1, p2\<lparr>stats := st1\<lparr>send_fail := send_fail st1 + 1\<rparr>\<rparr>)
               else
                 (let st2 = st1\<lparr>packets := packets st1 + 1, messages := messages st1 + ucast count\<rparr>;
                      st3 = fold (\<lambda>t. record_pub (after_send - t)) (take (unat count) (bt_ns s)) st2
                  in (Some dgram, pkt1, p2\<lparr>stats := st3\<rparr>))))"

subsection \<open>What a batch holds\<close>

definition batch_inv :: "event list \<Rightarrow> batch \<Rightarrow> bool" where
  "batch_inv es s \<longleftrightarrow>
     \<not> bt_stop s \<and> length es \<le> 64 \<and> bt_count s = of_nat (length es) \<and>
     length (bt_pkt s) = k_udp_payload \<and> bt_off s = hdr_size + length (msgs_bytes es) \<and>
     bt_off s \<le> k_udp_payload \<and>
     read_at hdr_size (length (msgs_bytes es)) (bt_pkt s) = msgs_bytes es \<and>
     length (bt_ns s) = 64 \<and> take (length es) (bt_ns s) = map ev_ns es"

lemma batch_inv_start:
  assumes "length pkt = k_udp_payload" and "length ns = 64"
  shows "batch_inv [] \<lparr>bt_pkt = pkt, bt_off = hdr_size, bt_count = 0, bt_ns = ns, bt_stop = False\<rparr>"
  using assms by (simp add: batch_inv_def msgs_bytes_def read_at_def sizes)

lemma small_count: "n \<le> 64 \<Longrightarrow> unat (of_nat n :: u8) = n"
  by (simp add: unat_of_nat)

lemma batch_step_inv:
  assumes inv: "batch_inv es s" and go: "batch_go s"
  shows "batch_inv (es @ [e]) (batch_step e s)"
proof -
  let ?m = "msg_bytes e"
  have len: "bt_off s + length ?m \<le> length (bt_pkt s)"
    using inv go length_msg(3) [of e] by (simp add: batch_inv_def batch_go_def)
  have count: "unat (bt_count s) = length es"
    using inv small_count by (simp add: batch_inv_def)
  have less: "length es < 64" using go count by (simp add: batch_go_def word_less_nat_alt)
  have step: "batch_step e s = s\<lparr>bt_pkt := write_at (bt_off s) ?m (bt_pkt s),
      bt_ns := (bt_ns s)[length es := ev_ns e], bt_off := bt_off s + length ?m,
      bt_count := bt_count s + 1\<rparr>"
    using pack_msg_bytes [OF len] length_msg(1) [of e] count by (simp add: batch_step_def)
  have "read_at hdr_size (length (msgs_bytes es) + length ?m) (write_at (bt_off s) ?m (bt_pkt s)) =
      msgs_bytes es @ ?m"
    using inv len unfolding read_at_split by (simp add: batch_inv_def read_write_before)
  moreover have "take (Suc (length es)) ((bt_ns s)[length es := ev_ns e]) = map ev_ns (es @ [e])"
    using inv less by (simp add: batch_inv_def take_Suc_conv_app_nth)
  ultimately show ?thesis
    using inv len less by (simp add: step batch_inv_def)
qed

lemma fill_batch_spec:
  assumes "ring_inv q" and "length pkt = k_udp_payload" and "length ns = 64"
  obtains es zs s q' where "fill_batch pkt ns q = (s, q')" "ring_inv q'" "ring_items q = es @ zs"
    "ring_items q' = zs" "batch_inv es s" "length es = 64 \<or> zs = [] \<or>
      k_udp_payload < hdr_size + length (msgs_bytes es) + k_max_msg_bytes"
proof -
  let ?s0 = "\<lparr>bt_pkt = pkt, bt_off = hdr_size, bt_count = 0, bt_ns = ns, bt_stop = False\<rparr>"
  obtain q' where q': "pop_while try_pop 64 batch_go batch_step ?s0 q =
      (fst (list_while 64 batch_go batch_step ?s0 (ring_items q)), q')" "ring_inv q'"
    "ring_items q' = snd (list_while 64 batch_go batch_step ?s0 (ring_items q))"
    using spsc.pop_while_list [OF assms(1), of 64 batch_go batch_step ?s0] by blast
  obtain es zs t where t: "list_while 64 batch_go batch_step ?s0 (ring_items q) = (t, zs)"
    "ring_items q = es @ zs" "batch_inv es t" "length es = 64 \<or> \<not> batch_go t \<or> zs = []"
    by (rule list_while_prefix [of batch_inv ?s0 batch_go batch_step,
        OF batch_inv_start [OF assms(2,3)] batch_step_inv]) blast+
  have "length es = 64 \<or> zs = [] \<or> k_udp_payload < hdr_size + length (msgs_bytes es) + k_max_msg_bytes"
  proof (cases "batch_go t \<or> length es = 64")
    case False
    then have "length es < 64" using t(3) by (simp add: batch_inv_def)
    then have "unat (bt_count t) < 64" using t(3) small_count by (simp add: batch_inv_def)
    then show ?thesis using False t(3) by (auto simp: batch_inv_def batch_go_def word_less_nat_alt)
  qed (use t(4) in auto)
  then show thesis using that [of t q' es zs] q' t by (simp add: fill_batch_def)
qed

subsection \<open>What a round sends\<close>

lemma record_ser_keeps:
  "packets ((record_ser v ^^ n) st) = packets st" "messages ((record_ser v ^^ n) st) = messages st"
  "send_fail ((record_ser v ^^ n) st) = send_fail st"
  by (induction n) (simp_all add: record_ser_def split_beta)

lemma record_pub_keeps:
  "packets (fold (\<lambda>t. record_pub (f t)) ts st) = packets st"
  "messages (fold (\<lambda>t. record_pub (f t)) ts st) = messages st"
  "send_fail (fold (\<lambda>t. record_pub (f t)) ts st) = send_fail st"
  by (induction ts arbitrary: st) (simp_all add: record_pub_def split_beta)

lemma dgram_bytes:
  assumes "batch_inv es s"
  shows "take (bt_off s) (write_at 0 (hdr_bytes h) (bt_pkt s)) = hdr_bytes h @ msgs_bytes es"
    and "length (write_at 0 (hdr_bytes h) (bt_pkt s)) = k_udp_payload"
proof -
  have len: "length (bt_pkt s) = k_udp_payload" "bt_off s = hdr_size + length (msgs_bytes es)"
    "bt_off s \<le> k_udp_payload"
    "read_at hdr_size (length (msgs_bytes es)) (bt_pkt s) = msgs_bytes es"
    using assms by (simp_all add: batch_inv_def)
  show "length (write_at 0 (hdr_bytes h) (bt_pkt s)) = k_udp_payload"
    using len by (simp add: struct_sizes)
  have "take (bt_off s) (write_at 0 (hdr_bytes h) (bt_pkt s)) =
      hdr_bytes h @ take (length (msgs_bytes es)) (drop hdr_size (bt_pkt s))"
    by (simp add: write_at_def struct_sizes len(2))
  then show "take (bt_off s) (write_at 0 (hdr_bytes h) (bt_pkt s)) = hdr_bytes h @ msgs_bytes es"
    using len(4) by (simp add: read_at_def)
qed

lemma publish_round_spec:
  assumes "ring_inv (pq p)" and "length pkt = k_udp_payload" and "length ns = 64"
  obtains (idle) pkt' p' where
      "publish_round sendto ser0 ser1 after_send pkt ns p = (None, pkt', p')"
      "ring_items (pq p) = []" "ring_items (pq p') = []" "ring_inv (pq p')"
      "length pkt' = k_udp_payload" "stats p' = stats p" "pkt_seq p' = pkt_seq p"
  | (sent) es zs dg pkt' p' where
      "publish_round sendto ser0 ser1 after_send pkt ns p = (Some dg, pkt', p')"
      "ring_items (pq p) = es @ zs" "ring_items (pq p') = zs" "ring_inv (pq p')"
      "length pkt' = k_udp_payload" "es \<noteq> []" "length es \<le> 64"
      "dg = hdr_bytes (make_hdr (of_nat (length es)) (length dg) (pkt_seq p) ser1) @ msgs_bytes es"
      "length dg \<le> k_udp_payload"
      "length es = 64 \<or> zs = [] \<or> k_udp_payload < length dg + k_max_msg_bytes"
      "pkt_seq p' = pkt_seq p + 1"
      "packets (stats p') = packets (stats p) + (if sendto dg = int (length dg) then 1 else 0)"
      "messages (stats p') =
         messages (stats p) + (if sendto dg = int (length dg) then of_nat (length es) else 0)"
      "send_fail (stats p') = send_fail (stats p) + (if sendto dg = int (length dg) then 0 else 1)"
proof -
  obtain es zs s q' where b: "fill_batch pkt ns (pq p) = (s, q')" "ring_inv q'"
    "ring_items (pq p) = es @ zs" "ring_items q' = zs" "batch_inv es s"
    "length es = 64 \<or> zs = [] \<or> k_udp_payload < hdr_size + length (msgs_bytes es) + k_max_msg_bytes"
    by (rule fill_batch_spec [OF assms])
  have count: "unat (bt_count s) = length es" "length es \<le> 64" "bt_count s = of_nat (length es)"
    "bt_off s = hdr_size + length (msgs_bytes es)" "bt_off s \<le> k_udp_payload"
    using b(5) small_count by (simp_all add: batch_inv_def)
  have zero: "bt_count s = 0 \<longleftrightarrow> es = []"
    using count(1) by (metis length_0_conv unsigned_0 unsigned_eq_0_iff)
  show thesis
  proof (cases "es = []")
    case True
    then have "zs = []" using b(6) by (simp add: msgs_bytes_def sizes)
    then show thesis
      using idle [of "bt_pkt s" "p\<lparr>pq := q'\<rparr>"] b True zero
      by (simp add: publish_round_def batch_inv_def)
  next
    case False
    let ?h = "make_hdr (bt_count s) (bt_off s) (pkt_seq p) ser1"
    let ?dg = "hdr_bytes ?h @ msgs_bytes es" and ?pkt = "write_at 0 (hdr_bytes ?h) (bt_pkt s)"
    note dg = dgram_bytes [OF b(5), of ?h]
    have len: "length ?dg = bt_off s" by (simp add: struct_sizes count(4))
    let ?st1 = "(record_ser ((ser1 - ser0) div ucast (bt_count s)) ^^ unat (bt_count s)) (stats p)"
    let ?st = "if sendto ?dg = int (bt_off s)
      then fold (\<lambda>t. record_pub (after_send - t)) (take (unat (bt_count s)) (bt_ns s))
        (?st1\<lparr>packets := packets ?st1 + 1, messages := messages ?st1 + ucast (bt_count s)\<rparr>)
      else ?st1\<lparr>send_fail := send_fail ?st1 + 1\<rparr>"
    let ?p = "p\<lparr>pq := q', pkt_seq := pkt_seq p + 1, stats := ?st\<rparr>"
    have res: "publish_round sendto ser0 ser1 after_send pkt ns p = (Some ?dg, ?pkt, ?p)"
      using False b(1) zero unfolding publish_round_def
      by (cases "sendto ?dg = int (bt_off s)") (simp_all add: Let_def dg(1) split_beta)
    have ucast: "ucast (bt_count s) = (of_nat (length es) :: u64)"
      by (simp add: count(1) [symmetric])
    show thesis
    proof (rule sent [of ?dg ?pkt ?p es zs, OF res])
      show "?dg = hdr_bytes (make_hdr (of_nat (length es)) (length ?dg) (pkt_seq p) ser1) @ msgs_bytes es"
        using len count(3) by simp
      show "length es = 64 \<or> zs = [] \<or> k_udp_payload < length ?dg + k_max_msg_bytes"
        using b(6) len count(4) by simp
    qed (use b dg(2) count(2,5) len False ucast in
        \<open>simp_all add: record_ser_keeps record_pub_keeps\<close>)
  qed
qed

end
