(* ===== verification/Md_Receiver.thy ===== *)
theory Md_Receiver
  imports Itch_Protocol
begin

section \<open>The market data receiver\<close>

text \<open>
  net/md_receiver.hpp and net/md_receiver.cpp. The results of the socket calls are
  arguments; \<open>recvfrom\<close> either fails with an error number or delivers a datagram, of which
  it stores at most the size of the buffer. The clock's reading is an argument too.
\<close>

definition r_hist :: nat where
  "r_hist = 2 ^ 14"

record recv_stats =
  r_packets :: u64
  r_messages :: u64
  r_bad :: u64
  rtt_ns :: "u64 list"
  n_rtt :: u32
  last_msg :: decoded

record receiver =
  rstats :: recv_stats
  rrun :: bool
  rfd :: int
  rbuf :: "u8 list"

definition new_receiver :: receiver where
  "new_receiver =
     \<lparr>rstats = \<lparr>r_packets = 0, r_messages = 0, r_bad = 0, rtt_ns = replicate r_hist 0, n_rtt = 0,
        last_msg = new_decoded\<rparr>,
      rrun = False, rfd = - 1, rbuf = replicate k_udp_payload 0\<rparr>"

datatype recv_errno = EAGAIN | EWOULDBLOCK | OTHER_ERRNO

datatype recv_result = Recv_Error recv_errno | Recv_Datagram "u8 list"

definition count_bad :: "recv_stats \<Rightarrow> recv_stats" where
  "count_bad st = st\<lparr>r_bad := r_bad st + 1\<rparr>"

text \<open>Storing a decoded message: the last message, and the latency sample if there is room and the
  clocks agree.\<close>

definition store_msg :: "u64 \<Rightarrow> decoded \<Rightarrow> recv_stats \<Rightarrow> recv_stats" where
  "store_msg recv_t d st =
     (let i = n_rtt st
      in st\<lparr>last_msg := d, n_rtt := i + 1,
           rtt_ns := (if unat i < r_hist \<and> recv_t \<ge> d_ns d
                      then (rtt_ns st)[unat i := recv_t - d_ns d] else rtt_ns st)\<rparr>)"

text \<open>The loop over the messages of a datagram of \<open>n\<close> bytes. It returns the messages stored into
  \<open>stats.last\<close>, in order; \<open>size_t\<close> arithmetic is that of natural numbers as long as \<open>off\<close>
  does not pass \<open>n\<close>, which \<open>unpack_msgs_ok\<close> shows.\<close>

primrec unpack_msgs ::
    "nat \<Rightarrow> u64 \<Rightarrow> u8 list \<Rightarrow> nat \<Rightarrow> nat \<Rightarrow> recv_stats \<Rightarrow> decoded list \<times> recv_stats" where
  "unpack_msgs 0 recv_t buf n off st = ([], st)"
| "unpack_msgs (Suc k) recv_t buf n off st =
     (let (used, d) = unpack_msg buf off (n - off) new_decoded
      in if used = 0 then ([], count_bad st)
         else
           (let (ds, st1) = unpack_msgs k recv_t buf n (off + used) (store_msg recv_t d st)
            in (d # ds, st1)))"

definition accept_packet :: "nat \<Rightarrow> u64 \<Rightarrow> receiver \<Rightarrow> decoded list \<times> receiver" where
  "accept_packet n recv_t r =
     (if n < hdr_size then ([], r\<lparr>rstats := count_bad (rstats r)\<rparr>)
      else
        (let h = hdr_of (read_at 0 hdr_size (rbuf r))
         in if bswap32 (magic_be h) \<noteq> k_magic \<or> version h \<noteq> k_version
            then ([], r\<lparr>rstats := count_bad (rstats r)\<rparr>)
            else
              (let (ds, st) = unpack_msgs (unat (hcount h)) recv_t (rbuf r) n hdr_size (rstats r)
               in (ds, r\<lparr>rstats := st\<lparr>r_packets := r_packets st + 1,
                      r_messages := r_messages st + of_nat (length ds)\<rparr>\<rparr>))))"

definition poll_once :: "recv_result \<Rightarrow> u64 \<Rightarrow> receiver \<Rightarrow> decoded list \<times> receiver" where
  "poll_once res recv_t r =
     (if rfd r < 0 then ([], r)
      else
        (case res of
           Recv_Error EAGAIN \<Rightarrow> ([], r)
         | Recv_Error EWOULDBLOCK \<Rightarrow> ([], r)
         | Recv_Error OTHER_ERRNO \<Rightarrow> ([], r\<lparr>rstats := count_bad (rstats r)\<rparr>)
         | Recv_Datagram dg \<Rightarrow>
             (let bs = take k_udp_payload dg
              in accept_packet (length bs) recv_t (r\<lparr>rbuf := write_at 0 bs (rbuf r)\<rparr>))))"

subsection \<open>Decoding a datagram\<close>

definition store_all :: "u64 \<Rightarrow> decoded list \<Rightarrow> recv_stats \<Rightarrow> recv_stats" where
  "store_all t ds st = fold (store_msg t) ds st"

lemma store_all_keeps:
  "r_packets (store_all t ds st) = r_packets st" "r_messages (store_all t ds st) = r_messages st"
  "r_bad (store_all t ds st) = r_bad st"
  "last_msg (store_all t ds st) = (if ds = [] then last_msg st else last ds)"
  "n_rtt (store_all t ds st) = n_rtt st + of_nat (length ds)"
  unfolding store_all_def by (induction ds arbitrary: st) (simp_all add: store_msg_def Let_def)

lemma unpack_msgs_events:
  assumes "read_at off (length (msgs_bytes es)) buf = msgs_bytes es"
    and "n = off + length (msgs_bytes es)"
  shows "unpack_msgs (length es) t buf n off st =
    (map (\<lambda>e. decode_event e new_decoded) es,
     store_all t (map (\<lambda>e. decode_event e new_decoded) es) st)"
  using assms
proof (induction es arbitrary: off st)
  case (Cons e es)
  have split: "read_at off (length (msg_bytes e)) buf = msg_bytes e"
    "read_at (off + length (msg_bytes e)) (length (msgs_bytes es)) buf = msgs_bytes es"
    using Cons.prems(1)
      read_at_append [of off "length (msg_bytes e)" "length (msgs_bytes es)" buf "msg_bytes e" "msgs_bytes es"]
    by simp_all
  have "unpack_msg buf off (n - off) new_decoded = (length (msg_bytes e), decode_event e new_decoded)"
    using split(1) Cons.prems(2) by (intro unpack_bytes) simp_all
  moreover have "length (msg_bytes e) \<noteq> 0" by (simp add: msg_bytes_def)
  moreover have "n = off + length (msg_bytes e) + length (msgs_bytes es)" using Cons.prems(2) by simp
  ultimately show ?case
    using Cons.IH [OF split(2)] by (simp add: Let_def store_all_def)
qed (simp add: store_all_def)

text \<open>The loop never looks at the buffer past the datagram.\<close>

lemma unpack_msgs_local:
  assumes "\<forall>k < n. buf' ! k = buf ! k" and "n \<le> length buf" and "n \<le> length buf'" and "off \<le> n"
  shows "unpack_msgs k t buf' n off st = unpack_msgs k t buf n off st"
  using assms(4)
proof (induction k arbitrary: off st)
  case (Suc k)
  have eq: "unpack_msg buf' off (n - off) new_decoded = unpack_msg buf off (n - off) new_decoded"
    using assms(1-3) Suc.prems by (intro unpack_local) simp_all
  have "off + fst (unpack_msg buf off (n - off) new_decoded) \<le> n"
    using unpack_used [of buf off "n - off" new_decoded] Suc.prems by linarith
  then show ?case using Suc.IH by (simp add: eq Let_def split_beta)
qed simp

lemma unpack_msgs_length: "length (fst (unpack_msgs k t buf n off st)) \<le> k"
  by (induction k arbitrary: off st) (simp_all add: Let_def split_beta)

lemma accept_packet_local:
  assumes "\<forall>k < n. buf' ! k = buf ! k" and "n \<le> length buf" and "n \<le> length buf'"
  shows "fst (accept_packet n t (r\<lparr>rbuf := buf'\<rparr>)) = fst (accept_packet n t (r\<lparr>rbuf := buf\<rparr>))"
    and "rstats (snd (accept_packet n t (r\<lparr>rbuf := buf'\<rparr>))) =
      rstats (snd (accept_packet n t (r\<lparr>rbuf := buf\<rparr>)))"
proof -
  have hdr: "read_at 0 hdr_size buf' = read_at 0 hdr_size buf" if "\<not> n < hdr_size"
    using that assms by (intro read_at_cong) simp_all
  have msgs: "unpack_msgs k t buf' n hdr_size st = unpack_msgs k t buf n hdr_size st"
    if "\<not> n < hdr_size" for k st
    using that assms by (intro unpack_msgs_local) simp_all
  show "fst (accept_packet n t (r\<lparr>rbuf := buf'\<rparr>)) = fst (accept_packet n t (r\<lparr>rbuf := buf\<rparr>))"
    "rstats (snd (accept_packet n t (r\<lparr>rbuf := buf'\<rparr>))) =
      rstats (snd (accept_packet n t (r\<lparr>rbuf := buf\<rparr>)))"
    using hdr msgs unfolding accept_packet_def Let_def
    by (cases "n < hdr_size"; simp add: split_beta)+
qed

lemma accept_packet_count:
  "length (fst (accept_packet n t r)) \<le> 255" "rbuf (snd (accept_packet n t r)) = rbuf r"
proof -
  have "unat (c :: u8) \<le> 255" for c using unsigned_less [of c, where ?'a = nat] by simp
  then show "length (fst (accept_packet n t r)) \<le> 255"
    by (auto simp: accept_packet_def Let_def split_beta intro: order_trans [OF unpack_msgs_length])
  show "rbuf (snd (accept_packet n t r)) = rbuf r"
    by (simp add: accept_packet_def Let_def split_beta)
qed

end
