(* ===== verification/Md_Sockets.thy ===== *)
theory Md_Sockets
  imports Md_Publisher Md_Receiver
begin

section \<open>Sockets and threads of the market data programs\<close>

text \<open>
  Starting and stopping the publisher and the receiver, the receiver's polling loop, the
  publisher's thread and the pinning of a thread to a processor: net/md_publisher.cpp,
  net/md_receiver.cpp and net/thread_pin.cpp, in the build for Linux, where \<open>SO_REUSEPORT\<close>
  and \<open>SO_BUSY_POLL\<close> are defined; of the pinning, the builds for other systems too. The operating system is a function that answers a call
  after the calls made before; the calls made are the trace the operations thread through.
\<close>

datatype mcast_if = Loopback_If | Any_If

datatype sock_opt =
    Reuse_Addr
  | Reuse_Port
  | Rcv_Buf nat
  | Snd_Buf nat
  | Busy_Poll nat
  | Multicast_Loop bool
  | Multicast_TTL u8
  | Multicast_If_Loopback
  | Add_Membership mcast_if

datatype sys_call =
    Sys_Socket
  | Sys_Set_Opt int sock_opt
  | Sys_Get_Flags int
  | Sys_Set_Nonblock int int
  | Sys_Bind int u16
  | Sys_Inet_Pton string
  | Sys_Sendto int string u16 "u8 list"
  | Sys_Close int
  | Sys_Set_Affinity u32
  | Sys_Thread_Policy int

type_synonym trace = "sys_call list"
type_synonym os = "trace \<Rightarrow> sys_call \<Rightarrow> int"

definition sys :: "os \<Rightarrow> sys_call \<Rightarrow> trace \<Rightarrow> int \<times> trace" where
  "sys os c tr = (os tr c, tr @ [c])"

text \<open>Calls whose results the code does not look at.\<close>

definition sys_all :: "sys_call list \<Rightarrow> trace \<Rightarrow> trace" where
  "sys_all cs tr = tr @ cs"

definition pin_current_thread :: "os \<Rightarrow> int \<Rightarrow> trace \<Rightarrow> bool \<times> trace" where
  "pin_current_thread os cpu tr =
     (if cpu < 0 then (False, tr)
      else (let (r, tr1) = sys os (Sys_Set_Affinity (of_int cpu)) tr in (r = 0, tr1)))"

text \<open>
  The three builds: macOS only tags the thread, and elsewhere nothing is done. The theories below
  use the build for Linux.
\<close>

datatype pin_build = Linux_Build | Apple_Build | Other_Build

definition pin_current_thread_in :: "pin_build \<Rightarrow> os \<Rightarrow> int \<Rightarrow> trace \<Rightarrow> bool \<times> trace" where
  "pin_current_thread_in build os cpu tr =
     (if cpu < 0 then (False, tr)
      else
        (case build of
           Linux_Build \<Rightarrow> pin_current_thread os cpu tr
         | Apple_Build \<Rightarrow> (let (r, tr1) = sys os (Sys_Thread_Policy (cpu + 1)) tr in (r = 0, tr1))
         | Other_Build \<Rightarrow> (False, tr)))"

text \<open>At most one call is made, and success means that it was made and succeeded.\<close>

lemma pin_current_thread_calls:
  "pin_current_thread_in build os cpu tr = (ok, tr') \<Longrightarrow>
     tr' = tr \<and> \<not> ok \<or> 0 \<le> cpu \<and> (\<exists>c. tr' = tr @ [c] \<and> (ok \<longleftrightarrow> os tr c = 0))"
  by (auto simp: pin_current_thread_in_def pin_current_thread_def sys_def split: if_splits pin_build.splits)

subsection \<open>The receiver\<close>

record recv_config =
  rc_group :: string
  rc_port :: u16
  rc_pin_cpu :: int

definition close_fd :: "receiver \<Rightarrow> trace \<Rightarrow> receiver \<times> trace" where
  "close_fd r tr =
     (if rfd r \<ge> 0 then (r\<lparr>rfd := - 1\<rparr>, sys_all [Sys_Close (rfd r)] tr) else (r, tr))"

text \<open>The error exit of \<open>start\<close>: close the descriptor, forget it, report failure.\<close>

definition start_failed :: "receiver \<Rightarrow> trace \<Rightarrow> bool \<times> receiver \<times> trace" where
  "start_failed r tr = (False, r\<lparr>rfd := - 1\<rparr>, sys_all [Sys_Close (rfd r)] tr)"

definition join_group :: "os \<Rightarrow> int \<Rightarrow> trace \<Rightarrow> bool \<times> trace" where
  "join_group os s tr =
     (let (r1, tr1) = sys os (Sys_Set_Opt s (Add_Membership Loopback_If)) tr
      in if r1 < 0 then
           (let (r2, tr2) = sys os (Sys_Set_Opt s (Add_Membership Any_If)) tr1 in (\<not> r2 < 0, tr2))
         else (True, tr1))"

definition recv_start :: "os \<Rightarrow> recv_config \<Rightarrow> receiver \<Rightarrow> trace \<Rightarrow> bool \<times> receiver \<times> trace" where
  "recv_start os cfg r tr =
     (let (s, tr1) = sys os Sys_Socket tr; r1 = r\<lparr>rfd := s\<rparr>
      in if s < 0 then (False, r1, tr1)
         else
           (let tr2 = sys_all [Sys_Set_Opt s Reuse_Addr, Sys_Set_Opt s Reuse_Port,
                        Sys_Set_Opt s (Rcv_Buf (2 ^ 20)), Sys_Set_Opt s (Busy_Poll 50)] tr1;
                (flags, tr3) = sys os (Sys_Get_Flags s) tr2;
                tr4 = sys_all [Sys_Set_Nonblock s flags] tr3;
                (bound, tr5) = sys os (Sys_Bind s (rc_port cfg)) tr4
            in if bound < 0 then start_failed r1 tr5
               else
                 (let (parsed, tr6) = sys os (Sys_Inet_Pton (rc_group cfg)) tr5
                  in if parsed \<noteq> 1 then start_failed r1 tr6
                     else
                       (let (joined, tr7) = join_group os s tr6
                        in if \<not> joined then start_failed r1 tr7
                           else
                             (True, r1\<lparr>rrun := True\<rparr>,
                              sys_all [Sys_Set_Opt s (Multicast_Loop True)] tr7)))))"

definition recv_stop :: "receiver \<Rightarrow> receiver" where
  "recv_stop r = r\<lparr>rrun := False\<rparr>"

definition destroy_receiver :: "receiver \<Rightarrow> trace \<Rightarrow> receiver \<times> trace" where
  "destroy_receiver r tr = close_fd (recv_stop r) tr"

text \<open>
  The polling loop. Each round reads \<open>run_\<close>, which another thread may have cleared: a round is
  what the thread reads there, with the result of \<open>recvfrom\<close> and the clock for its poll.
\<close>

primrec poll_rounds ::
    "(bool \<times> recv_result \<times> u64) list \<Rightarrow> receiver \<Rightarrow> decoded list \<times> receiver" where
  "poll_rounds [] r = ([], r)"
| "poll_rounds (x # xs) r =
     (case x of (running, res, t) \<Rightarrow>
        if \<not> running then ([], r)
        else
          (let (ds, r1) = poll_once res t r; (ds', r2) = poll_rounds xs r1 in (ds @ ds', r2)))"

definition run_loop ::
    "os \<Rightarrow> recv_config \<Rightarrow> (bool \<times> recv_result \<times> u64) list \<Rightarrow> receiver \<Rightarrow> trace \<Rightarrow>
     decoded list \<times> receiver \<times> trace" where
  "run_loop os cfg polls r tr =
     (let (_, tr1) = pin_current_thread os (rc_pin_cpu cfg) tr; (ds, r1) = poll_rounds polls r
      in (ds, r1, tr1))"

subsection \<open>The publisher\<close>

record pub_config =
  pc_group :: string
  pc_port :: u16
  pc_pin_cpu :: int
  pc_ttl :: int
  pc_loopback :: bool

definition pub_start :: "os \<Rightarrow> pub_config \<Rightarrow> publisher \<Rightarrow> trace \<Rightarrow> bool \<times> publisher \<times> trace" where
  "pub_start os cfg p tr =
     (if run p then (True, p, tr)
      else
        (let (s, tr1) = sys os Sys_Socket tr; p1 = p\<lparr>fd := s\<rparr>
         in if s < 0 then (False, p1, tr1)
            else
              (let tr2 = sys_all [Sys_Set_Opt s (Multicast_Loop (pc_loopback cfg)),
                           Sys_Set_Opt s (Multicast_TTL (of_int (pc_ttl cfg)))] tr1;
                   tr3 = (if pc_loopback cfg
                          then sys_all [Sys_Set_Opt s Multicast_If_Loopback] tr2 else tr2);
                   tr4 = sys_all [Sys_Set_Opt s (Snd_Buf (2 ^ 20))] tr3
               in (True, p1\<lparr>run := True, joinable := True\<rparr>, tr4))))"

definition pub_close :: "publisher \<Rightarrow> trace \<Rightarrow> publisher \<times> trace" where
  "pub_close p tr =
     (if fd p \<ge> 0 then (p\<lparr>fd := - 1\<rparr>, sys_all [Sys_Close (fd p)] tr) else (p, tr))"

definition pub_stop :: "publisher \<Rightarrow> trace \<Rightarrow> publisher \<times> trace" where
  "pub_stop p tr =
     (if \<not> run p then pub_close p tr
      else
        (let p1 = p\<lparr>run := False\<rparr>; p2 = (if joinable p1 then p1\<lparr>joinable := False\<rparr> else p1)
         in pub_close p2 tr))"

definition destroy_publisher :: "publisher \<Rightarrow> trace \<Rightarrow> publisher \<times> trace" where
  "destroy_publisher p tr = pub_stop p tr"

text \<open>
  A round of the thread: what it reads in \<open>run_\<close>, the three readings of the clock and the
  uninitialised array \<open>ev_ns\<close>. The buffer \<open>pkt\<close> lives across the rounds.
\<close>

record pub_round =
  pr_run :: bool
  pr_ser0 :: u64
  pr_ser1 :: u64
  pr_after :: u64
  pr_ns :: "u64 list"

definition pub_sendto :: "pub_config \<Rightarrow> publisher \<Rightarrow> u8 list \<Rightarrow> sys_call" where
  "pub_sendto cfg p dg = Sys_Sendto (fd p) (pc_group cfg) (pc_port cfg) dg"

primrec pub_rounds ::
    "os \<Rightarrow> pub_config \<Rightarrow> pub_round list \<Rightarrow> u8 list \<Rightarrow> publisher \<Rightarrow> trace \<Rightarrow> publisher \<times> trace" where
  "pub_rounds os cfg [] pkt p tr = (p, tr)"
| "pub_rounds os cfg (x # xs) pkt p tr =
     (if \<not> pr_run x then (p, tr)
      else
        (let (dg, pkt1, p1) = publish_round (\<lambda>d. os tr (pub_sendto cfg p d)) (pr_ser0 x) (pr_ser1 x)
               (pr_after x) pkt (pr_ns x) p;
             tr1 = (case dg of None \<Rightarrow> tr | Some d \<Rightarrow> sys_all [pub_sendto cfg p d] tr)
         in pub_rounds os cfg xs pkt1 p1 tr1))"

definition thread_main ::
    "os \<Rightarrow> pub_config \<Rightarrow> pub_round list \<Rightarrow> u8 list \<Rightarrow> publisher \<Rightarrow> trace \<Rightarrow> publisher \<times> trace" where
  "thread_main os cfg rounds pkt p tr =
     (let (_, tr1) = pin_current_thread os (pc_pin_cpu cfg) tr;
          (parsed, tr2) = sys os (Sys_Inet_Pton (pc_group cfg)) tr1
      in if parsed \<noteq> 1 then (p, tr2) else pub_rounds os cfg rounds pkt p tr2)"

subsection \<open>Descriptors\<close>

definition closed :: "trace \<Rightarrow> int list" where
  "closed tr = concat (map (\<lambda>c. case c of Sys_Close s \<Rightarrow> [s] | _ \<Rightarrow> []) tr)"

lemma closed_simps [simp]:
  "closed [] = []" "closed (tr @ tr') = closed tr @ closed tr'"
  "closed (c # tr) = (case c of Sys_Close s \<Rightarrow> [s] | _ \<Rightarrow> []) @ closed tr"
  by (simp_all add: closed_def)

lemma join_group_closed: "closed (snd (join_group os s tr)) = closed tr"
  by (simp add: join_group_def sys_def)

lemma recv_start_cases:
  assumes "\<not> os tr Sys_Socket < 0"
  obtains (started) tr' where "recv_start os cfg r tr = (True, r\<lparr>rfd := os tr Sys_Socket, rrun := True\<rparr>, tr')"
      "closed tr' = closed tr"
  | (failed) tr' where "recv_start os cfg r tr = (False, r\<lparr>rfd := - 1\<rparr>, tr')"
      "closed tr' = closed tr @ [os tr Sys_Socket]"
proof -
  let ?s = "os tr Sys_Socket"
  let ?tr2 = "tr @ [Sys_Socket, Sys_Set_Opt ?s Reuse_Addr, Sys_Set_Opt ?s Reuse_Port,
    Sys_Set_Opt ?s (Rcv_Buf (2 ^ 20)), Sys_Set_Opt ?s (Busy_Poll 50)]"
  define tr4 where "tr4 = ?tr2 @ [Sys_Get_Flags ?s, Sys_Set_Nonblock ?s (os ?tr2 (Sys_Get_Flags ?s))]"
  define tr5 where "tr5 = tr4 @ [Sys_Bind ?s (rc_port cfg)]"
  define tr6 where "tr6 = tr5 @ [Sys_Inet_Pton (rc_group cfg)]"
  obtain j tr7 where join: "join_group os ?s tr6 = (j, tr7)" by (cases "join_group os ?s tr6")
  have closed: "closed tr5 = closed tr" "closed tr6 = closed tr" "closed tr7 = closed tr"
    using join_group_closed [of os ?s tr6] join by (simp_all add: tr4_def tr5_def tr6_def)
  let ?fail = "\<lambda>t. (False, r\<lparr>rfd := - 1\<rparr>, t @ [Sys_Close ?s])"
  have run: "recv_start os cfg r tr =
      (if os tr4 (Sys_Bind ?s (rc_port cfg)) < 0 then ?fail tr5
       else if os tr5 (Sys_Inet_Pton (rc_group cfg)) \<noteq> 1 then ?fail tr6
       else if \<not> j then ?fail tr7
       else (True, r\<lparr>rfd := ?s, rrun := True\<rparr>, tr7 @ [Sys_Set_Opt ?s (Multicast_Loop True)]))"
    using assms join
    by (simp add: recv_start_def sys_def sys_all_def start_failed_def tr4_def tr5_def tr6_def)
  consider "recv_start os cfg r tr = ?fail tr5" | "recv_start os cfg r tr = ?fail tr6"
    | "recv_start os cfg r tr = ?fail tr7"
    | "recv_start os cfg r tr =
        (True, r\<lparr>rfd := ?s, rrun := True\<rparr>, tr7 @ [Sys_Set_Opt ?s (Multicast_Loop True)])"
    unfolding run by argo
  then show thesis
    by cases (rule failed started; assumption?; simp add: closed)+
qed

text \<open>Whatever fails, a receiver that is started once and destroyed closes the descriptor it opened,
  once, and \<open>start\<close> succeeds exactly if the receiver is ready after it.\<close>

theorem receiver_lifecycle:
  assumes "recv_start os cfg r tr = (ok, r1, tr1)" and "destroy_receiver r1 tr1 = (r2, tr2)"
  shows "closed tr2 = closed tr @ (if os tr Sys_Socket < 0 then [] else [os tr Sys_Socket]) \<and>
    (ok \<longleftrightarrow> 0 \<le> rfd r1) \<and> rfd r2 < 0 \<and> \<not> rrun r2"
proof (cases "os tr Sys_Socket < 0")
  case True
  then show ?thesis using assms
    by (auto simp: recv_start_def destroy_receiver_def close_fd_def recv_stop_def sys_def)
next
  case False
  from this show ?thesis
    by (cases rule: recv_start_cases [of os tr cfg r])
      (use False assms in \<open>auto simp: destroy_receiver_def close_fd_def recv_stop_def sys_all_def\<close>)
qed

text \<open>
  But \<open>start\<close> does not look at \<open>run_\<close>: a receiver started twice forgets the first descriptor.
  Here the system names a socket by the number of calls made before.
\<close>

definition counting_os :: os where
  "counting_os tr c = (case c of Sys_Socket \<Rightarrow> int (length tr) | Sys_Inet_Pton _ \<Rightarrow> 1 | _ \<Rightarrow> 0)"

definition default_recv_config :: recv_config where
  "default_recv_config = \<lparr>rc_group = ''239.1.2.3'', rc_port = 19001, rc_pin_cpu = - 1\<rparr>"

theorem receiver_start_twice_leaks:
  "case recv_start counting_os default_recv_config r [] of (ok1, r1, tr1) \<Rightarrow>
   case recv_start counting_os default_recv_config r1 tr1 of (ok2, r2, tr2) \<Rightarrow>
     ok1 \<and> ok2 \<and> rfd r1 = 0 \<and> rfd r2 = 11 \<and> closed (snd (destroy_receiver r2 tr2)) = [11]"
  by (simp add: recv_start_def join_group_def destroy_receiver_def close_fd_def recv_stop_def sys_def
      sys_all_def counting_os_def default_recv_config_def)

end
