(* ===== verification/Md_Properties.thy ===== *)
theory Md_Properties
  imports Md_Sockets
begin

section \<open>The properties of the market data path\<close>

text \<open>
  What a round of the publisher puts on the wire, what the receiver makes of it, and how the
  receiver treats bytes that no publisher sent.
\<close>

definition pub_buf :: "u8 list" where
  "pub_buf = replicate k_udp_payload 0"

definition pub_times :: "u64 list" where
  "pub_times = replicate 64 0"

lemma pub_buf_length: "length pub_buf = k_udp_payload" "length pub_times = 64"
  by (simp_all add: pub_buf_def pub_times_def)

text \<open>A publisher with a ring of four that has an execution and a cancellation queued.\<close>

definition demo_publisher :: publisher where
  "demo_publisher =
     snd (try_publish_cancel 9 20 (snd (try_publish_execute 7 101 3 10 (new_publisher 4))))"

definition demo_events :: "event list" where
  "demo_events = [execute_event 7 101 3 10, cancel_event 9 20]"

lemma enqueue_ok:
  assumes "ring_inv (pq p)" and "0 < ring_room (pq p)"
  obtains p' where "enqueue e p = (True, p')" "ring_inv (pq p')"
    "ring_items (pq p') = ring_items (pq p) @ [e]" "ring_room (pq p') = ring_room (pq p) - 1"
proof -
  from spsc.push_ok [OF assms, of e] obtain q where "try_push e (pq p) = (True, q)" "ring_inv q"
    "ring_items q = ring_items (pq p) @ [e]" "ring_room q = ring_room (pq p) - 1" by blast
  then show thesis using that [OF _ ] by (auto simp: enqueue_def Let_def)
qed

lemma demo_publisher_queue:
  "ring_inv (pq demo_publisher)" "ring_items (pq demo_publisher) = demo_events"
proof -
  have "ring_at 0 0 (pq (new_publisher 4))"
    using spsc_new_at [OF pow_cap_4] by (simp add: new_publisher_def)
  then have p0: "ring_inv (pq (new_publisher 4))" "ring_items (pq (new_publisher 4)) = []"
    "ring_room (pq (new_publisher 4)) = 4"
    using ring_at_items [of 0 0 "pq (new_publisher 4)"]
    by (auto simp: ring_inv_def new_publisher_def spsc_new_def)
  obtain p1 where p1: "enqueue (execute_event 7 101 3 10) (new_publisher 4) = (True, p1)"
    "ring_inv (pq p1)" "ring_items (pq p1) = [execute_event 7 101 3 10]" "ring_room (pq p1) = 3"
    by (rule enqueue_ok [OF p0(1), of "execute_event 7 101 3 10"]) (simp_all add: p0)
  obtain p2 where "enqueue (cancel_event 9 20) p1 = (True, p2)"
    "ring_inv (pq p2)" "ring_items (pq p2) = demo_events"
    by (rule enqueue_ok [OF p1(2), of "cancel_event 9 20"]) (simp_all add: p1 demo_events_def)
  then show "ring_inv (pq demo_publisher)" "ring_items (pq demo_publisher) = demo_events"
    by (simp_all add: demo_publisher_def try_publish_cancel_def try_publish_execute_def p1(1))
qed

definition demo_sendto :: "u8 list \<Rightarrow> int" where
  "demo_sendto dg = int (length dg)"

lemma demo_round:
  "\<exists>dg pkt' p'. publish_round demo_sendto 0 5 9 pub_buf pub_times demo_publisher = (Some dg, pkt', p') \<and>
     ring_items (pq p') = []"
  using demo_publisher_queue(1) pub_buf_length
proof (cases rule: publish_round_spec [where sendto = demo_sendto and ?ser0.0 = 0 and ?ser1.0 = 5
      and after_send = 9])
  case (sent es zs dg pkt' p')
  have q: "demo_events = es @ zs" using sent(2) demo_publisher_queue(2) by simp
  have "length (msgs_bytes demo_events) = 50"
    by (simp add: demo_events_def length_msg(1) length_body execute_event_def cancel_event_def sizes)
  moreover have "length (msgs_bytes es) \<le> length (msgs_bytes demo_events)"
    unfolding q by (simp add: msgs_bytes_def)
  moreover have "length es \<le> 2" using arg_cong [OF q, of length] by (simp add: demo_events_def)
  moreover have "length dg = hdr_size + length (msgs_bytes es)"
    using sent(8) struct_sizes(1) by (metis length_append)
  ultimately have "zs = []" using sent(10) by (simp add: sizes)
  then show ?thesis using sent(1,3) by blast
qed (simp add: demo_publisher_queue(2) demo_events_def)

text \<open>C22. A round of the publisher takes a batch from the front of its queue, in order, at most 64
  events and as many as are sure to fit, and sends one datagram of at most 1400 bytes: a
  header that carries the count, the payload length and the next sequence number, then the
  events' messages. Nothing is sent when the queue is empty. The packet and its messages are
  counted only if the whole datagram went out; otherwise it is a send failure and the events
  are gone.\<close>
theorem publish_round_packet:
  assumes "ring_inv (pq p)" and "length pkt = k_udp_payload" and "length ns = 64"
    and "publish_round sendto ser0 ser1 after_send pkt ns p = (out, pkt', p')"
  shows "\<exists>es zs. ring_items (pq p) = es @ zs \<and> ring_items (pq p') = zs \<and> ring_inv (pq p') \<and>
    length pkt' = k_udp_payload \<and>
    (case out of
       None \<Rightarrow> es = [] \<and> zs = [] \<and> stats p' = stats p \<and> pkt_seq p' = pkt_seq p
     | Some dg \<Rightarrow>
         dg = hdr_bytes (make_hdr (of_nat (length es)) (length dg) (pkt_seq p) ser1) @ msgs_bytes es \<and>
         es \<noteq> [] \<and> length es \<le> 64 \<and> length dg \<le> k_udp_payload \<and>
         (length es = 64 \<or> zs = [] \<or> k_udp_payload < length dg + k_max_msg_bytes) \<and>
         pkt_seq p' = pkt_seq p + 1 \<and>
         (if sendto dg = int (length dg)
          then packets (stats p') = packets (stats p) + 1 \<and>
            messages (stats p') = messages (stats p) + of_nat (length es) \<and>
            send_fail (stats p') = send_fail (stats p)
          else packets (stats p') = packets (stats p) \<and> messages (stats p') = messages (stats p) \<and>
            send_fail (stats p') = send_fail (stats p) + 1))"
  using assms(1-3)
proof (cases rule: publish_round_spec [where sendto = sendto and ?ser0.0 = ser0 and ?ser1.0 = ser1
      and after_send = after_send])
  case (idle pkt'' p'')
  then show ?thesis using assms(4) by (intro exI [of _ "[]"]) auto
next
  case (sent es zs dg pkt'' p'')
  then have out: "out = Some dg" "pkt' = pkt''" "p' = p''" using assms(4) by simp_all
  show ?thesis unfolding out option.case
    by (intro exI [of _ es] exI [of _ zs] conjI) (use sent in simp_all)
qed

theorem publish_round_packet_witness:
  "\<exists>dg pkt' p'. publish_round demo_sendto 0 5 9 pub_buf pub_times demo_publisher = (Some dg, pkt', p') \<and>
     ring_items (pq p') = [] \<and> length dg \<le> 1400 \<and> packets (stats p') = packets (stats demo_publisher) + 1"
proof -
  obtain dg pkt' p' where r: "publish_round demo_sendto 0 5 9 pub_buf pub_times demo_publisher =
      (Some dg, pkt', p')" "ring_items (pq p') = []"
    using demo_round by blast
  have "length dg \<le> 1400" "packets (stats p') = packets (stats demo_publisher) + 1"
    using publish_round_packet [OF demo_publisher_queue(1) pub_buf_length r(1)]
    by (auto simp: sizes demo_sendto_def)
  then show ?thesis using r by blast
qed

text \<open>From the ring to the receiver: what an open receiver makes of the datagram of one round.\<close>

lemma round_received:
  assumes "ring_inv (pq p)" and "length pkt = k_udp_payload" and "length ns = 64"
    and "publish_round sendto ser0 ser1 after_send pkt ns p = (Some dg, pkt', p')"
    and "0 \<le> rfd r" and "length (rbuf r) = k_udp_payload"
  obtains es where "es \<noteq> []" "ring_items (pq p) = es @ ring_items (pq p')"
    "poll_once (Recv_Datagram dg) recv_t r =
      (map (\<lambda>e. decode_event e new_decoded) es, r\<lparr>rbuf := write_at 0 dg (rbuf r),
        rstats := (store_all recv_t (map (\<lambda>e. decode_event e new_decoded) es) (rstats r))
          \<lparr>r_packets := r_packets (rstats r) + 1,
           r_messages := r_messages (rstats r) + of_nat (length es)\<rparr>\<rparr>)"
  using assms(1-3)
proof (cases rule: publish_round_spec [where sendto = sendto and ?ser0.0 = ser0 and ?ser1.0 = ser1
      and after_send = after_send])
  case (sent es zs dg' pkt'' p'')
  then have eq: "dg' = dg" "p'' = p'" using assms(4) by simp_all
  let ?h = "make_hdr (of_nat (length es)) (length dg) (pkt_seq p) ser1"
  let ?buf = "write_at 0 dg (rbuf r)" and ?ds = "map (\<lambda>e. decode_event e new_decoded) es"
  have dg: "dg = hdr_bytes ?h @ msgs_bytes es" "length dg \<le> k_udp_payload"
    "length dg = hdr_size + length (msgs_bytes es)"
    using sent(8,9) struct_sizes(1) [of ?h] unfolding eq by (auto dest: arg_cong [of _ _ length])
  have buf: "read_at 0 (length dg) ?buf = dg" using dg(2) assms(6) by simp
  then have parts: "read_at 0 hdr_size ?buf = hdr_bytes ?h"
    "read_at hdr_size (length (msgs_bytes es)) ?buf = msgs_bytes es"
    using read_at_append [of 0 hdr_size "length (msgs_bytes es)" ?buf "hdr_bytes ?h" "msgs_bytes es"]
      dg(1,3) struct_sizes(1) [of ?h] by simp_all
  have msgs: "unpack_msgs (unat (of_nat (length es) :: u8)) recv_t ?buf (length dg) hdr_size st =
      (?ds, store_all recv_t ?ds st)" for st
    using unpack_msgs_events [OF parts(2), of "length dg" recv_t st] dg(3) sent(7) small_count by simp
  have "poll_once (Recv_Datagram dg) recv_t r = (?ds, r\<lparr>rbuf := ?buf,
      rstats := (store_all recv_t ?ds (rstats r))\<lparr>r_packets := r_packets (rstats r) + 1,
        r_messages := r_messages (rstats r) + of_nat (length es)\<rparr>\<rparr>)"
    using assms(5) dg parts(1) msgs
    by (simp add: poll_once_def accept_packet_def struct_of_bytes make_hdr_def store_all_keeps)
  then show thesis using that sent(2,3,6) eq by simp
qed (use assms(4) in simp)

subsection \<open>The whole stream\<close>

definition datagrams :: "trace \<Rightarrow> u8 list list" where
  "datagrams tr = concat (map (\<lambda>c. case c of Sys_Sendto _ _ _ dg \<Rightarrow> [dg] | _ \<Rightarrow> []) tr)"

lemma datagrams_simps [simp]:
  "datagrams [] = []" "datagrams (tr @ tr') = datagrams tr @ datagrams tr'"
  "datagrams [pub_sendto cfg p dg] = [dg]"
  by (simp_all add: datagrams_def pub_sendto_def)

text \<open>Polling the datagrams one after the other, as the network delivers them.\<close>

definition poll_all :: "u64 \<Rightarrow> u8 list list \<Rightarrow> receiver \<Rightarrow> decoded list \<times> receiver" where
  "poll_all t dgs r = poll_rounds (map (\<lambda>dg. (True, Recv_Datagram dg, t)) dgs) r"

definition delivers :: "u64 \<Rightarrow> u8 list list \<Rightarrow> event list \<Rightarrow> bool" where
  "delivers t dgs es \<longleftrightarrow>
     (\<forall>r. 0 \<le> rfd r \<and> length (rbuf r) = k_udp_payload \<longrightarrow>
        (case poll_all t dgs r of (ds, r') \<Rightarrow>
           ds = map (\<lambda>e. decode_event e new_decoded) es \<and>
           r_bad (rstats r') = r_bad (rstats r) \<and>
           r_packets (rstats r') = r_packets (rstats r) + of_nat (length dgs) \<and>
           r_messages (rstats r') = r_messages (rstats r) + of_nat (length es)))"

lemma delivers_Nil: "delivers t [] []"
  by (simp add: delivers_def poll_all_def)

lemma delivers_Cons:
  assumes "ring_inv (pq p)" and "length pkt = k_udp_payload" and "length ns = 64"
    and "publish_round sendto ser0 ser1 after_send pkt ns p = (Some dg, pkt', p')"
    and "ring_items (pq p) = es @ ring_items (pq p')" and "delivers t dgs es'"
  shows "delivers t (dg # dgs) (es @ es')"
  unfolding delivers_def
proof (intro allI impI)
  fix r :: receiver assume r: "0 \<le> rfd r \<and> length (rbuf r) = k_udp_payload"
  then have r1: "0 \<le> rfd r" and r2: "length (rbuf r) = k_udp_payload" by simp_all
  obtain es1 where es1: "ring_items (pq p) = es1 @ ring_items (pq p')"
    and poll: "poll_once (Recv_Datagram dg) t r =
      (map (\<lambda>e. decode_event e new_decoded) es1, r\<lparr>rbuf := write_at 0 dg (rbuf r),
        rstats := (store_all t (map (\<lambda>e. decode_event e new_decoded) es1) (rstats r))
          \<lparr>r_packets := r_packets (rstats r) + 1,
           r_messages := r_messages (rstats r) + of_nat (length es1)\<rparr>\<rparr>)"
    by (rule round_received [OF assms(1-4) r1 r2, of t])
  then have "es1 = es" using assms(5) by simp
  have dg: "length dg \<le> k_udp_payload"
    using assms(1-3)
  proof (cases rule: publish_round_spec [where sendto = sendto and ?ser0.0 = ser0 and ?ser1.0 = ser1
        and after_send = after_send])
    case (sent es zs dg' pkt'' p'')
    then show ?thesis using assms(4) by simp
  qed (use assms(4) in simp)
  define r' where "r' = snd (poll_once (Recv_Datagram dg) t r)"
  have r': "poll_once (Recv_Datagram dg) t r = (map (\<lambda>e. decode_event e new_decoded) es, r')"
    "0 \<le> rfd r'" "length (rbuf r') = k_udp_payload" "r_bad (rstats r') = r_bad (rstats r)"
    "r_packets (rstats r') = r_packets (rstats r) + 1"
    "r_messages (rstats r') = r_messages (rstats r) + of_nat (length es)"
    using r1 r2 dg \<open>es1 = es\<close> by (simp_all add: r'_def poll store_all_keeps write_at_def)
  obtain ds2 r2' where p2: "poll_all t dgs r' = (ds2, r2')" by (cases "poll_all t dgs r'")
  with assms(6) r'(2,3) have rest: "ds2 = map (\<lambda>e. decode_event e new_decoded) es'"
    "r_bad (rstats r2') = r_bad (rstats r')"
    "r_packets (rstats r2') = r_packets (rstats r') + of_nat (length dgs)"
    "r_messages (rstats r2') = r_messages (rstats r') + of_nat (length es')"
    unfolding delivers_def by force+
  have all: "poll_all t (dg # dgs) r = (map (\<lambda>e. decode_event e new_decoded) es @ ds2, r2')"
    using p2 r'(1) by (simp add: poll_all_def)
  show "case poll_all t (dg # dgs) r of (ds, r') \<Rightarrow>
      ds = map (\<lambda>e. decode_event e new_decoded) (es @ es') \<and> r_bad (rstats r') = r_bad (rstats r) \<and>
      r_packets (rstats r') = r_packets (rstats r) + of_nat (length (dg # dgs)) \<and>
      r_messages (rstats r') = r_messages (rstats r) + of_nat (length (es @ es'))"
    unfolding all using rest r'(4-6) by simp
qed

lemma pub_rounds_stream:
  assumes "ring_inv (pq p)" and "length pkt = k_udp_payload"
    and "\<forall>x \<in> set rounds. pr_run x \<and> length (pr_ns x) = 64"
  shows "\<exists>es dgs. datagrams (snd (pub_rounds os cfg rounds pkt p tr)) = datagrams tr @ dgs \<and>
    ring_items (pq p) = es @ ring_items (pq (fst (pub_rounds os cfg rounds pkt p tr))) \<and>
    ring_inv (pq (fst (pub_rounds os cfg rounds pkt p tr))) \<and>
    delivers t dgs es \<and> length dgs \<le> length rounds \<and>
    (length (ring_items (pq p)) \<le> length rounds \<longrightarrow>
       ring_items (pq (fst (pub_rounds os cfg rounds pkt p tr))) = [])"
  using assms
proof (induction rounds arbitrary: pkt p tr)
  case Nil
  then show ?case using delivers_Nil by (intro exI [of _ "[]"]) simp
next
  case (Cons x xs)
  let ?send = "\<lambda>d. os tr (pub_sendto cfg p d)"
  have ns: "length (pr_ns x) = 64" "pr_run x" and rest: "\<forall>x \<in> set xs. pr_run x \<and> length (pr_ns x) = 64"
    using Cons.prems(3) by simp_all
  show ?case
    using Cons.prems(1,2) ns(1)
  proof (cases rule: publish_round_spec [where sendto = ?send and ?ser0.0 = "pr_ser0 x"
        and ?ser1.0 = "pr_ser1 x" and after_send = "pr_after x"])
    case (idle pkt1 p1)
    then have run: "pub_rounds os cfg (x # xs) pkt p tr = pub_rounds os cfg xs pkt1 p1 tr"
      using ns(2) by simp
    show ?thesis
      using Cons.IH [OF idle(4,5) rest, of tr] unfolding run idle(2,3) by auto
  next
    case (sent es zs dg pkt1 p1)
    then have run: "pub_rounds os cfg (x # xs) pkt p tr =
        pub_rounds os cfg xs pkt1 p1 (sys_all [pub_sendto cfg p dg] tr)"
      using ns(2) by simp
    let ?tr = "sys_all [pub_sendto cfg p dg] tr"
    from Cons.IH [OF sent(4,5) rest, of ?tr] obtain es' dgs where ih:
      "datagrams (snd (pub_rounds os cfg xs pkt1 p1 ?tr)) = datagrams ?tr @ dgs"
      "zs = es' @ ring_items (pq (fst (pub_rounds os cfg xs pkt1 p1 ?tr)))"
      "ring_inv (pq (fst (pub_rounds os cfg xs pkt1 p1 ?tr)))"
      "delivers t dgs es'" "length dgs \<le> length xs"
      "length zs \<le> length xs \<longrightarrow> ring_items (pq (fst (pub_rounds os cfg xs pkt1 p1 ?tr))) = []"
      unfolding sent(3) by blast
    have items: "ring_items (pq p) = es @ ring_items (pq p1)" using sent(2,3) by simp
    have del: "delivers t (dg # dgs) (es @ es')"
      by (rule delivers_Cons [OF Cons.prems(1,2) ns(1) sent(1) items ih(4)])
    have "0 < length es" using sent(6) by simp
    then have "length (ring_items (pq p)) \<le> Suc (length xs) \<longrightarrow> length zs \<le> length xs"
      unfolding sent(2) length_append by linarith
    then show ?thesis
      unfolding run using ih del sent(2)
      by (intro exI [of _ "es @ es'"] exI [of _ "dg # dgs"]) (simp add: sys_all_def)
  qed
qed

text \<open>C23. End to end: whatever the rounds of the publisher's thread read in the clock and however
  \<open>sendto\<close> answers, the datagrams handed to the network, delivered in order to an open
  receiver, are decoded there to exactly the events taken from the front of the queue, in
  order, none lost, none twice, none of them bad, and every packet and message counted; after
  as many rounds as the queue holds events, the queue is empty, so everything is delivered.\<close>
theorem stream_delivered:
  assumes "ring_inv (pq p)" and "length pkt = k_udp_payload"
    and "\<forall>x \<in> set rounds. pr_run x \<and> length (pr_ns x) = 64"
    and "\<And>tr. os tr (Sys_Inet_Pton (pc_group cfg)) = 1"
    and "0 \<le> rfd r" and "length (rbuf r) = k_udp_payload"
  shows "\<exists>es p' tr'. thread_main os cfg rounds pkt p [] = (p', tr') \<and>
    ring_items (pq p) = es @ ring_items (pq p') \<and>
    fst (poll_all t (datagrams tr') r) = map (\<lambda>e. decode_event e new_decoded) es \<and>
    (let st = rstats r; st' = rstats (snd (poll_all t (datagrams tr') r))
     in r_bad st' = r_bad st \<and> r_packets st' = r_packets st + of_nat (length (datagrams tr')) \<and>
        r_messages st' = r_messages st + of_nat (length es)) \<and>
    (length (ring_items (pq p)) \<le> length rounds \<longrightarrow> ring_items (pq p') = [])"
proof -
  obtain b tr1 where pin: "pin_current_thread os (pc_pin_cpu cfg) [] = (b, tr1)"
    by (cases "pin_current_thread os (pc_pin_cpu cfg) []")
  then have "datagrams tr1 = []"
    by (auto simp: pin_current_thread_def sys_def datagrams_def split: if_splits)
  let ?tr = "tr1 @ [Sys_Inet_Pton (pc_group cfg)]"
  have run: "thread_main os cfg rounds pkt p [] = pub_rounds os cfg rounds pkt p ?tr"
    using assms(4) by (simp add: thread_main_def pin sys_def)
  have "datagrams ?tr = []" using \<open>datagrams tr1 = []\<close> by (simp add: datagrams_def)
  obtain p' tr' where out: "pub_rounds os cfg rounds pkt p ?tr = (p', tr')"
    by (cases "pub_rounds os cfg rounds pkt p ?tr")
  from pub_rounds_stream [OF assms(1-3), of os cfg ?tr t] obtain es where
    es: "ring_items (pq p) = es @ ring_items (pq p')" "delivers t (datagrams tr') es"
    "length (ring_items (pq p)) \<le> length rounds \<longrightarrow> ring_items (pq p') = []"
    unfolding out fst_conv snd_conv \<open>datagrams ?tr = []\<close> append_Nil by blast
  obtain ds r' where all: "poll_all t (datagrams tr') r = (ds, r')" by (cases "poll_all t (datagrams tr') r")
  with es(2) assms(5,6) have "ds = map (\<lambda>e. decode_event e new_decoded) es"
    "r_bad (rstats r') = r_bad (rstats r)"
    "r_packets (rstats r') = r_packets (rstats r) + of_nat (length (datagrams tr'))"
    "r_messages (rstats r') = r_messages (rstats r) + of_nat (length es)"
    unfolding delivers_def by force+
  then show ?thesis unfolding run out Let_def using es(1,3) all
    by (intro exI [of _ es] exI [of _ p'] exI [of _ tr']) simp
qed

definition demo_rounds :: "pub_round list" where
  "demo_rounds = replicate 2 \<lparr>pr_run = True, pr_ser0 = 0, pr_ser1 = 5, pr_after = 9, pr_ns = pub_times\<rparr>"

definition demo_pub_config :: pub_config where
  "demo_pub_config = \<lparr>pc_group = ''239.1.2.3'', pc_port = 19001, pc_pin_cpu = - 1, pc_ttl = 1,
     pc_loopback = True\<rparr>"

definition demo_os :: os where
  "demo_os tr c = (case c of Sys_Inet_Pton _ \<Rightarrow> 1 | Sys_Sendto _ _ _ dg \<Rightarrow> int (length dg) | _ \<Rightarrow> 0)"

theorem stream_delivered_witness:
  "\<exists>p' tr'. thread_main demo_os demo_pub_config demo_rounds pub_buf demo_publisher [] = (p', tr') \<and>
     map d_qty (fst (poll_all 50 (datagrams tr') (new_receiver\<lparr>rfd := 3\<rparr>))) = [3, 0] \<and>
     map d_order_id (fst (poll_all 50 (datagrams tr') (new_receiver\<lparr>rfd := 3\<rparr>))) = [7, 9]"
proof -
  have rounds: "\<forall>x \<in> set demo_rounds. pr_run x \<and> length (pr_ns x) = 64"
    by (simp add: demo_rounds_def pub_buf_length)
  have group: "demo_os tr (Sys_Inet_Pton (pc_group demo_pub_config)) = 1" for tr
    by (simp add: demo_os_def)
  have open_r: "0 \<le> rfd (new_receiver\<lparr>rfd := 3\<rparr>)" "length (rbuf (new_receiver\<lparr>rfd := 3\<rparr>)) = k_udp_payload"
    by (simp_all add: new_receiver_def)
  have "length demo_events \<le> length demo_rounds" by (simp add: demo_events_def demo_rounds_def)
  with stream_delivered [where os = demo_os and cfg = demo_pub_config and t = 50,
      OF demo_publisher_queue(1) pub_buf_length(1) rounds group open_r]
  obtain p' tr' where run: "thread_main demo_os demo_pub_config demo_rounds pub_buf demo_publisher [] = (p', tr')"
    "fst (poll_all 50 (datagrams tr') (new_receiver\<lparr>rfd := 3\<rparr>)) =
       map (\<lambda>e. decode_event e new_decoded) demo_events"
    by (auto simp: demo_publisher_queue(2))
  then show ?thesis
    by (intro exI [of _ p'] exI [of _ tr'])
      (simp add: demo_events_def decode_event_def execute_event_def cancel_event_def new_decoded_def
        new_event_def)
qed

text \<open>C24. The receiver is safe against any datagram: what it decodes and counts does not depend on
  what its buffer held before, so no byte past the datagram is read as data; it decodes at
  most 255 messages, and its buffer keeps its size.\<close>
theorem poll_once_isolated:
  assumes "length buf1 = k_udp_payload" and "length buf2 = k_udp_payload"
  shows "fst (poll_once res recv_t (r\<lparr>rbuf := buf1\<rparr>)) = fst (poll_once res recv_t (r\<lparr>rbuf := buf2\<rparr>)) \<and>
    rstats (snd (poll_once res recv_t (r\<lparr>rbuf := buf1\<rparr>))) =
      rstats (snd (poll_once res recv_t (r\<lparr>rbuf := buf2\<rparr>))) \<and>
    length (fst (poll_once res recv_t (r\<lparr>rbuf := buf1\<rparr>))) \<le> 255 \<and>
    length (rbuf (snd (poll_once res recv_t (r\<lparr>rbuf := buf1\<rparr>)))) = k_udp_payload"
proof (cases res)
  case (Recv_Error e)
  then show ?thesis using assms(1)
    by (cases e) (simp_all add: poll_once_def count_bad_def)
next
  case (Recv_Datagram dg)
  let ?bs = "take k_udp_payload dg"
  have len: "length ?bs \<le> k_udp_payload" by simp
  have same: "\<forall>k < length ?bs. write_at 0 ?bs buf1 ! k = write_at 0 ?bs buf2 ! k"
    by (simp add: write_at_def nth_append)
  note loc = accept_packet_local [OF same, of recv_t r]
  show ?thesis
    using loc assms len accept_packet_count
    by (simp add: poll_once_def Recv_Datagram Let_def)
qed

theorem poll_once_isolated_witness:
  "fst (poll_once (Recv_Datagram [1, 2]) 0 (new_receiver\<lparr>rfd := 3, rbuf := replicate 1400 7\<rparr>)) =
   fst (poll_once (Recv_Datagram [1, 2]) 0 (new_receiver\<lparr>rfd := 3, rbuf := replicate 1400 0\<rparr>))"
proof -
  have len: "length (replicate 1400 (7 :: u8)) = k_udp_payload"
    "length (replicate 1400 (0 :: u8)) = k_udp_payload" by (simp_all add: sizes)
  show ?thesis using poll_once_isolated [OF len] by blast
qed

end
