(* ===== verification/Ingress.thy ===== *)
theory Ingress
  imports Engine_Properties
begin

section \<open>Commands into a book, and the exchange they implement\<close>

text \<open>
  The commands of include/lob/pipeline.hpp and their application to an order book, with the
  abstract exchange they implement: two sides of price-time queues, the next order id and
  the number of orders there is room for. \<open>apply_cmd_ok\<close> is the refinement step; the
  pipeline and the shards rest on it.
\<close>

datatype ingress_type = LimitCmd | MarketCmd | CancelCmd

record ingress_cmd =
  ic_type :: ingress_type
  ic_side :: side
  ic_price :: price_t
  ic_qty :: qty_t
  ic_cancel_id :: order_id_t
  ic_instrument :: u32
  ic_seq :: u64

definition new_cmd :: ingress_cmd where
  "new_cmd = \<lparr>ic_type = LimitCmd, ic_side = Buy, ic_price = 0, ic_qty = 1, ic_cancel_id = 0,
     ic_instrument = 0, ic_seq = 0\<rparr>"

text \<open>The \<open>switch\<close> of \<open>apply\<close>; \<open>None\<close> is a market order that does not return.\<close>

definition apply_cmd :: "ingress_cmd \<Rightarrow> order_book \<Rightarrow> order_book option" where
  "apply_cmd c b =
     (case ic_type c of
        LimitCmd \<Rightarrow> Some (snd (add_limit_order (ic_side c) (ic_price c) (ic_qty c) b))
      | MarketCmd \<Rightarrow> map_option snd (market_order (ic_side c) (ic_qty c) b)
      | CancelCmd \<Rightarrow> Some (snd (cancel_order (ic_cancel_id c) b)))"

subsection \<open>The abstract exchange\<close>

record exchange =
  ex_view :: "side \<Rightarrow> aside"
  ex_next :: nat
  ex_cap :: nat

definition ex_count :: "exchange \<Rightarrow> nat" where
  "ex_count x = length (side_ids (ex_view x Buy)) + length (side_ids (ex_view x Sell))"

definition ex_apply :: "ingress_cmd \<Rightarrow> exchange \<Rightarrow> exchange" where
  "ex_apply c x =
     (case ic_type c of
        LimitCmd \<Rightarrow>
          (if ex_count x = ex_cap x then x
           else (let s = ic_side c
                 in x\<lparr>ex_view := (ex_view x)(s := sp_add (side_cmp s) (ic_price c)
                        (new_aorder (ex_next x) (ic_qty c)) (ex_view x s)),
                      ex_next := ex_next x + 1\<rparr>))
      | MarketCmd \<Rightarrow>
          (let s = opposite (ic_side c)
           in x\<lparr>ex_view := (ex_view x)(s := snd (sp_match (unat (ic_qty c)) (ex_view x s)))\<rparr>)
      | CancelCmd \<Rightarrow> x\<lparr>ex_view := (\<lambda>s. sp_remove (ic_cancel_id c) (ex_view x s))\<rparr>)"

definition abs_book :: "order_book \<Rightarrow> exchange" where
  "abs_book b = \<lparr>ex_view = book_view b, ex_next = next_order_id b, ex_cap = capacity (pool b)\<rparr>"

text \<open>A book without pending stops whose orders come from the slab.\<close>

definition plain_book :: "order_book \<Rightarrow> bool" where
  "plain_book b \<longleftrightarrow> book_inv [] b \<and> mode (pool b) = Pool"

text \<open>The quantity a command may add to the book.\<close>

definition cmd_qty :: "ingress_cmd \<Rightarrow> nat" where
  "cmd_qty c = (case ic_type c of LimitCmd \<Rightarrow> unat (ic_qty c) | _ \<Rightarrow> 0)"

lemma liquidity_remove: "liquidity (sp_remove i ls) \<le> liquidity ls"
proof (induction ls)
  case (Cons l ls)
  obtain p' xs where l: "l = (p', xs)" by (cases l)
  have "sum_list (map order_liq (filter (\<lambda>x. ao_id x \<noteq> i) xs)) \<le> sum_list (map order_liq xs)"
    by (induction xs) auto
  with Cons show ?case by (auto simp: l sp_remove_simps Let_def)
qed (simp add: sp_remove_simps)

lemma pool_full_count: "plain_book b \<Longrightarrow> pool_full b \<longleftrightarrow> ex_count (abs_book b) = ex_cap (abs_book b)"
  using slots_count [of "[]" b]
  by (auto simp: plain_book_def pool_full_def ex_count_def abs_book_def free_count_def
      simp flip: length_0_conv)

lemma frame_plain:
  "book_frame [] b b' \<Longrightarrow> book_inv [] b' \<Longrightarrow> plain_book b \<Longrightarrow>
   plain_book b' \<and> capacity (pool b') = capacity (pool b)"
  by (simp add: plain_book_def book_frame_def)

lemma apply_limit_ok:
  assumes plain: "plain_book b" and room: "book_liq b + unat q < 2 ^ 63"
  shows "let b' = snd (add_limit_order s px q b)
    in plain_book b' \<and> book_liq b' \<le> book_liq b + unat q \<and>
       abs_book b' = (if ex_count (abs_book b) = ex_cap (abs_book b) then abs_book b
         else (abs_book b)\<lparr>ex_view := (book_view b)(s := sp_add (side_cmp s) px
                (new_aorder (next_order_id b) q) (book_view b s)), ex_next := next_order_id b + 1\<rparr>)"
proof (cases "pool_full b")
  case True
  then show ?thesis using plain pool_full_count [OF plain] by (simp add: add_limit_full)
next
  case False
  from plain obtain L where rel: "book_rel L [] b" by (auto simp: plain_book_def book_inv_iff)
  have "level_liq px (book_view b s) + unat q < 2 ^ 64"
    using room level_liq_le [of px "book_view b s"] liquidity_le_book [of b s] by simp
  then obtain b' where b': "add_limit_order s px q b = (next_order_id b, b')" "book_inv [] b'"
    "book_view b' = (book_view b)(s := sp_add (side_cmp s) px (new_aorder (next_order_id b) q) (book_view b s))"
    "next_order_id b' = next_order_id b + 1" "book_frame [] b b'"
    using add_limit_ok [OF rel _ False] by metis
  have "book_liq b' = book_liq b + unat q"
    unfolding book_liq_side [of _ s] b'(3) by (simp add: liquidity_add order_liq_def new_aorder_def)
  then show ?thesis
    using b' frame_plain [OF b'(5,2) plain] False pool_full_count [OF plain] by (simp add: abs_book_def)
qed

lemma apply_market_ok:
  assumes plain: "plain_book b"
  shows "\<exists>gs b'. market_order s q b = Some (gs, b') \<and> plain_book b' \<and> book_liq b' \<le> book_liq b \<and>
    map abs_fill gs = fst (sp_match (unat q) (book_view b (opposite s))) \<and>
    abs_book b' = (abs_book b)\<lparr>ex_view := (book_view b)(opposite s :=
      snd (sp_match (unat q) (book_view b (opposite s))))\<rparr>"
proof -
  obtain fs r where sp: "sp_match (unat q) (book_view b (opposite s)) = (fs, r)"
    by (cases "sp_match (unat q) (book_view b (opposite s))")
  have inv: "book_inv [] b" using plain by (simp add: plain_book_def)
  obtain gs b' where b': "market_order s q b = Some (gs, b')" "book_inv [] b'"
    "book_view b' = (book_view b)(opposite s := r)" "next_order_id b' = next_order_id b"
    "book_frame [] b b'" "map abs_fill gs = fs"
    by (rule market_order_spec [OF inv sp])
  have "liquidity r \<le> liquidity (book_view b (opposite s))"
    using sp_match_filled(2) [OF sp book_inv_view(1) [OF inv]] by simp
  then have "book_liq b' \<le> book_liq b" unfolding book_liq_side [of _ s] b'(3) by simp
  then show ?thesis using b' frame_plain [OF b'(5,2) plain] sp by (simp add: abs_book_def)
qed

lemma apply_cancel_ok:
  assumes plain: "plain_book b"
  shows "let b' = snd (cancel_order oid b)
    in plain_book b' \<and> book_liq b' \<le> book_liq b \<and>
       abs_book b' = (abs_book b)\<lparr>ex_view := (\<lambda>s. sp_remove oid (book_view b s))\<rparr>"
proof -
  from plain obtain L where rel: "book_rel L [] b" by (auto simp: plain_book_def book_inv_iff)
  have inv: "book_inv [] b" using plain by (simp add: plain_book_def)
  show ?thesis
  proof (cases "find_id oid b")
    case None
    have "oid \<notin> set (side_ids (book_view b s))" for s
    proof
      assume "oid \<in> set (side_ids (book_view b s))"
      then obtain a where "a \<in> set (concat (L s))" "order_id (mem b a) = oid"
        by (auto simp: book_view_ids [OF rel])
      then show False using find_id_Some [OF rel, of a] None by (cases s) (auto simp: live_def resting_def)
    qed
    then have "sp_remove oid (book_view b s) = book_view b s" for s
      using sp_remove_absent book_inv_view(2) [OF inv] by simp
    then show ?thesis using plain by (simp add: cancel_unknown [OF None] abs_book_def)
  next
    case (Some a)
    obtain b' where b': "cancel_order oid b = (True, b')" "book_inv [] b'"
      "book_view b' = (\<lambda>t. sp_remove oid (book_view b t))" "next_order_id b' = next_order_id b"
      "book_frame [] b b'"
      by (rule cancel_resting [OF rel Some]) simp_all
    have "book_liq b' \<le> book_liq b"
      unfolding book_liq_def b'(3) using liquidity_remove by (intro add_mono)
    then show ?thesis using b' frame_plain [OF b'(5,2) plain] by (simp add: abs_book_def)
  qed
qed

lemma apply_cmd_ok:
  assumes "plain_book b" and "book_liq b + cmd_qty c < 2 ^ 63"
  shows "\<exists>b'. apply_cmd c b = Some b' \<and> plain_book b' \<and> book_liq b' \<le> book_liq b + cmd_qty c \<and>
    abs_book b' = ex_apply c (abs_book b)"
proof (cases "ic_type c")
  case LimitCmd
  then show ?thesis using apply_limit_ok [OF assms(1), of "ic_qty c" "ic_side c" "ic_price c"] assms(2)
    by (simp add: apply_cmd_def ex_apply_def cmd_qty_def Let_def) (simp add: abs_book_def)
next
  case MarketCmd
  then show ?thesis using apply_market_ok [OF assms(1), of "ic_side c" "ic_qty c"]
    by (auto simp: apply_cmd_def ex_apply_def cmd_qty_def Let_def) (simp add: abs_book_def)
next
  case CancelCmd
  then show ?thesis using apply_cancel_ok [OF assms(1), of "ic_cancel_id c"]
    by (auto simp: apply_cmd_def ex_apply_def cmd_qty_def Let_def) (simp add: abs_book_def)
qed

subsection \<open>What a command does to the ids, and what is found\<close>

definition ex_ids :: "exchange \<Rightarrow> nat set" where
  "ex_ids x = set (side_ids (ex_view x Buy)) \<union> set (side_ids (ex_view x Sell))"

lemma ex_ids_side: "ex_ids x = set (side_ids (ex_view x s)) \<union> set (side_ids (ex_view x (opposite s)))"
  by (cases s) (auto simp: ex_ids_def)

lemma ids_add: "set (side_ids (sp_add cmp p x ls)) \<subseteq> insert (ao_id x) (set (side_ids ls))"
  by (induction ls) (auto split: if_splits)

lemma ids_remove: "set (side_ids (sp_remove i ls)) = set (side_ids ls) - {i}"
proof (induction ls)
  case (Cons l ls)
  obtain p xs where l: "l = (p, xs)" by (cases l)
  let ?ys = "filter (\<lambda>x. ao_id x \<noteq> i) xs"
  have "ao_id ` set ?ys = ao_id ` set xs - {i}" by auto
  then have "set (side_ids (if ?ys = [] then [] else [(p, ?ys)])) = ao_id ` set xs - {i}"
    by (cases "?ys = []") (simp_all only: if_True if_False side_ids_simps set_map set_append list.set
        image_empty Un_empty_right simp_thms)
  with Cons show ?case by (simp add: l sp_remove_simps Let_def Un_Diff)
qed (simp add: sp_remove_simps)

lemma ids_match: "sp_match q ls = (fs, r) \<Longrightarrow> set (side_ids r) \<subseteq> set (side_ids ls)"
proof (induction rule: sp_match_induct)
  case (take q p x xs ls fs r t)
  have "set (side_ids (sp_consume t p x xs ls)) \<subseteq> set (side_ids ((p, x # xs) # ls))"
    by (auto simp: sp_consume_def Let_def)
  with take show ?case by blast
qed auto

lemma ex_ids_apply:
  "ex_ids (ex_apply c x) \<subseteq> (case ic_type c of
     LimitCmd \<Rightarrow> insert (ex_next x) (ex_ids x)
   | MarketCmd \<Rightarrow> ex_ids x
   | CancelCmd \<Rightarrow> ex_ids x - {ic_cancel_id c})"
proof (cases "ic_type c")
  case LimitCmd
  then show ?thesis
    using ids_add [of "side_cmp (ic_side c)" "ic_price c" "new_aorder (ex_next x) (ic_qty c)"
        "ex_view x (ic_side c)"]
    by (auto simp: ex_apply_def ex_ids_side [of _ "ic_side c"] Let_def new_aorder_def)
next
  case MarketCmd
  let ?s = "opposite (ic_side c)"
  have "set (side_ids (snd (sp_match (unat (ic_qty c)) (ex_view x ?s)))) \<subseteq> set (side_ids (ex_view x ?s))"
    by (rule ids_match) (rule prod.collapse [symmetric])
  with MarketCmd show ?thesis by (auto simp: ex_apply_def ex_ids_side [of _ ?s] Let_def)
next
  case CancelCmd
  then show ?thesis by (auto simp: ex_apply_def ex_ids_def ids_remove)
qed

lemma ex_next_apply: "ex_next (ex_apply c x) = ex_next x + (if ic_type c = LimitCmd \<and> ex_count x \<noteq> ex_cap x then 1 else 0)"
  by (auto simp: ex_apply_def Let_def split: ingress_type.splits)

lemma next_id_apply:
  assumes "abs_book b' = ex_apply c (abs_book b)"
  shows "next_order_id b' = next_order_id b +
    (if ic_type c = LimitCmd \<and> ex_count (abs_book b) \<noteq> ex_cap (abs_book b) then 1 else 0)"
proof -
  have sel: "ex_next (abs_book x) = next_order_id x" for x by (simp add: abs_book_def)
  show ?thesis using arg_cong [OF assms, of ex_next] unfolding ex_next_apply sel .
qed

lemma found_ids:
  assumes "plain_book b"
  shows "find_id oid b \<noteq> None \<longleftrightarrow> oid \<in> ex_ids (abs_book b)"
  using id_table [of "[]" b oid] assms by (simp add: plain_book_def ex_ids_def abs_book_def)

lemma next_id_pos: "plain_book b \<Longrightarrow> 0 < next_order_id b"
  by (auto simp: plain_book_def book_inv_iff book_rel_def ids_rel_def intro: le_less_trans)

lemma add_limit_id:
  assumes "plain_book b"
  shows "fst (add_limit_order s px q b) = (if ex_count (abs_book b) = ex_cap (abs_book b) then 0 else next_order_id b)"
proof (cases "pool_full b")
  case True
  then show ?thesis using pool_full_count [OF assms] by (simp add: add_limit_full)
next
  case False
  then have "fst (add_limit_order s px q b) = next_order_id b"
    by (cases rule: allocate_cases [of "pool b" "mem b"])
      (auto simp: pool_full_def add_limit_order_def Let_def split: prod.splits)
  then show ?thesis using False pool_full_count [OF assms] by simp
qed

lemma cancel_found: "fst (cancel_order oid b) \<longleftrightarrow> find_id oid b \<noteq> None"
  by (simp add: cancel_order_def Let_def split: option.splits)

subsection \<open>The engine without stops\<close>

definition engine_plain :: "engine \<Rightarrow> bool" where
  "engine_plain e \<longleftrightarrow> plain_book (book e) \<and> pending_stops e = []"

lemma plain_no_stops: "plain_book b \<Longrightarrow> pending_stop_storage b = []"
  by (auto simp: plain_book_def book_inv_def book_rel_def pending_ok_def)

lemma submit_limit_plain:
  "submit_limit s px q 0 e = (fst (add_limit_order s px q (book e)), e\<lparr>book := snd (add_limit_order s px q (book e))\<rparr>)"
  by (simp add: submit_limit_def split_beta)

text \<open>Without stops a market order is what its policy does; any positive fuel is enough.\<close>

lemma submit_policy_plain:
  assumes "engine_plain e" and "0 < fuel" and "mtch s q (book e) = Some (gs, b)" and "plain_book b"
  shows "submit_market fuel mtch s q e = Some (gs, e\<lparr>book := b\<rparr>)"
proof -
  obtain n where n: "fuel = Suc n" using assms(2) by (cases fuel) auto
  have "gather_stops (e\<lparr>book := b\<rparr>) = ([], e\<lparr>book := b\<rparr>)"
    using plain_no_stops [OF assms(4)] assms(1)
    by (simp add: gather_stops_def take_pending_stops_def engine_plain_def)
  then show ?thesis
    by (simp add: submit_market_def market_with_def assms(3) process_triggers_def n Let_def)
qed

lemma submit_market_plain:
  assumes "engine_plain e" and "0 < fuel" and "market_order s q (book e) = Some (gs, b)" and "plain_book b"
  shows "submit_market fuel fifo_match s q e = Some (gs, e\<lparr>book := b\<rparr>)"
  by (rule submit_policy_plain [OF assms(1,2) _ assms(4)]) (simp add: fifo_match_def assms(3))

end
