(* ===== verification/Mpsc_Ring.thy ===== *)
theory Mpsc_Ring
  imports Spsc_Ring
begin

section \<open>The multi-producer single-consumer ring\<close>

text \<open>
  include/lob/mpsc_queue.hpp. Every slot has a sequence number: a slot whose number is the
  position is free for that position, one more means its data is published. First the
  operations run alone, another implementation of the bounded queue interface; then any
  number of producers and the consumer at the grain of single memory accesses.

  The code subtracts positions cast to \<open>intptr_t\<close>; the model takes the difference of the
  words and reads it as signed, which is the same number as long as positions stay below
  \<open>2 ^ 63\<close> (beyond that the subtraction of the code overflows).
\<close>

subsection \<open>The ring\<close>

record 'a slot =
  seq :: u64
  dat :: 'a

record 'a mpsc =
  slots :: "'a slot list"
  enqueue_pos :: u64
  dequeue_pos :: u64

definition mpsc_new :: "nat \<Rightarrow> 'a \<Rightarrow> 'a mpsc" where
  "mpsc_new cap v =
     \<lparr>slots = map (\<lambda>i. \<lparr>seq = of_nat i, dat = v\<rparr>) [0..<cap], enqueue_pos = 0, dequeue_pos = 0\<rparr>"

definition seq_dif :: "u64 \<Rightarrow> u64 \<Rightarrow> int" where
  "seq_dif a b = sint (a - b)"

definition mslot :: "'a mpsc \<Rightarrow> u64 \<Rightarrow> nat" where
  "mslot q pos = slot_of (length (slots q)) pos"

definition set_seq :: "nat \<Rightarrow> u64 \<Rightarrow> 'a mpsc \<Rightarrow> 'a mpsc" where
  "set_seq i n q = q\<lparr>slots := (slots q)[i := (slots q ! i)\<lparr>seq := n\<rparr>]\<rparr>"

definition set_dat :: "nat \<Rightarrow> 'a \<Rightarrow> 'a mpsc \<Rightarrow> 'a mpsc" where
  "set_dat i v q = q\<lparr>slots := (slots q)[i := (slots q ! i)\<lparr>dat := v\<rparr>]\<rparr>"

text \<open>
  \<open>try_push\<close> alone: the compare-and-swap succeeds, and reloading the position when the
  difference is positive gives the same value, so that branch goes round for ever. \<open>None\<close>
  is that it does not return; \<open>mpsc_at\<close> below excludes it.
\<close>

partial_function (option) mpsc_push_loop :: "u64 \<Rightarrow> 'a \<Rightarrow> 'a mpsc \<Rightarrow> (bool \<times> 'a mpsc) option" where
  "mpsc_push_loop pos v q =
     (let i = mslot q pos; dif = seq_dif (seq (slots q ! i)) pos
      in if dif = 0 then
           Some (True, set_seq i (pos + 1) (set_dat i v (q\<lparr>enqueue_pos := pos + 1\<rparr>)))
         else if dif < 0 then Some (False, q)
         else mpsc_push_loop (enqueue_pos q) v q)"

definition mpsc_try_push :: "'a \<Rightarrow> 'a mpsc \<Rightarrow> (bool \<times> 'a mpsc) option" where
  "mpsc_try_push v q = mpsc_push_loop (enqueue_pos q) v q"

definition mpsc_try_pop :: "'a mpsc \<Rightarrow> ('a \<times> 'a mpsc) option" where
  "mpsc_try_pop q =
     (let pos = dequeue_pos q; i = mslot q pos; dif = seq_dif (seq (slots q ! i)) (pos + 1)
      in if dif < 0 then None
         else Some (dat (slots q ! i),
           (set_seq i (pos + of_nat (length (slots q))) q)\<lparr>dequeue_pos := pos + 1\<rparr>))"

definition mpsc_empty :: "'a mpsc \<Rightarrow> bool" where
  "mpsc_empty q =
     (let pos = dequeue_pos q in seq_dif (seq (slots q ! mslot q pos)) (pos + 1) < 0)"

subsection \<open>Positions\<close>

lemma seq_dif_nat:
  assumes "a < b + 2 ^ 63" and "b \<le> a + 2 ^ 63"
  shows "seq_dif (of_nat a) (of_nat b) = int a - int b"
proof -
  have "of_nat a - of_nat b = (word_of_int (int a - int b) :: u64)" by simp
  then have "sint (of_nat a - of_nat b :: u64) = signed_take_bit (LENGTH(64) - 1) (int a - int b)"
    by (simp only: sint_sbintrunc')
  also have "\<dots> = int a - int b" using assms by (intro signed_take_bit_int_eq_self) simp_all
  finally show ?thesis by (simp add: seq_dif_def)
qed

lemma mod_window_unique:
  fixes i j :: nat
  assumes "i mod n = j mod n" and "r \<le> i" "i < r + n" "r \<le> j" "j < r + n"
  shows "i = j"
proof (rule ccontr)
  assume "i \<noteq> j"
  then consider "i < j" "j - i < n" | "j < i" "i - j < n" using assms(2-5) by linarith
  then show False using mod_window_inj [of i j n] mod_window_inj [of j i n] assms(1) by cases auto
qed

text \<open>Every slot is that of one position of a window as long as the ring.\<close>

lemma window_cover:
  fixes n :: nat
  assumes "i < n"
  obtains p where "r \<le> p" "p < r + n" "p mod n = i"
proof -
  let ?p = "r + (i + (n - r mod n)) mod n"
  have "r mod n \<le> n" using assms by simp
  then have "r mod n + (i + (n - r mod n)) = i + n" by linarith
  then have "(r mod n + (i + (n - r mod n))) mod n = i" using assms by simp
  then have "?p mod n = i" by (metis mod_add_left_eq mod_add_right_eq)
  then show thesis using that [of ?p] assms by simp
qed

subsection \<open>The operations alone\<close>

text \<open>
  \<open>c\<close> values have been taken out and \<open>e\<close> put in. The slots and positions, seen as a ring of
  data with head and tail, are a ring of the single-producer kind.
\<close>

definition mpsc_at :: "nat \<Rightarrow> nat \<Rightarrow> 'a mpsc \<Rightarrow> bool" where
  "mpsc_at c e q \<longleftrightarrow>
     pow_cap (length (slots q)) \<and> enqueue_pos q = of_nat e \<and> dequeue_pos q = of_nat c \<and>
     c \<le> e \<and> e - c \<le> length (slots q) \<and>
     (\<forall>p. c \<le> p \<and> p < c + length (slots q) \<longrightarrow>
        seq (slots q ! (p mod length (slots q))) = of_nat (if p < e then Suc p else p))"

definition mpsc_inv :: "'a mpsc \<Rightarrow> bool" where
  "mpsc_inv q \<longleftrightarrow> (\<exists>c e. mpsc_at c e q)"

definition mpsc_ring :: "'a mpsc \<Rightarrow> 'a spsc" where
  "mpsc_ring q = \<lparr>rb_buf = map dat (slots q), rb_head = enqueue_pos q, rb_tail = dequeue_pos q\<rparr>"

definition mpsc_items :: "'a mpsc \<Rightarrow> 'a list" where
  "mpsc_items q = ring_items (mpsc_ring q)"

definition mpsc_room :: "'a mpsc \<Rightarrow> nat" where
  "mpsc_room q = ring_room (mpsc_ring q)"

lemma mpsc_ring_at: "mpsc_at c e q \<Longrightarrow> ring_at c e (mpsc_ring q)"
  by (simp add: mpsc_at_def ring_at_def mpsc_ring_def)

lemma set_simps [simp]:
  "length (slots (set_seq i n q)) = length (slots q)" "enqueue_pos (set_seq i n q) = enqueue_pos q"
  "dequeue_pos (set_seq i n q) = dequeue_pos q"
  "length (slots (set_dat i v q)) = length (slots q)" "enqueue_pos (set_dat i v q) = enqueue_pos q"
  "dequeue_pos (set_dat i v q) = dequeue_pos q"
  by (simp_all add: set_seq_def set_dat_def)

lemma seq_set [simp]:
  "i < length (slots q) \<Longrightarrow> seq (slots (set_seq i n q) ! k) = (if k = i then n else seq (slots q ! k))"
  "i < length (slots q) \<Longrightarrow> seq (slots (set_dat i v q) ! k) = seq (slots q ! k)"
  by (auto simp: set_seq_def set_dat_def nth_list_update)

lemma dat_set [simp]:
  "i < length (slots q) \<Longrightarrow> dat (slots (set_dat i v q) ! k) = (if k = i then v else dat (slots q ! k))"
  "i < length (slots q) \<Longrightarrow> dat (slots (set_seq i n q) ! k) = dat (slots q ! k)"
  by (auto simp: set_seq_def set_dat_def nth_list_update)

lemma dats_set [simp]:
  "i < length (slots q) \<Longrightarrow> map dat (slots (set_seq i n q)) = map dat (slots q)"
  "map dat (slots (set_dat i v q)) = (map dat (slots q))[i := v]"
  by (simp_all add: set_seq_def set_dat_def map_update list_update_same_conv)

lemma mpsc_seq_at:
  assumes "mpsc_at c e q" and "c \<le> p" and "p < c + length (slots q)"
  shows "mslot q (of_nat p) = p mod length (slots q)"
    and "seq (slots q ! (p mod length (slots q))) = of_nat (if p < e then Suc p else p)"
    and "p mod length (slots q) < length (slots q)"
proof -
  have cap: "pow_cap (length (slots q))" using assms by (simp add: mpsc_at_def)
  show "mslot q (of_nat p) = p mod length (slots q)" by (simp add: mslot_def slot_of_nat [OF cap])
  show "seq (slots q ! (p mod length (slots q))) = of_nat (if p < e then Suc p else p)"
    using assms unfolding mpsc_at_def by blast
  show "p mod length (slots q) < length (slots q)"
    using pow_cap_bounds(1) [OF cap] by (intro mod_less_divisor) linarith
qed

lemma mpsc_push_full:
  assumes at: "mpsc_at c e q" and full: "e - c = length (slots q)"
  shows "mpsc_try_push v q = Some (False, q)"
proof -
  let ?n = "length (slots q)"
  have b: "2 \<le> ?n" "?n < 2 ^ 63" "c \<le> e" "enqueue_pos q = of_nat e"
    using at pow_cap_bounds by (auto simp: mpsc_at_def)
  have "e mod ?n = c mod ?n" using full b(3) by (metis add.commute le_add_diff_inverse mod_add_self2)
  then have slot: "mslot q (of_nat e) = c mod ?n"
    using at by (simp add: mslot_def mpsc_at_def slot_of_nat)
  have ne: "slots q \<noteq> []" using b by auto
  then have "seq (slots q ! (c mod ?n)) = of_nat (Suc c)"
    using mpsc_seq_at(2) [OF at, of c] b full by auto
  moreover have "seq_dif (of_nat (Suc c)) (of_nat e) = int (Suc c) - int e"
    using b full by (intro seq_dif_nat) linarith+
  ultimately have "seq_dif (seq (slots q ! mslot q (of_nat e))) (of_nat e) = int (Suc c) - int e"
    by (simp only: slot)
  moreover have "int (Suc c) - int e < 0" using b(1,3) full by linarith
  ultimately have neg: "seq_dif (seq (slots q ! mslot q (of_nat e))) (of_nat e) < 0" by simp
  show ?thesis
    unfolding mpsc_try_push_def b(4) by (subst mpsc_push_loop.simps) (use neg in \<open>simp add: Let_def\<close>)
qed

lemma mpsc_push_ok:
  assumes at: "mpsc_at c e q" and space: "e - c < length (slots q)"
  obtains q' where "mpsc_try_push v q = Some (True, q')" "mpsc_at c (Suc e) q'"
    "mpsc_ring q' = (mpsc_ring q)\<lparr>rb_buf := (rb_buf (mpsc_ring q))[e mod length (slots q) := v],
       rb_head := of_nat (Suc e)\<rparr>"
proof -
  let ?n = "length (slots q)"
  let ?q = "set_seq (e mod ?n) (of_nat (Suc e)) (set_dat (e mod ?n) v (q\<lparr>enqueue_pos := of_nat (Suc e)\<rparr>))"
  have a: "c \<le> e" "enqueue_pos q = of_nat e" "pow_cap ?n" using at by (simp_all add: mpsc_at_def)
  note s = mpsc_seq_at [OF at a(1)]
  have i: "e mod ?n < ?n" "mslot q (of_nat e) = e mod ?n" "seq (slots q ! (e mod ?n)) = of_nat e"
    using s a space by auto
  have "seq_dif (of_nat e) (of_nat e) = 0" and "of_nat e + 1 = (of_nat (Suc e) :: u64)"
    by (simp_all add: seq_dif_def)
  then have "mpsc_try_push v q = Some (True, ?q)"
    using i by (simp add: mpsc_try_push_def mpsc_push_loop.simps [of "of_nat e"] Let_def a(2)
        del: of_nat_Suc)
  moreover have "mpsc_at c (Suc e) ?q"
  proof -
    have "seq (slots ?q ! (p mod ?n)) = of_nat (if p < Suc e then Suc p else p)"
      if p: "c \<le> p" "p < c + ?n" for p
    proof (cases "p = e")
      case True
      then show ?thesis using i(1) by simp
    next
      case False
      have "e < c + ?n" using a(1) space by linarith
      then have "p mod ?n \<noteq> e mod ?n" using mod_window_unique [of p ?n e c] p a(1) False by blast
      then show ?thesis using mpsc_seq_at(2) [OF at p] i(1) False by simp
    qed
    then show ?thesis using at space by (simp add: mpsc_at_def Suc_diff_le)
  qed
  moreover have "mpsc_ring ?q = (mpsc_ring q)\<lparr>rb_buf := (rb_buf (mpsc_ring q))[e mod ?n := v],
      rb_head := of_nat (Suc e)\<rparr>"
    using i(1) by (simp add: mpsc_ring_def)
  ultimately show thesis using that by blast
qed

lemma mpsc_pop_cases:
  assumes at: "mpsc_at c e q"
  shows "c = e \<Longrightarrow> mpsc_try_pop q = None"
    and "c < e \<Longrightarrow> \<exists>q'. mpsc_try_pop q = Some (dat (slots q ! (c mod length (slots q))), q') \<and>
      mpsc_at (Suc c) e q' \<and> mpsc_ring q' = (mpsc_ring q)\<lparr>rb_tail := of_nat (Suc c)\<rparr>"
proof -
  let ?n = "length (slots q)"
  have a: "c \<le> e" "dequeue_pos q = of_nat c" "pow_cap ?n" "e - c \<le> ?n"
    using at by (simp_all add: mpsc_at_def)
  note b = pow_cap_bounds [OF a(3)]
  have i: "mslot q (of_nat c) = c mod ?n" "c mod ?n < ?n"
    "seq (slots q ! (c mod ?n)) = of_nat (if c < e then Suc c else c)"
    using mpsc_seq_at [OF at, of c] b by (cases "slots q = []"; simp)+
  have pos: "of_nat c + 1 = (of_nat (Suc c) :: u64)" by simp
  have dif: "seq_dif (of_nat (if c < e then Suc c else c)) (of_nat (Suc c)) = (if c < e then 0 else - 1)"
    by (subst seq_dif_nat) auto
  show "mpsc_try_pop q = None" if "c = e"
    using that dif i unfolding mpsc_try_pop_def Let_def a(2) pos by (simp del: of_nat_Suc)
  show "\<exists>q'. mpsc_try_pop q = Some (dat (slots q ! (c mod ?n)), q') \<and>
      mpsc_at (Suc c) e q' \<and> mpsc_ring q' = (mpsc_ring q)\<lparr>rb_tail := of_nat (Suc c)\<rparr>" if "c < e"
  proof -
    let ?q = "(set_seq (c mod ?n) (of_nat (c + ?n)) q)\<lparr>dequeue_pos := of_nat (Suc c)\<rparr>"
    have "mpsc_try_pop q = Some (dat (slots q ! (c mod ?n)), ?q)"
      using that dif i unfolding mpsc_try_pop_def Let_def a(2) pos by (simp del: of_nat_Suc)
    moreover have "mpsc_at (Suc c) e ?q"
    proof -
      have "seq (slots ?q ! (p mod ?n)) = of_nat (if p < e then Suc p else p)"
        if p: "Suc c \<le> p" "p < Suc c + ?n" for p
      proof (cases "p = c + ?n")
        case True
        then show ?thesis using i(2) a(1,4) by simp
      next
        case False
        have w: "c \<le> p" "p < c + ?n" "p \<noteq> c" "0 < ?n" using p False b by linarith+
        then have "p mod ?n \<noteq> c mod ?n" using mod_window_unique [of p ?n c c] by auto
        then show ?thesis using mpsc_seq_at(2) [OF at w(1,2)] i(2) by simp
      qed
      then show ?thesis using at that by (auto simp: mpsc_at_def)
    qed
    moreover have "mpsc_ring ?q = (mpsc_ring q)\<lparr>rb_tail := of_nat (Suc c)\<rparr>"
      using i(2) by (simp add: mpsc_ring_def)
    ultimately show ?thesis by blast
  qed
qed

lemma mpsc_new_at: "pow_cap cap \<Longrightarrow> mpsc_at 0 0 (mpsc_new cap v)"
  by (simp add: mpsc_at_def mpsc_new_def)

interpretation mpsc: bounded_queue mpsc_inv mpsc_items mpsc_room
  "\<lambda>v q. the (mpsc_try_push v q)" mpsc_try_pop
proof
  fix q :: "'a mpsc" and v x xs
  assume "mpsc_inv q"
  then obtain c e where at: "mpsc_at c e q" by (auto simp: mpsc_inv_def)
  let ?n = "length (slots q)"
  note rat = mpsc_ring_at [OF at]
  have buf: "length (rb_buf (mpsc_ring q)) = ?n" by (simp add: mpsc_ring_def)
  note len = ring_at_items(2,3) [OF rat, folded mpsc_items_def mpsc_room_def, unfolded buf]
  have le: "c \<le> e" "e - c \<le> ?n" using at by (simp_all add: mpsc_at_def)
  show "the (mpsc_try_push v q) = (False, q)" if "mpsc_room q = 0"
    using that len le mpsc_push_full [OF at] by simp
  show "\<exists>q'. the (mpsc_try_push v q) = (True, q') \<and> mpsc_inv q' \<and> mpsc_items q' = mpsc_items q @ [v] \<and>
      mpsc_room q' = mpsc_room q - 1" if "0 < mpsc_room q"
  proof -
    have space: "e - c < ?n" using that len by simp
    obtain q' where q': "mpsc_try_push v q = Some (True, q')" "mpsc_at c (Suc e) q'"
      "mpsc_ring q' = (mpsc_ring q)\<lparr>rb_buf := (rb_buf (mpsc_ring q))[e mod ?n := v],
         rb_head := of_nat (Suc e)\<rparr>" by (rule mpsc_push_ok [OF at space])
    have "mpsc_items q' = mpsc_items q @ [v]"
      using ring_items_push(2) [OF rat, of v] space by (simp add: mpsc_items_def q'(3) buf)
    moreover have "mpsc_room q' = mpsc_room q - 1"
      using ring_at_items(3) [OF mpsc_ring_at [OF q'(2)]] len le
      by (simp add: mpsc_room_def q'(3) buf)
    ultimately show ?thesis using q' by (auto simp: mpsc_inv_def)
  qed
  show "mpsc_try_pop q = None" if "mpsc_items q = []"
    using that len le by (intro mpsc_pop_cases(1) [OF at]) simp
  show "\<exists>q'. mpsc_try_pop q = Some (x, q') \<and> mpsc_inv q' \<and> mpsc_items q' = xs \<and>
      mpsc_room q' = mpsc_room q + 1" if "mpsc_items q = x # xs"
  proof -
    have some: "c < e" using that len by simp
    obtain q' where q': "mpsc_try_pop q = Some (dat (slots q ! (c mod ?n)), q')" "mpsc_at (Suc c) e q'"
      "mpsc_ring q' = (mpsc_ring q)\<lparr>rb_tail := of_nat (Suc c)\<rparr>"
      using mpsc_pop_cases(2) [OF at some] by blast
    have "mpsc_items q = dat (slots q ! (c mod ?n)) # mpsc_items q'"
    proof -
      have "c mod ?n < ?n" using some le by (intro mpsc_seq_at(3) [OF at]) linarith+
      then have "rb_buf (mpsc_ring q) ! (c mod ?n) = dat (slots q ! (c mod ?n))"
        by (simp add: mpsc_ring_def)
      then show ?thesis using ring_items_pop(2) [OF rat some] by (simp add: mpsc_items_def q'(3) buf)
    qed
    moreover have "mpsc_room q' = mpsc_room q + 1"
      using ring_at_items(3) [OF mpsc_ring_at [OF q'(2)]] len le some
      by (simp add: mpsc_room_def q'(3) buf)
    ultimately show ?thesis using q' that by (auto simp: mpsc_inv_def)
  qed
qed

text \<open>A push alone always returns.\<close>

lemma mpsc_push_returns:
  assumes "mpsc_inv q"
  shows "mpsc_try_push v q \<noteq> None"
proof -
  obtain c e where at: "mpsc_at c e q" using assms by (auto simp: mpsc_inv_def)
  show ?thesis
  proof (cases "e - c < length (slots q)")
    case True
    then show ?thesis by (rule mpsc_push_ok [OF at, of v]) simp
  next
    case False
    then have "e - c = length (slots q)" using at by (simp add: mpsc_at_def)
    then show ?thesis by (simp add: mpsc_push_full [OF at])
  qed
qed

lemma mpsc_new_queue:
  assumes "pow_cap cap"
  shows "mpsc_inv (mpsc_new cap v)" "mpsc_items (mpsc_new cap v) = []" "mpsc_room (mpsc_new cap v) = cap"
proof -
  note at = mpsc_new_at [OF assms, of v]
  show "mpsc_inv (mpsc_new cap v)" using at by (auto simp: mpsc_inv_def)
  show "mpsc_items (mpsc_new cap v) = []" "mpsc_room (mpsc_new cap v) = cap"
    using ring_at_items [OF mpsc_ring_at [OF at]]
    by (simp_all add: mpsc_items_def mpsc_room_def) (simp add: mpsc_ring_def mpsc_new_def)
qed

end
