(* ===== verification/Mpsc_Run.thy ===== *)
theory Mpsc_Run
  imports Mpsc_Ring
begin

section \<open>Many producers and one consumer, one memory access at a time\<close>

text \<open>
  The threads of include/lob/mpsc_queue.hpp interleave freely. A producer is at its load of
  the position, at its load of a slot's sequence number, at its compare-and-swap, or owns a
  position and writes the data and then the sequence number. All the counters of the ring
  only grow, and a load of one may be stale: it returns any value up to the current one,
  which covers every value the counter has had. The compare-and-swap sees the current
  position, may fail for no reason, and leaves some value of the position behind when it
  fails. \<open>claims\<close> and \<open>taken\<close> are history: the values in the order their positions were
  claimed, and the values taken out.
\<close>

datatype 'a mprod =
    Q_Idle
  | Q_Pos 'a u64
  | Q_Cas 'a u64
  | Q_Claimed 'a u64
  | Q_Written 'a u64

datatype 'a mcons =
    K_Idle
  | K_Pos u64
  | K_Avail u64
  | K_Read u64 'a
  | K_Released u64 'a

record 'a mpsc_run =
  mq :: "'a mpsc"
  pcs :: "nat \<Rightarrow> 'a mprod"
  mcons :: "'a mcons"
  claims :: "'a list"
  taken :: "'a list"

definition mpsc_start :: "nat \<Rightarrow> 'a \<Rightarrow> 'a mpsc_run" where
  "mpsc_start cap v =
     \<lparr>mq = mpsc_new cap v, pcs = (\<lambda>_. Q_Idle), mcons = K_Idle, claims = [], taken = []\<rparr>"

definition set_pc :: "nat \<Rightarrow> 'a mprod \<Rightarrow> 'a mpsc_run \<Rightarrow> 'a mpsc_run" where
  "set_pc i x s = s\<lparr>pcs := (pcs s)(i := x)\<rparr>"

definition seq_at :: "'a mpsc_run \<Rightarrow> u64 \<Rightarrow> u64" where
  "seq_at s pos = seq (slots (mq s) ! mslot (mq s) pos)"

inductive mpsc_step :: "'a mpsc_run \<Rightarrow> 'a mpsc_run \<Rightarrow> bool" where
  push_call: "pcs s i = Q_Idle \<Longrightarrow> w \<le> enqueue_pos (mq s) \<Longrightarrow> mpsc_step s (set_pc i (Q_Pos v w) s)"
| push_equal: "pcs s i = Q_Pos v pos \<Longrightarrow> w \<le> seq_at s pos \<Longrightarrow> seq_dif w pos = 0 \<Longrightarrow>
    mpsc_step s (set_pc i (Q_Cas v pos) s)"
| push_full: "pcs s i = Q_Pos v pos \<Longrightarrow> w \<le> seq_at s pos \<Longrightarrow> seq_dif w pos < 0 \<Longrightarrow>
    mpsc_step s (set_pc i Q_Idle s)"
| push_reload: "pcs s i = Q_Pos v pos \<Longrightarrow> w \<le> seq_at s pos \<Longrightarrow> seq_dif w pos > 0 \<Longrightarrow>
    w' \<le> enqueue_pos (mq s) \<Longrightarrow> mpsc_step s (set_pc i (Q_Pos v w') s)"
| cas_ok: "pcs s i = Q_Cas v pos \<Longrightarrow> enqueue_pos (mq s) = pos \<Longrightarrow>
    mpsc_step s (set_pc i (Q_Claimed v pos)
      (s\<lparr>mq := (mq s)\<lparr>enqueue_pos := pos + 1\<rparr>, claims := claims s @ [v]\<rparr>))"
| cas_fail: "pcs s i = Q_Cas v pos \<Longrightarrow> w \<le> enqueue_pos (mq s) \<Longrightarrow>
    mpsc_step s (set_pc i (Q_Pos v w) s)"
| push_write: "pcs s i = Q_Claimed v pos \<Longrightarrow>
    mpsc_step s (set_pc i (Q_Written v pos) (s\<lparr>mq := set_dat (mslot (mq s) pos) v (mq s)\<rparr>))"
| push_publish: "pcs s i = Q_Written v pos \<Longrightarrow>
    mpsc_step s (set_pc i Q_Idle (s\<lparr>mq := set_seq (mslot (mq s) pos) (pos + 1) (mq s)\<rparr>))"
| pop_call: "mcons s = K_Idle \<Longrightarrow> mpsc_step s (s\<lparr>mcons := K_Pos (dequeue_pos (mq s))\<rparr>)"
| pop_none: "mcons s = K_Pos pos \<Longrightarrow> w \<le> seq_at s pos \<Longrightarrow> seq_dif w (pos + 1) < 0 \<Longrightarrow>
    mpsc_step s (s\<lparr>mcons := K_Idle\<rparr>)"
| pop_avail: "mcons s = K_Pos pos \<Longrightarrow> w \<le> seq_at s pos \<Longrightarrow> \<not> seq_dif w (pos + 1) < 0 \<Longrightarrow>
    mpsc_step s (s\<lparr>mcons := K_Avail pos\<rparr>)"
| pop_read: "mcons s = K_Avail pos \<Longrightarrow>
    mpsc_step s (s\<lparr>mcons := K_Read pos (dat (slots (mq s) ! mslot (mq s) pos))\<rparr>)"
| pop_release: "mcons s = K_Read pos x \<Longrightarrow>
    mpsc_step s (s\<lparr>mcons := K_Released pos x,
      mq := set_seq (mslot (mq s) pos) (pos + of_nat (length (slots (mq s)))) (mq s)\<rparr>)"
| pop_advance: "mcons s = K_Released pos x \<Longrightarrow>
    mpsc_step s (s\<lparr>mcons := K_Idle, mq := (mq s)\<lparr>dequeue_pos := pos + 1\<rparr>, taken := taken s @ [x]\<rparr>)"

abbreviation mpsc_steps :: "'a mpsc_run \<Rightarrow> 'a mpsc_run \<Rightarrow> bool" where
  "mpsc_steps \<equiv> mpsc_step\<^sup>*\<^sup>*"

subsection \<open>The invariant\<close>

text \<open>How many positions the consumer has given back, and the position a producer owns.\<close>

definition released :: "'a mpsc_run \<Rightarrow> nat" where
  "released s = length (taken s) + (case mcons s of K_Released _ _ \<Rightarrow> 1 | _ \<Rightarrow> 0)"

definition held :: "'a mprod \<Rightarrow> u64 option" where
  "held x = (case x of Q_Claimed v w \<Rightarrow> Some w | Q_Written v w \<Rightarrow> Some w | _ \<Rightarrow> None)"

definition dat_at :: "'a mpsc_run \<Rightarrow> u64 \<Rightarrow> 'a" where
  "dat_at s pos = dat (slots (mq s) ! mslot (mq s) pos)"

definition m_shape :: "'a mpsc_run \<Rightarrow> bool" where
  "m_shape s \<longleftrightarrow>
     pow_cap (length (slots (mq s))) \<and> enqueue_pos (mq s) = of_nat (length (claims s)) \<and>
     dequeue_pos (mq s) = of_nat (length (taken s)) \<and> released s \<le> length (claims s) \<and>
     length (claims s) \<le> released s + length (slots (mq s)) \<and>
     length (claims s) + length (slots (mq s)) < 2 ^ 63 \<and>
     taken s = take (length (taken s)) (claims s)"

definition m_slots :: "'a mpsc_run \<Rightarrow> bool" where
  "m_slots s \<longleftrightarrow>
     (\<forall>p. released s \<le> p \<and> p < released s + length (slots (mq s)) \<longrightarrow>
        seq_at s (of_nat p) = of_nat p \<or>
        p < length (claims s) \<and> seq_at s (of_nat p) = of_nat (Suc p) \<and>
          dat_at s (of_nat p) = claims s ! p)"

definition m_prod :: "'a mpsc_run \<Rightarrow> 'a mprod \<Rightarrow> bool" where
  "m_prod s x \<longleftrightarrow>
     (case x of
        Q_Idle \<Rightarrow> True
      | Q_Pos v w \<Rightarrow> unat w \<le> length (claims s)
      | Q_Cas v w \<Rightarrow> unat w \<le> length (claims s) \<and> w \<le> seq_at s w
      | Q_Claimed v w \<Rightarrow> released s \<le> unat w \<and> unat w < length (claims s) \<and>
          v = claims s ! unat w \<and> seq_at s w = w
      | Q_Written v w \<Rightarrow> released s \<le> unat w \<and> unat w < length (claims s) \<and>
          v = claims s ! unat w \<and> seq_at s w = w \<and> dat_at s w = v)"

definition m_excl :: "'a mpsc_run \<Rightarrow> bool" where
  "m_excl s \<longleftrightarrow> (\<forall>i j w. held (pcs s i) = Some w \<and> held (pcs s j) = Some w \<longrightarrow> i = j)"

definition m_owned :: "'a mpsc_run \<Rightarrow> bool" where
  "m_owned s \<longleftrightarrow>
     (\<forall>p. released s \<le> p \<and> p < length (claims s) \<and> seq_at s (of_nat p) = of_nat p \<longrightarrow>
        (\<exists>i. held (pcs s i) = Some (of_nat p)))"

definition m_cons :: "'a mpsc_run \<Rightarrow> bool" where
  "m_cons s \<longleftrightarrow>
     (let c = length (taken s); avail = c < length (claims s) \<and> seq_at s (of_nat c) = of_nat (Suc c)
      in case mcons s of
           K_Idle \<Rightarrow> True
         | K_Pos w \<Rightarrow> w = of_nat c
         | K_Avail w \<Rightarrow> w = of_nat c \<and> avail
         | K_Read w x \<Rightarrow> w = of_nat c \<and> avail \<and> x = claims s ! c
         | K_Released w x \<Rightarrow> w = of_nat c \<and> c < length (claims s) \<and> x = claims s ! c)"

definition m_ok :: "'a mpsc_run \<Rightarrow> bool" where
  "m_ok s \<longleftrightarrow> m_shape s \<and> m_slots s \<and> (\<forall>i. m_prod s (pcs s i)) \<and> m_excl s \<and> m_owned s \<and> m_cons s"

named_theorems mpsc_defs \<open>the parts of the invariant of the running ring of many producers\<close>

lemmas [mpsc_defs] = m_shape_def m_slots_def m_prod_def m_excl_def m_owned_def m_cons_def

lemma m_okD:
  "m_ok s \<Longrightarrow> m_shape s" "m_ok s \<Longrightarrow> m_slots s" "m_ok s \<Longrightarrow> m_prod s (pcs s i)"
  "m_ok s \<Longrightarrow> m_excl s" "m_ok s \<Longrightarrow> m_owned s" "m_ok s \<Longrightarrow> m_cons s"
  by (simp_all add: m_ok_def)

subsection \<open>Words as counts\<close>

lemma unat_small [simp]: "p < 2 ^ 64 \<Longrightarrow> unat (of_nat p :: u64) = p"
  by (simp add: unat_of_nat)

lemma of_nat_eq_small: "p < 2 ^ 64 \<Longrightarrow> q < 2 ^ 64 \<Longrightarrow> (of_nat p :: u64) = of_nat q \<longleftrightarrow> p = q"
  by (simp add: word_of_nat_eq_iff take_bit_nat_eq_self)

lemma of_nat_le_small: "p < 2 ^ 64 \<Longrightarrow> q < 2 ^ 64 \<Longrightarrow> (of_nat p :: u64) \<le> of_nat q \<longleftrightarrow> p \<le> q"
  by (simp add: word_le_nat_alt)

lemma set_pc_simps [simp]:
  "mq (set_pc i x s) = mq s" "claims (set_pc i x s) = claims s" "taken (set_pc i x s) = taken s"
  "mcons (set_pc i x s) = mcons s" "pcs (set_pc i x s) = (pcs s)(i := x)"
  "seq_at (set_pc i x s) = seq_at s" "dat_at (set_pc i x s) = dat_at s"
  "released (set_pc i x s) = released s"
  by (simp_all add: set_pc_def seq_at_def dat_at_def released_def fun_eq_iff)

text \<open>A producer that owns no position moves to a place where it owns none.\<close>

lemma set_pc_ok:
  assumes ok: "m_ok s" and old: "held (pcs s i) = None" and x: "held x = None" "m_prod s x"
  shows "m_ok (set_pc i x s)"
proof -
  have "m_prod (set_pc i x s) y \<longleftrightarrow> m_prod s y" for y
    by (cases y) (simp_all add: m_prod_def)
  moreover have "m_excl (set_pc i x s)"
    using m_okD(4) [OF ok] x(1) by (simp add: m_excl_def)
  moreover have "m_owned (set_pc i x s)"
    using m_okD(5) [OF ok] old x(1) unfolding m_owned_def by (auto, metis option.distinct(1))
  ultimately show ?thesis
    using ok x(2)
    by (auto simp: m_ok_def m_shape_def m_slots_def m_cons_def Let_def split: mcons.splits)
qed

text \<open>The consumer moves without giving a position back.\<close>

lemma cons_simps [simp]:
  "mq (s\<lparr>mcons := k\<rparr>) = mq s" "seq_at (s\<lparr>mcons := k\<rparr>) = seq_at s" "dat_at (s\<lparr>mcons := k\<rparr>) = dat_at s"
  by (simp_all add: seq_at_def dat_at_def fun_eq_iff)

lemma set_cons_ok:
  assumes ok: "m_ok s" and rel: "released (s\<lparr>mcons := k\<rparr>) = released s"
    and k: "m_cons (s\<lparr>mcons := k\<rparr>)"
  shows "m_ok (s\<lparr>mcons := k\<rparr>)"
proof -
  have "m_prod (s\<lparr>mcons := k\<rparr>) y \<longleftrightarrow> m_prod s y" for y
    by (cases y) (simp_all add: m_prod_def rel)
  then show ?thesis
    using ok k by (simp add: m_ok_def m_shape_def m_slots_def m_excl_def m_owned_def rel)
qed

text \<open>The places of the window of positions that are not yet given back.\<close>

lemma window_slots:
  assumes "m_shape s" and "p < 2 ^ 63"
  shows "mslot (mq s) (of_nat p) = p mod length (slots (mq s))"
    and "p mod length (slots (mq s)) < length (slots (mq s))"
proof -
  have cap: "pow_cap (length (slots (mq s)))" using assms(1) by (simp add: m_shape_def)
  show "mslot (mq s) (of_nat p) = p mod length (slots (mq s))"
    by (simp add: mslot_def slot_of_nat [OF cap])
  show "p mod length (slots (mq s)) < length (slots (mq s))"
    using pow_cap_bounds(1) [OF cap] by (intro mod_less_divisor) linarith
qed

lemma mslot_word: "m_shape s \<Longrightarrow> mslot (mq s) w = unat w mod length (slots (mq s))"
  by (simp add: mslot_def m_shape_def slot_of_mod)

lemma mslot_less: "m_shape s \<Longrightarrow> mslot (mq s) w < length (slots (mq s))"
  using pow_cap_bounds(1) [of "length (slots (mq s))"]
  by (auto simp: mslot_word m_shape_def intro!: mod_less_divisor)

lemma same_slot:
  assumes "m_shape s" and "mslot (mq s) v = mslot (mq s) w"
    and "released s \<le> unat v" "unat v < released s + length (slots (mq s))"
    and "released s \<le> unat w" "unat w < released s + length (slots (mq s))"
  shows "v = w"
  using mod_window_unique [of "unat v" "length (slots (mq s))" "unat w" "released s"] assms
  by (simp add: mslot_word word_unat_eq_iff)

subsection \<open>The steps that change the ring\<close>

lemma cas_ok_ok:
  assumes ok: "m_ok s" and pc: "pcs s i = Q_Cas v pos" and pos: "enqueue_pos (mq s) = pos"
    and small: "Suc (length (claims s)) + length (slots (mq s)) < 2 ^ 63"
  shows "m_ok (set_pc i (Q_Claimed v pos)
      (s\<lparr>mq := (mq s)\<lparr>enqueue_pos := pos + 1\<rparr>, claims := claims s @ [v]\<rparr>))"
proof -
  let ?e = "length (claims s)" and ?n = "length (slots (mq s))" and ?r = "released s"
  let ?t = "s\<lparr>mq := (mq s)\<lparr>enqueue_pos := pos + 1\<rparr>, claims := claims s @ [v]\<rparr>"
  let ?s' = "set_pc i (Q_Claimed v pos) ?t"
  have shape: "m_shape s" by (rule m_okD(1) [OF ok])
  have e: "pos = of_nat ?e" "?r \<le> ?e" "?e \<le> ?r + ?n" "pow_cap ?n"
    using shape pos by (simp_all add: m_shape_def)
  have up: "unat pos = ?e" using e(1) small by simp
  have ge: "pos \<le> seq_at s pos" using m_okD(3) [OF ok, of i] pc by (simp add: m_prod_def)
  have sim: "seq_at ?t = seq_at s" "dat_at ?t = dat_at s" "released ?t = ?r"
    by (simp_all add: seq_at_def dat_at_def released_def mslot_def fun_eq_iff)
  have slots: "seq_at s (of_nat p) = of_nat p \<or> p < ?e \<and> seq_at s (of_nat p) = of_nat (Suc p) \<and>
      dat_at s (of_nat p) = claims s ! p" if "?r \<le> p" "p < ?r + ?n" for p
    using m_okD(2) [OF ok] that unfolding m_slots_def by blast
  have less: "?e < ?r + ?n"
  proof (rule ccontr)
    assume "\<not> ?e < ?r + ?n"
    then have full: "?e = ?r + ?n" using e(3) by linarith
    have "mslot (mq s) pos = ?e mod ?n" using window_slots(1) [OF shape] small e(1) by simp
    moreover have "mslot (mq s) (of_nat ?r) = ?r mod ?n"
      using window_slots(1) [OF shape] small e(2) by simp
    ultimately have "mslot (mq s) pos = mslot (mq s) (of_nat ?r)" by (simp add: full)
    then have "seq_at s pos = seq_at s (of_nat ?r)" by (simp add: seq_at_def)
    moreover have "unat (seq_at s (of_nat ?r)) \<le> Suc ?r"
    proof -
      have "?r < ?r + ?n" using pow_cap_bounds(1) [OF e(4)] by linarith
      then have "seq_at s (of_nat ?r) = of_nat ?r \<or> seq_at s (of_nat ?r) = of_nat (Suc ?r)"
        using slots [of ?r] by blast
      moreover have "unat (of_nat ?r :: u64) = ?r" "unat (of_nat (Suc ?r) :: u64) = Suc ?r"
        using small full by (intro unat_small; simp)+
      ultimately show ?thesis by (metis le_SucI order_refl)
    qed
    ultimately have "?e \<le> Suc ?r" using ge up by (simp add: word_le_nat_alt)
    then show False using full pow_cap_bounds(1) [OF e(4)] by linarith
  qed
  have fresh: "seq_at s pos = pos" using slots [of ?e] less e(1,2) by auto
  have nobody: "held (pcs s j) \<noteq> Some pos" for j
    using m_okD(3) [OF ok, of j] up by (auto simp: held_def m_prod_def split: mprod.splits)
  have "m_shape ?s'" using shape less small e(2) sim(3)
    by (auto simp: m_shape_def e(1) released_def)
  moreover have "m_slots ?s'"
    using slots sim by (auto simp: m_slots_def nth_append less_Suc_eq)
  moreover have "m_prod ?s' (pcs ?s' j)" for j
  proof (cases "j = i")
    case True
    then show ?thesis using fresh up e(2) sim by (simp add: m_prod_def)
  next
    case False
    then show ?thesis using m_okD(3) [OF ok, of j] sim
      by (auto simp: m_prod_def nth_append split: mprod.splits)
  qed
  moreover have "m_excl ?s'"
    using m_okD(4) [OF ok] nobody by (auto simp: m_excl_def held_def)
  moreover have "m_owned ?s'"
  proof -
    have "\<exists>j. held (pcs ?s' j) = Some (of_nat p)"
      if p: "?r \<le> p" "p < Suc ?e" "seq_at s (of_nat p) = of_nat p" for p
    proof (cases "p = ?e")
      case True
      then show ?thesis by (intro exI [of _ i]) (simp add: held_def e(1))
    next
      case False
      then obtain j where j: "held (pcs s j) = Some (of_nat p)"
        using m_okD(5) [OF ok] p unfolding m_owned_def by (metis less_SucE)
      then have "j \<noteq> i" using pc by (auto simp: held_def)
      then show ?thesis using j by (intro exI [of _ j]) simp
    qed
    then show ?thesis by (simp add: m_owned_def sim)
  qed
  moreover have "m_cons ?s'"
    using m_okD(6) [OF ok] sim by (auto simp: m_cons_def Let_def nth_append split: mcons.splits)
  ultimately show ?thesis by (simp add: m_ok_def)
qed

text \<open>The slot of a position a producer owns is the slot of no other position of the window.\<close>

lemma held_facts:
  assumes ok: "m_ok s" and h: "held (pcs s i) = Some pos"
  shows "released s \<le> unat pos" "unat pos < length (claims s)"
    "unat pos < released s + length (slots (mq s))" "seq_at s pos = pos"
    "pos = of_nat (unat pos)" "unat pos + 1 < 2 ^ 63"
  using m_okD(3) [OF ok, of i] h m_okD(1) [OF ok]
  by (auto simp: held_def m_prod_def m_shape_def split: mprod.splits)

lemma held_other:
  assumes ok: "m_ok s" and h: "held (pcs s i) = Some pos"
  shows "released s \<le> p \<Longrightarrow> p < released s + length (slots (mq s)) \<Longrightarrow> p \<noteq> unat pos \<Longrightarrow>
      mslot (mq s) (of_nat p) \<noteq> mslot (mq s) pos"
    and "held (pcs s j) = Some w \<Longrightarrow> j \<noteq> i \<Longrightarrow> mslot (mq s) w \<noteq> mslot (mq s) pos"
proof -
  note shape = m_okD(1) [OF ok] and hf = held_facts [OF ok h]
  have other: "mslot (mq s) w \<noteq> mslot (mq s) pos"
    if "w \<noteq> pos" "released s \<le> unat w" "unat w < released s + length (slots (mq s))" for w
    using same_slot [OF shape _ that(2,3) hf(1,3)] that(1) by blast
  show "mslot (mq s) (of_nat p) \<noteq> mslot (mq s) pos"
    if p: "released s \<le> p" "p < released s + length (slots (mq s))" "p \<noteq> unat pos"
  proof -
    have u: "unat (of_nat p :: u64) = p" using p(2) shape by (simp add: m_shape_def)
    then have "(of_nat p :: u64) \<noteq> pos" using p(3) by metis
    then show ?thesis using other [of "of_nat p"] p(1,2) u by simp
  qed
  show "mslot (mq s) w \<noteq> mslot (mq s) pos" if w: "held (pcs s j) = Some w" "j \<noteq> i"
  proof -
    have "w \<noteq> pos" using m_okD(4) [OF ok] h w unfolding m_excl_def by blast
    then show ?thesis using other held_facts(1,3) [OF ok w(1)] by blast
  qed
qed

lemma m_slotsD:
  "m_ok s \<Longrightarrow> released s \<le> p \<Longrightarrow> p < released s + length (slots (mq s)) \<Longrightarrow>
   seq_at s (of_nat p) = of_nat p \<or> p < length (claims s) \<and> seq_at s (of_nat p) = of_nat (Suc p) \<and>
     dat_at s (of_nat p) = claims s ! p"
  unfolding m_ok_def m_slots_def by blast

lemma m_ownedD:
  "m_ok s \<Longrightarrow> released s \<le> p \<Longrightarrow> p < length (claims s) \<Longrightarrow> seq_at s (of_nat p) = of_nat p \<Longrightarrow>
   \<exists>i. held (pcs s i) = Some (of_nat p)"
  unfolding m_ok_def m_owned_def by blast

lemma write_ok:
  assumes ok: "m_ok s" and pc: "pcs s i = Q_Claimed v pos"
  shows "m_ok (set_pc i (Q_Written v pos) (s\<lparr>mq := set_dat (mslot (mq s) pos) v (mq s)\<rparr>))"
proof -
  let ?n = "length (slots (mq s))" and ?k = "mslot (mq s) pos"
  let ?t = "s\<lparr>mq := set_dat ?k v (mq s)\<rparr>"
  let ?s' = "set_pc i (Q_Written v pos) ?t"
  have shape: "m_shape s" by (rule m_okD(1) [OF ok])
  have h: "held (pcs s i) = Some pos" by (simp add: held_def pc)
  note hf = held_facts [OF ok h] and ho = held_other [OF ok h]
  have k: "?k < ?n" by (rule mslot_less [OF shape])
  have sim: "seq_at ?t = seq_at s" "released ?t = released s"
    "dat_at ?t w = (if mslot (mq s) w = ?k then v else dat_at s w)" for w
    using k by (simp_all add: seq_at_def dat_at_def released_def mslot_def fun_eq_iff)
  have claim: "v = claims s ! unat pos" using m_okD(3) [OF ok, of i] pc by (simp add: m_prod_def)
  have "m_shape ?s'" using shape sim(2) by (simp add: m_shape_def released_def)
  moreover have "m_slots ?s'"
  proof -
    have "seq_at s (of_nat p) = of_nat p \<or> p < length (claims s) \<and>
        seq_at s (of_nat p) = of_nat (Suc p) \<and> dat_at ?t (of_nat p) = claims s ! p"
      if p: "released s \<le> p" "p < released s + ?n" for p
    proof (cases "p = unat pos")
      case True
      then show ?thesis using hf(4,5) by simp
    next
      case False
      show ?thesis unfolding sim(3) using m_slotsD [OF ok p] ho(1) [OF p False] by (simp only: if_False)
    qed
    then show ?thesis unfolding m_slots_def by (simp add: sim(1,2))
  qed
  moreover have "m_prod ?s' (pcs ?s' j)" for j
  proof (cases "j = i")
    case True
    then show ?thesis using hf sim claim by (simp add: m_prod_def)
  next
    case False
    then show ?thesis using m_okD(3) [OF ok, of j] ho(2) [of j] sim
      by (cases "pcs s j") (simp_all add: m_prod_def held_def)
  qed
  moreover have held: "held (pcs ?s' j) = held (pcs s j)" for j by (simp add: held_def pc)
  have "m_excl ?s'" using m_okD(4) [OF ok] by (simp only: m_excl_def held)
  moreover have "m_owned ?s'"
    using m_okD(5) [OF ok] unfolding m_owned_def held by (simp add: sim)
  moreover have "m_cons ?s'"
    using m_okD(6) [OF ok] sim(1) by (simp add: m_cons_def Let_def split: mcons.splits)
  ultimately show ?thesis unfolding m_ok_def by blast
qed

text \<open>The position the consumer is about to read is not owned by a producer.\<close>

lemma avail_not_held:
  assumes ok: "m_ok s" and h: "held (pcs s i) = Some pos"
    and c: "mcons s = K_Avail w \<or> mcons s = K_Read w x"
  shows "mslot (mq s) (of_nat (length (taken s))) \<noteq> mslot (mq s) pos"
proof -
  let ?c = "length (taken s)" and ?n = "length (slots (mq s))"
  have r: "released s = ?c" using c by (auto simp: released_def)
  have a: "?c < length (claims s)" "seq_at s (of_nat ?c) = of_nat (Suc ?c)"
    using m_okD(6) [OF ok] c by (auto simp: m_cons_def Let_def)
  have b: "length (claims s) + ?n < 2 ^ 63" "2 \<le> ?n"
    using m_okD(1) [OF ok] pow_cap_bounds(1) [of ?n] by (auto simp: m_shape_def)
  have "(of_nat (Suc ?c) :: u64) \<noteq> of_nat ?c"
    using a(1) b by (subst of_nat_eq_small) simp_all
  then have "?c \<noteq> unat pos" using a(2) held_facts(4,5) [OF ok h] by metis
  moreover have "released s \<le> ?c" "?c < released s + ?n" using r b(2) by linarith+
  ultimately show ?thesis using held_other(1) [OF ok h] by blast
qed

lemma publish_ok:
  assumes ok: "m_ok s" and pc: "pcs s i = Q_Written v pos"
  shows "m_ok (set_pc i Q_Idle (s\<lparr>mq := set_seq (mslot (mq s) pos) (pos + 1) (mq s)\<rparr>))"
proof -
  let ?n = "length (slots (mq s))" and ?k = "mslot (mq s) pos"
  let ?t = "s\<lparr>mq := set_seq ?k (pos + 1) (mq s)\<rparr>"
  let ?s' = "set_pc i Q_Idle ?t"
  have shape: "m_shape s" by (rule m_okD(1) [OF ok])
  have h: "held (pcs s i) = Some pos" by (simp add: held_def pc)
  note hf = held_facts [OF ok h] and ho = held_other [OF ok h]
  have k: "?k < ?n" by (rule mslot_less [OF shape])
  have sim: "dat_at ?t = dat_at s" "released ?t = released s"
    "seq_at ?t w = (if mslot (mq s) w = ?k then pos + 1 else seq_at s w)" for w
    using k by (simp_all add: seq_at_def dat_at_def released_def mslot_def fun_eq_iff)
  have claim: "dat_at s pos = claims s ! unat pos"
    using m_okD(3) [OF ok, of i] pc by (simp add: m_prod_def)
  have nxt: "seq_at ?t (of_nat (unat pos)) = of_nat (Suc (unat pos))" "seq_at ?t pos = pos + 1"
    unfolding sim(3) by simp_all
  have "m_shape ?s'" using shape sim(2) by (simp add: m_shape_def released_def)
  moreover have "m_slots ?s'"
  proof -
    have "seq_at ?t (of_nat p) = of_nat p \<or> p < length (claims s) \<and>
        seq_at ?t (of_nat p) = of_nat (Suc p) \<and> dat_at s (of_nat p) = claims s ! p"
      if p: "released s \<le> p" "p < released s + ?n" for p
    proof (cases "p = unat pos")
      case True
      have "dat_at s (of_nat (unat pos)) = claims s ! unat pos" using claim by simp
      then show ?thesis using nxt(1) hf(2) unfolding True by blast
    next
      case False
      show ?thesis unfolding sim(3) using m_slotsD [OF ok p] ho(1) [OF p False] by (simp only: if_False)
    qed
    then show ?thesis unfolding m_slots_def by (simp add: sim(1,2))
  qed
  moreover have "m_prod ?s' (pcs ?s' j)" for j
  proof (cases "j = i")
    case True
    then show ?thesis by (simp add: m_prod_def)
  next
    case False
    have "pos \<le> pos + 1" using hf(6) by (simp add: word_le_nat_alt unat_word_ariths)
    then have grow: "seq_at s w \<le> seq_at ?t w" for w
      using hf(4) unfolding sim(3) by (auto simp: seq_at_def)
    have keep: "seq_at ?t w = seq_at s w" if "held (pcs s j) = Some w" for w
      using ho(2) [OF that False] by (simp only: sim(3) if_False)
    show ?thesis using m_okD(3) [OF ok, of j] False keep order_trans [OF _ grow] sim(1,2)
      by (cases "pcs s j") (simp_all add: m_prod_def held_def)
  qed
  moreover have "m_excl ?s'"
    using m_okD(4) [OF ok] by (auto simp: m_excl_def held_def)
  moreover have "\<exists>j. held (pcs ?s' j) = Some (of_nat p)"
    if p: "released s \<le> p" "p < length (claims s)" "seq_at ?t (of_nat p) = of_nat p" for p
  proof -
    have win: "p < released s + ?n" using p(2) shape by (simp add: m_shape_def)
    have ne: "p \<noteq> unat pos"
    proof
      assume "p = unat pos"
      then have "of_nat p = pos" by simp
      then show False using p(3) nxt(2) by simp
    qed
    then have "seq_at s (of_nat p) = of_nat p" using p(3) ho(1) [OF p(1) win] sim(3) by simp
    then obtain j where j: "held (pcs s j) = Some (of_nat p)" using m_ownedD [OF ok p(1,2)] by blast
    have "unat (of_nat p :: u64) = p" using win shape by (simp add: m_shape_def)
    then have "j \<noteq> i" using h j ne by auto
    then show ?thesis using j by (intro exI [of _ j]) simp
  qed
  then have "m_owned ?s'" by (simp add: m_owned_def sim(2))
  moreover have "m_cons ?s'"
    using m_okD(6) [OF ok] avail_not_held [OF ok h] sim(3)
    by (auto simp: m_cons_def Let_def split: mcons.splits)
  ultimately show ?thesis unfolding m_ok_def by blast
qed

lemma release_ok:
  assumes ok: "m_ok s" and pc: "mcons s = K_Read pos x"
  shows "m_ok (s\<lparr>mcons := K_Released pos x,
      mq := set_seq (mslot (mq s) pos) (pos + of_nat (length (slots (mq s)))) (mq s)\<rparr>)"
proof -
  let ?n = "length (slots (mq s))" and ?k = "mslot (mq s) pos" and ?c = "length (taken s)"
  let ?s' = "s\<lparr>mcons := K_Released pos x, mq := set_seq ?k (pos + of_nat ?n) (mq s)\<rparr>"
  have shape: "m_shape s" by (rule m_okD(1) [OF ok])
  have c: "pos = of_nat ?c" "?c < length (claims s)" "seq_at s pos = of_nat (Suc ?c)" "x = claims s ! ?c"
    using m_okD(6) [OF ok] pc by (auto simp: m_cons_def Let_def)
  have r: "released s = ?c" "released ?s' = Suc ?c" using pc by (simp_all add: released_def)
  have b: "length (claims s) + ?n < 2 ^ 63" "2 \<le> ?n" "length (claims s) \<le> ?c + ?n"
    using shape pow_cap_bounds(1) [of ?n] r by (auto simp: m_shape_def)
  have k: "?k < ?n" by (rule mslot_less [OF shape])
  have up: "unat pos = ?c" using c b by simp
  have sim: "dat_at ?s' = dat_at s"
    "seq_at ?s' w = (if mslot (mq s) w = ?k then of_nat (?c + ?n) else seq_at s w)" for w
    using k by (simp_all add: seq_at_def dat_at_def mslot_def fun_eq_iff c(1))
  have away: "mslot (mq s) (of_nat p) \<noteq> ?k" if p: "Suc ?c \<le> p" "p < ?c + ?n" for p
  proof -
    have u: "unat (of_nat p :: u64) = p" using p b c by simp
    have w: "released s \<le> unat (of_nat p :: u64)" "unat (of_nat p :: u64) < released s + ?n"
      "released s \<le> unat pos" "unat pos < released s + ?n"
      using u p r(1) up b by linarith+
    show ?thesis
    proof
      assume "mslot (mq s) (of_nat p) = ?k"
      then have "of_nat p = pos" by (rule same_slot [OF shape _ w])
      then show False using u up p by simp
    qed
  qed
  have lap: "mslot (mq s) (of_nat (?c + ?n)) = ?k"
    using window_slots(1) [OF shape, of "?c + ?n"] mslot_word [OF shape, of pos] up b c(2) by simp
  have held_away: "mslot (mq s) w \<noteq> ?k" if "held (pcs s j) = Some w" for j w
    using avail_not_held [OF ok that, where w = pos and x = x] pc c(1) by auto
  have "m_shape ?s'" using shape r c(2) b(3) by (auto simp: m_shape_def)
  moreover have "m_slots ?s'"
  proof -
    have "seq_at ?s' (of_nat p) = of_nat p \<or> p < length (claims s) \<and>
        seq_at ?s' (of_nat p) = of_nat (Suc p) \<and> dat_at s (of_nat p) = claims s ! p"
      if p: "Suc ?c \<le> p" "p < Suc ?c + ?n" for p
    proof (cases "p = ?c + ?n")
      case True
      then show ?thesis using lap by (simp add: sim(2))
    next
      case False
      then have win: "p < ?c + ?n" using p by linarith
      then show ?thesis unfolding sim(2)
        using m_slotsD [OF ok, of p] r p away [OF p(1) win] by (simp only: if_False)
    qed
    then show ?thesis unfolding m_slots_def r(2) by (simp add: sim(1))
  qed
  moreover have "m_prod ?s' (pcs ?s' j)" for j
  proof -
    have grow: "seq_at s w \<le> seq_at ?s' w" for w
    proof (cases "mslot (mq s) w = ?k")
      case True
      then have "seq_at s w = of_nat (Suc ?c)" using c(3) by (simp add: seq_at_def)
      moreover have "(of_nat (Suc ?c) :: u64) \<le> of_nat (?c + ?n)"
        using b c(2) by (subst of_nat_le_small) simp_all
      ultimately show ?thesis using True by (simp add: sim(2))
    qed (simp add: sim(2))
    have "Suc ?c \<le> unat w" if "held (pcs s j) = Some w" for w
    proof -
      have "unat w \<noteq> ?c"
        using held_away [OF that] up by (metis word_unat_eq_iff)
      then show ?thesis using held_facts(1) [OF ok that] r by simp
    qed
    moreover have "seq_at ?s' w = seq_at s w" if "held (pcs s j) = Some w" for w
      using held_away [OF that] by (simp only: sim(2) if_False)
    ultimately show ?thesis using m_okD(3) [OF ok, of j] order_trans [OF _ grow] r(2) sim(1)
      by (cases "pcs s j") (simp_all add: m_prod_def held_def)
  qed
  moreover have "m_excl ?s'" using m_okD(4) [OF ok] by (simp add: m_excl_def)
  moreover have "m_owned ?s'"
  proof -
    have "\<exists>j. held (pcs s j) = Some (of_nat p)"
      if p: "Suc ?c \<le> p" "p < length (claims s)" "seq_at ?s' (of_nat p) = of_nat p" for p
    proof -
      have "p < ?c + ?n" using p(2) b(3) by linarith
      then have "seq_at s (of_nat p) = of_nat p" using p(3) away [OF p(1)] by (simp add: sim(2))
      then show ?thesis using m_ownedD [OF ok, of p] r p by simp
    qed
    then show ?thesis by (simp add: m_owned_def r(2))
  qed
  moreover have "m_cons ?s'" using c by (simp add: m_cons_def)
  ultimately show ?thesis unfolding m_ok_def by blast
qed

lemma advance_ok:
  assumes ok: "m_ok s" and pc: "mcons s = K_Released pos x"
  shows "m_ok (s\<lparr>mcons := K_Idle, mq := (mq s)\<lparr>dequeue_pos := pos + 1\<rparr>, taken := taken s @ [x]\<rparr>)"
proof -
  let ?c = "length (taken s)"
  let ?s' = "s\<lparr>mcons := K_Idle, mq := (mq s)\<lparr>dequeue_pos := pos + 1\<rparr>, taken := taken s @ [x]\<rparr>"
  have c: "pos = of_nat ?c" "?c < length (claims s)" "x = claims s ! ?c"
    using m_okD(6) [OF ok] pc by (auto simp: m_cons_def Let_def)
  have sim: "released ?s' = released s" "seq_at ?s' = seq_at s" "dat_at ?s' = dat_at s"
    using pc by (simp_all add: released_def seq_at_def dat_at_def mslot_def fun_eq_iff)
  have prod: "m_prod ?s' y \<longleftrightarrow> m_prod s y" for y
    by (cases y) (simp_all add: m_prod_def sim)
  have "take ?c (claims s) = taken s" using m_okD(1) [OF ok] by (simp add: m_shape_def)
  then have "m_shape ?s'" using m_okD(1) [OF ok] c unfolding m_shape_def sim(1)
    by (simp add: take_Suc_conv_app_nth)
  moreover have "m_cons ?s'" by (simp add: m_cons_def)
  ultimately show ?thesis
    using ok prod by (simp add: m_ok_def m_slots_def m_excl_def m_owned_def sim)
qed

subsection \<open>Every step keeps the invariant\<close>

lemma set_pc_none_ok:
  "m_ok s \<Longrightarrow> pcs s i = y \<Longrightarrow> held y = None \<Longrightarrow> held x = None \<Longrightarrow> m_prod s x \<Longrightarrow> m_ok (set_pc i x s)"
  by (rule set_pc_ok) simp_all

lemma m_ok_avail:
  assumes ok: "m_ok s" and pc: "mcons s = K_Avail p"
  shows "p = of_nat (length (taken s))" "length (taken s) < length (claims s)"
    "seq_at s p = of_nat (Suc (length (taken s)))" "dat_at s p = claims s ! length (taken s)"
proof -
  let ?c = "length (taken s)"
  show p: "p = of_nat ?c" "?c < length (claims s)" "seq_at s p = of_nat (Suc ?c)"
    using m_okD(6) [OF ok] pc by (auto simp: m_cons_def Let_def)
  have r: "released s = ?c" using pc by (simp add: released_def)
  have b: "length (claims s) + length (slots (mq s)) < 2 ^ 63" "2 \<le> length (slots (mq s))"
    using m_okD(1) [OF ok] pow_cap_bounds(1) by (auto simp: m_shape_def)
  have "(of_nat (Suc ?c) :: u64) \<noteq> of_nat ?c" using p(2) b by (subst of_nat_eq_small) simp_all
  moreover have "?c < released s + length (slots (mq s))" using r b by linarith
  ultimately show "dat_at s p = claims s ! ?c"
    using m_slotsD [OF ok, of ?c] r p unfolding p(1) by (metis order_refl)
qed

lemma mpsc_step_ok:
  assumes step: "mpsc_step s s'" and ok: "m_ok s"
    and small: "length (claims s') + length (slots (mq s')) < 2 ^ 63"
  shows "m_ok s'"
proof -
  have shape: "m_shape s" by (rule m_okD(1) [OF ok])
  have enq: "unat w \<le> length (claims s)" if "w \<le> enqueue_pos (mq s)" for w
    using that shape by (auto simp: m_shape_def word_le_nat_alt)
  have pos: "unat w \<le> length (claims s)" if "pcs s i = Q_Pos v w" for i v w
    using m_okD(3) [OF ok, of i] that by (simp add: m_prod_def)
  let ?c = "length (taken s)"
  show ?thesis using step
  proof (cases rule: mpsc_step.cases)
    case (push_call i w v)
    then show ?thesis using enq set_pc_none_ok [OF ok push_call(2)] by (simp add: held_def m_prod_def)
  next
    case (push_equal i v p w)
    have "w = p" using push_equal(4) by (simp add: seq_dif_def signed_eq_0_iff)
    then show ?thesis using push_equal pos set_pc_none_ok [OF ok push_equal(2)]
      by (simp add: held_def m_prod_def)
  next
    case (push_full i v p w)
    then show ?thesis using set_pc_none_ok [OF ok push_full(2)] by (simp add: held_def m_prod_def)
  next
    case (push_reload i v p w w')
    then show ?thesis using enq set_pc_none_ok [OF ok push_reload(2)] by (simp add: held_def m_prod_def)
  next
    case (cas_ok i v p)
    then show ?thesis using cas_ok_ok [OF ok cas_ok(2,3)] small by simp
  next
    case (cas_fail i v p w)
    then show ?thesis using enq set_pc_none_ok [OF ok cas_fail(2)] by (simp add: held_def m_prod_def)
  next
    case (push_write i v p)
    then show ?thesis using write_ok [OF ok] by simp
  next
    case (push_publish i v p)
    then show ?thesis using publish_ok [OF ok] by simp
  next
    case pop_call
    then show ?thesis using set_cons_ok [OF ok, of "K_Pos (dequeue_pos (mq s))"] shape
      by (simp add: released_def m_cons_def m_shape_def)
  next
    case (pop_none p w)
    then show ?thesis using set_cons_ok [OF ok, of K_Idle] by (simp add: released_def m_cons_def)
  next
    case (pop_avail p w)
    have p: "p = of_nat ?c" using m_okD(6) [OF ok] pop_avail(2) by (simp add: m_cons_def)
    have r: "released s = ?c" using pop_avail(2) by (simp add: released_def)
    have b: "?c \<le> length (claims s)" "length (claims s) + length (slots (mq s)) < 2 ^ 63"
      "2 \<le> length (slots (mq s))"
      using shape r pow_cap_bounds(1) by (auto simp: m_shape_def)
    have "?c < released s + length (slots (mq s))" using r b by linarith
    then have cur: "seq_at s p = of_nat ?c \<or> ?c < length (claims s) \<and> seq_at s p = of_nat (Suc ?c)"
      using m_slotsD [OF ok, of ?c] unfolding p r by (metis order_refl)
    have "seq_at s p \<noteq> of_nat ?c"
    proof
      assume old: "seq_at s p = of_nat ?c"
      then have w: "unat w \<le> ?c" using pop_avail(3) b by (simp add: word_le_nat_alt)
      have "seq_dif (of_nat (unat w)) (of_nat (Suc ?c)) = int (unat w) - int (Suc ?c)"
        using w b by (intro seq_dif_nat) linarith+
      moreover have "of_nat (unat w) = w" "p + 1 = of_nat (Suc ?c)" by (simp_all add: p)
      ultimately have "seq_dif w (p + 1) = int (unat w) - int (Suc ?c)" by metis
      then show False using pop_avail(4) w by linarith
    qed
    then show ?thesis using cur pop_avail set_cons_ok [OF ok, of "K_Avail p"] p
      by (auto simp: released_def m_cons_def Let_def)
  next
    case (pop_read p)
    then show ?thesis
      using m_ok_avail [OF ok pop_read(2)] set_cons_ok [OF ok, of "K_Read p (dat_at s p)"]
      by (auto simp: released_def m_cons_def Let_def dat_at_def)
  next
    case (pop_release p x)
    then show ?thesis using release_ok [OF ok] by simp
  next
    case (pop_advance p x)
    then show ?thesis using advance_ok [OF ok] by simp
  qed
qed

lemma mpsc_step_grows:
  "mpsc_step s s' \<Longrightarrow> length (claims s) \<le> length (claims s') \<and> length (slots (mq s')) = length (slots (mq s))"
  by (cases rule: mpsc_step.cases) (auto simp: set_pc_def)

lemma mpsc_start_ok: "pow_cap cap \<Longrightarrow> m_ok (mpsc_start cap v)"
proof -
  assume cap: "pow_cap cap"
  have "seq_at (mpsc_start cap v) (of_nat p) = of_nat p" if "p < cap" for p
    using that by (simp add: seq_at_def mslot_def slot_of_nat [OF cap] mpsc_start_def mpsc_new_def)
  then show ?thesis using cap pow_cap_bounds(2) [OF cap]
    by (simp add: m_ok_def mpsc_defs mpsc_start_def mpsc_new_def released_def held_def)
qed

lemma mpsc_run_ok:
  assumes "mpsc_steps (mpsc_start cap v) s" and "pow_cap cap" and "length (claims s) + cap < 2 ^ 63"
  shows "m_ok s \<and> length (slots (mq s)) = cap"
  using assms
proof (induction rule: rtranclp_induct)
  case base
  then show ?case using mpsc_start_ok by (simp add: mpsc_start_def mpsc_new_def)
next
  case (step s s')
  have g: "length (claims s) \<le> length (claims s')" "length (slots (mq s')) = length (slots (mq s))"
    using mpsc_step_grows [OF step(2)] by simp_all
  have "m_ok s \<and> length (slots (mq s)) = cap" using step.IH step.prems g(1) by simp
  then show ?case using mpsc_step_ok [OF step(2)] step.prems g by simp
qed

subsection \<open>The properties of the ring\<close>

text \<open>
  When nobody is in the middle of an operation, the ring is that of the sequential model,
  and holds exactly what has been claimed and not taken.
\<close>

lemma quiet_ring:
  assumes ok: "m_ok s" and idle: "\<And>i. held (pcs s i) = None" and cons: "mcons s = K_Idle"
  shows "mpsc_at (length (taken s)) (length (claims s)) (mq s)"
    and "mpsc_items (mq s) = drop (length (taken s)) (claims s)"
proof -
  let ?c = "length (taken s)" and ?e = "length (claims s)" and ?n = "length (slots (mq s))"
  have r: "released s = ?c" using cons by (simp add: released_def)
  have shape: "m_shape s" by (rule m_okD(1) [OF ok])
  have b: "?e + ?n < 2 ^ 63" "?c \<le> ?e" "?e \<le> ?c + ?n" using shape r by (simp_all add: m_shape_def)
  have slot: "mslot (mq s) (of_nat p) = p mod ?n" if "p < ?c + ?n" for p
    using window_slots(1) [OF shape] that b by simp
  have pub: "seq_at s (of_nat p) = of_nat (Suc p)" "dat_at s (of_nat p) = claims s ! p"
    if p: "?c \<le> p" "p < ?e" for p
    using m_slotsD [OF ok, of p] m_ownedD [OF ok, of p] idle r p b by auto
  have free: "seq_at s (of_nat p) = of_nat p" if "?e \<le> p" "p < ?c + ?n" for p
    using m_slotsD [OF ok, of p] r that b by auto
  have "seq (slots (mq s) ! (p mod ?n)) = of_nat (if p < ?e then Suc p else p)"
    if p: "?c \<le> p" "p < ?c + ?n" for p
    using pub(1) [of p] free [of p] p slot [OF p(2)] by (simp add: seq_at_def)
  then show at: "mpsc_at ?c ?e (mq s)"
    using shape b by (auto simp: mpsc_at_def m_shape_def)
  have dat: "rb_buf (mpsc_ring (mq s)) ! (p mod length (rb_buf (mpsc_ring (mq s)))) = claims s ! p"
    if p: "?c \<le> p" "p < ?e" for p
  proof -
    have win: "p < ?c + ?n" using p b by linarith
    have "p mod ?n < ?n" using window_slots(2) [OF shape, of p] p b by simp
    then show ?thesis using pub(2) [OF p] slot [OF win] by (simp add: mpsc_ring_def dat_at_def)
  qed
  have "mpsc_items (mq s) = map ((!) (claims s)) [?c..<?e]"
    unfolding mpsc_items_def ring_at_items(1) [OF mpsc_ring_at [OF at]] using dat by simp
  also have "\<dots> = drop ?c (claims s)" by (rule nth_equalityI) (simp_all add: b)
  finally show "mpsc_items (mq s) = drop ?c (claims s)" .
qed

text \<open>Two producers that own positions of a ring of four, and one that goes on to publish.\<close>

definition rival_ring :: "nat mpsc" where
  "rival_ring = (mpsc_new 4 0)\<lparr>enqueue_pos := 2\<rparr>"

definition rival_run :: "nat mpsc_run" where
  "rival_run =
     \<lparr>mq = rival_ring, pcs = (\<lambda>_. Q_Idle)(1 := Q_Claimed 7 0, 2 := Q_Claimed 8 1), mcons = K_Idle,
      claims = [7, 8], taken = []\<rparr>"

lemma claim_run:
  assumes idle: "pcs s i = Q_Idle" and fresh: "seq_at s (enqueue_pos (mq s)) = enqueue_pos (mq s)"
  shows "mpsc_steps s (set_pc i (Q_Claimed v (enqueue_pos (mq s)))
    (s\<lparr>mq := (mq s)\<lparr>enqueue_pos := enqueue_pos (mq s) + 1\<rparr>, claims := claims s @ [v]\<rparr>))"
proof -
  let ?p = "enqueue_pos (mq s)"
  let ?s1 = "set_pc i (Q_Pos v ?p) s" and ?s2 = "set_pc i (Q_Cas v ?p) s"
  have "mpsc_step s ?s1" by (rule mpsc_step.push_call [OF idle order_refl])
  moreover have "mpsc_step ?s1 (set_pc i (Q_Cas v ?p) ?s1)"
    by (rule mpsc_step.push_equal [where w = "?p"]) (simp_all add: fresh seq_dif_def)
  then have "mpsc_step ?s1 ?s2" by (simp add: set_pc_def)
  moreover have "mpsc_step ?s2 (set_pc i (Q_Claimed v ?p) (s\<lparr>mq := (mq s)\<lparr>enqueue_pos := ?p + 1\<rparr>,
      claims := claims s @ [v]\<rparr>))"
    using mpsc_step.cas_ok [of ?s2 i v ?p] by (simp add: set_pc_def)
  ultimately show ?thesis by (meson converse_rtranclp_into_rtranclp r_into_rtranclp)
qed

lemma rival_run_reach: "mpsc_steps (mpsc_start 4 0) rival_run"
proof -
  let ?s0 = "mpsc_start 4 (0 :: nat)"
  let ?s1 = "set_pc 1 (Q_Claimed 7 0) (?s0\<lparr>mq := (mq ?s0)\<lparr>enqueue_pos := 1\<rparr>, claims := [7]\<rparr>)"
  let ?s2 = "set_pc 2 (Q_Claimed 8 1) (?s1\<lparr>mq := (mq ?s1)\<lparr>enqueue_pos := 2\<rparr>, claims := [7, 8]\<rparr>)"
  have fresh: "seq_at ?s0 0 = 0" "seq_at ?s1 1 = 1" by code_simp+
  have "mpsc_steps ?s0 ?s1"
    using claim_run [of ?s0 1 7] fresh(1) by (simp add: mpsc_start_def mpsc_new_def)
  moreover have "mpsc_steps ?s1 ?s2"
    using claim_run [of ?s1 2 8] fresh(2) by (simp add: mpsc_start_def mpsc_new_def)
  moreover have "?s2 = rival_run"
    by (simp add: rival_run_def rival_ring_def set_pc_def mpsc_start_def mpsc_new_def)
  ultimately show ?thesis by simp
qed

text \<open>C25. With any number of producers, in every interleaving, with stale loads and failing
  compare-and-swaps, and as long as fewer than \<open>2 ^ 63\<close> positions have been claimed: the
  values come out in the order in which their positions were claimed, none lost, duplicated
  or changed; and once no producer owns a position, the ring holds exactly the values
  claimed and not yet taken.\<close>
theorem mpsc_fifo:
  assumes "mpsc_steps (mpsc_start cap v) s" and "pow_cap cap" and "length (claims s) + cap < 2 ^ 63"
  shows "taken s = take (length (taken s)) (claims s) \<and> length (taken s) \<le> length (claims s) \<and>
    length (claims s) \<le> length (taken s) + cap + 1 \<and>
    ((\<forall>i. held (pcs s i) = None) \<and> mcons s = K_Idle \<longrightarrow>
       mpsc_inv (mq s) \<and> mpsc_items (mq s) = drop (length (taken s)) (claims s))"
proof -
  have ok: "m_ok s" "length (slots (mq s)) = cap" using mpsc_run_ok [OF assms] by simp_all
  have "released s \<le> length (taken s) + 1" "length (taken s) \<le> released s"
    by (simp_all add: released_def split: mcons.split)
  then show ?thesis
    using m_okD(1) [OF ok(1)] quiet_ring [OF ok(1)] ok(2) by (auto simp: m_shape_def mpsc_inv_def)
qed

theorem mpsc_fifo_witness:
  "length (claims rival_run) \<le> length (taken rival_run) + 4 + 1 \<and> claims rival_run = [7, 8]"
  using mpsc_fifo [OF rival_run_reach pow_cap_4] by (simp add: rival_run_def)

text \<open>C26. Two producers never own the same position, nor the same slot of the ring, and no producer
  owns the slot the consumer is reading, so the plain accesses to the data never race; the
  data the consumer is about to read is the value claimed first among those not taken.\<close>
theorem mpsc_exclusive:
  assumes "mpsc_steps (mpsc_start cap v) s" and "pow_cap cap" and "length (claims s) + cap < 2 ^ 63"
  shows "(\<forall>i j w x. held (pcs s i) = Some w \<and> held (pcs s j) = Some x \<and> i \<noteq> j \<longrightarrow>
      slot_of cap w \<noteq> slot_of cap x) \<and>
    (\<forall>i w p. held (pcs s i) = Some w \<and> mcons s = K_Avail p \<longrightarrow> slot_of cap w \<noteq> slot_of cap p) \<and>
    (\<forall>p. mcons s = K_Avail p \<longrightarrow> dat (slots (mq s) ! slot_of cap p) = claims s ! length (taken s))"
proof -
  have ok: "m_ok s" "length (slots (mq s)) = cap" using mpsc_run_ok [OF assms] by simp_all
  have slot: "mslot (mq s) w = slot_of cap w" for w by (simp add: mslot_def ok(2))
  have "slot_of cap w \<noteq> slot_of cap x" if "held (pcs s i) = Some w" "held (pcs s j) = Some x" "i \<noteq> j"
    for i j w x
    using held_other(2) [OF ok(1) that(2,1)] that(3) by (simp add: slot)
  moreover have cons: "p = of_nat (length (taken s))" if "mcons s = K_Avail p" for p
    using m_okD(6) [OF ok(1)] that by (simp add: m_cons_def Let_def)
  have "slot_of cap w \<noteq> slot_of cap p" if "held (pcs s i) = Some w" "mcons s = K_Avail p" for i w p
    using avail_not_held [OF ok(1) that(1), of p] that(2) cons [OF that(2)] slot by metis
  moreover have "dat (slots (mq s) ! slot_of cap p) = claims s ! length (taken s)"
    if p: "mcons s = K_Avail p" for p
    using m_ok_avail [OF ok(1) p] by (simp add: dat_at_def slot)
  ultimately show ?thesis by blast
qed

theorem mpsc_exclusive_witness:
  "held (pcs rival_run 1) = Some 0 \<and> held (pcs rival_run 2) = Some 1 \<and> slot_of 4 0 \<noteq> slot_of 4 1"
proof -
  have "held (pcs rival_run 1) = Some 0" "held (pcs rival_run 2) = Some 1"
    "length (claims rival_run) + 4 < 2 ^ 63" by (simp_all add: rival_run_def held_def)
  with mpsc_exclusive [OF rival_run_reach pow_cap_4] show ?thesis by (metis n_not_Suc_n numeral_1_eq_Suc_0 numeral_2_eq_2 numeral_One)
qed

end
