(* ===== verification/Seqlock.thy ===== *)
theory Seqlock
  imports Lob_Types
begin

section \<open>The quote under a sequence lock\<close>

text \<open>
  include/lob/seqlock.hpp: one writer publishes quotes, any number of readers take
  snapshots. The six payload fields are separate atomics, so a reader sees them one by one.
  The steps below are the accesses of \<open>publish\<close> and \<open>read\<close> in program order, in any
  interleaving of the threads; the fences of the code are what keeps its relaxed accesses
  in that order.
\<close>

record quote =
  q_bid :: price_t
  q_ask :: price_t
  q_bid_qty :: qty_t
  q_ask_qty :: qty_t
  q_has_bid :: bool
  q_has_ask :: bool

definition empty_quote :: quote where
  "empty_quote = \<lparr>q_bid = 0, q_ask = 0, q_bid_qty = 0, q_ask_qty = 0, q_has_bid = False,
     q_has_ask = False\<rparr>"

record seqlock =
  sl_seq :: u64
  sl_cells :: quote

definition new_seqlock :: seqlock where
  "new_seqlock = \<lparr>sl_seq = 0, sl_cells = empty_quote\<rparr>"

text \<open>Storing, or loading, the \<open>k\<close>-th field: from \<open>src\<close> into \<open>dst\<close>, in the order of the code.\<close>

definition copy_field :: "nat \<Rightarrow> quote \<Rightarrow> quote \<Rightarrow> quote" where
  "copy_field k src dst =
     (if k = 0 then dst\<lparr>q_bid := q_bid src\<rparr>
      else if k = 1 then dst\<lparr>q_ask := q_ask src\<rparr>
      else if k = 2 then dst\<lparr>q_bid_qty := q_bid_qty src\<rparr>
      else if k = 3 then dst\<lparr>q_ask_qty := q_ask_qty src\<rparr>
      else if k = 4 then dst\<lparr>q_has_bid := q_has_bid src\<rparr>
      else dst\<lparr>q_has_ask := q_has_ask src\<rparr>)"

subsection \<open>The operations alone\<close>

definition sl_publish :: "quote \<Rightarrow> seqlock \<Rightarrow> seqlock" where
  "sl_publish q l =
     (let l1 = l\<lparr>sl_seq := sl_seq l + 1\<rparr>;
          l2 = l1\<lparr>sl_cells := fold (\<lambda>k. copy_field k q) [0..<6] (sl_cells l1)\<rparr>
      in l2\<lparr>sl_seq := sl_seq l2 + 1\<rparr>)"

text \<open>With nobody writing, a reader that meets an odd number spins for ever.\<close>

definition sl_read :: "seqlock \<Rightarrow> quote option" where
  "sl_read l =
     (if odd (sl_seq l) then None
      else Some (fold (\<lambda>k. copy_field k (sl_cells l)) [0..<6] empty_quote))"

lemma copy_all: "fold (\<lambda>k. copy_field k q) [0..<6] c = q"
  by (simp add: copy_field_def upt_conv_Cons)

lemma publish_read: "even (sl_seq l) \<Longrightarrow> sl_read (sl_publish q l) = Some q"
  unfolding sl_read_def sl_publish_def copy_all Let_def by simp

lemma publish_seq: "sl_seq (sl_publish q l) = sl_seq l + 2" "sl_cells (sl_publish q l) = q"
  unfolding sl_publish_def copy_all Let_def by simp_all

subsection \<open>One writer and many readers\<close>

datatype writer = W_Idle | W_Store quote nat

datatype reader = R_Idle | R_Load u64 quote nat | R_Done quote

record seq_run =
  lk :: seqlock
  wr :: writer
  rd :: "nat \<Rightarrow> reader"
  pubs :: "quote list"

definition seq_start :: seq_run where
  "seq_start = \<lparr>lk = new_seqlock, wr = W_Idle, rd = (\<lambda>_. R_Idle), pubs = []\<rparr>"

inductive seq_step :: "seq_run \<Rightarrow> seq_run \<Rightarrow> bool" where
  write_begin: "wr s = W_Idle \<Longrightarrow>
    seq_step s (s\<lparr>lk := (lk s)\<lparr>sl_seq := sl_seq (lk s) + 1\<rparr>, wr := W_Store q 0\<rparr>)"
| write_field: "wr s = W_Store q k \<Longrightarrow> k < 6 \<Longrightarrow>
    seq_step s (s\<lparr>lk := (lk s)\<lparr>sl_cells := copy_field k q (sl_cells (lk s))\<rparr>, wr := W_Store q (Suc k)\<rparr>)"
| write_end: "wr s = W_Store q 6 \<Longrightarrow>
    seq_step s (s\<lparr>lk := (lk s)\<lparr>sl_seq := sl_seq (lk s) + 1\<rparr>, wr := W_Idle, pubs := pubs s @ [q]\<rparr>)"
| read_spin: "rd s i = R_Idle \<Longrightarrow> odd (sl_seq (lk s)) \<Longrightarrow> seq_step s s"
| read_begin: "rd s i = R_Idle \<Longrightarrow> even (sl_seq (lk s)) \<Longrightarrow>
    seq_step s (s\<lparr>rd := (rd s)(i := R_Load (sl_seq (lk s)) empty_quote 0)\<rparr>)"
| read_field: "rd s i = R_Load n r k \<Longrightarrow> k < 6 \<Longrightarrow>
    seq_step s (s\<lparr>rd := (rd s)(i := R_Load n (copy_field k (sl_cells (lk s)) r) (Suc k))\<rparr>)"
| read_retry: "rd s i = R_Load n r 6 \<Longrightarrow> sl_seq (lk s) \<noteq> n \<Longrightarrow>
    seq_step s (s\<lparr>rd := (rd s)(i := R_Idle)\<rparr>)"
| read_done: "rd s i = R_Load n r 6 \<Longrightarrow> sl_seq (lk s) = n \<Longrightarrow>
    seq_step s (s\<lparr>rd := (rd s)(i := R_Done r)\<rparr>)"

abbreviation seq_steps :: "seq_run \<Rightarrow> seq_run \<Rightarrow> bool" where
  "seq_steps \<equiv> seq_step\<^sup>*\<^sup>*"

text \<open>The quote last published, and how far two quotes agree.\<close>

definition current :: "seq_run \<Rightarrow> quote" where
  "current s = last (empty_quote # pubs s)"

definition agree :: "nat \<Rightarrow> quote \<Rightarrow> quote \<Rightarrow> bool" where
  "agree k x y \<longleftrightarrow>
     (0 < k \<longrightarrow> q_bid x = q_bid y) \<and> (1 < k \<longrightarrow> q_ask x = q_ask y) \<and>
     (2 < k \<longrightarrow> q_bid_qty x = q_bid_qty y) \<and> (3 < k \<longrightarrow> q_ask_qty x = q_ask_qty y) \<and>
     (4 < k \<longrightarrow> q_has_bid x = q_has_bid y) \<and> (5 < k \<longrightarrow> q_has_ask x = q_has_ask y)"

lemma agree_0 [simp]: "agree 0 x y"
  by (simp add: agree_def)

lemma agree_6 [simp]: "agree 6 x y \<longleftrightarrow> x = y"
  by (cases x; cases y) (auto simp: agree_def)

lemma agree_copy: "agree k x y \<Longrightarrow> k < 6 \<Longrightarrow> agree (Suc k) (copy_field k y x) y"
  by (auto simp: agree_def copy_field_def)

text \<open>The word counts twice the publications, plus one while the writer is at work.\<close>

definition mark :: "nat \<Rightarrow> u64" where
  "mark n = of_nat n"

definition writer_ok :: "seq_run \<Rightarrow> bool" where
  "writer_ok s \<longleftrightarrow>
     (case wr s of
        W_Idle \<Rightarrow> sl_seq (lk s) = mark (2 * length (pubs s)) \<and> sl_cells (lk s) = current s
      | W_Store q k \<Rightarrow> k \<le> 6 \<and> sl_seq (lk s) = mark (2 * length (pubs s) + 1) \<and>
          agree k (sl_cells (lk s)) q)"

definition reader_ok :: "seq_run \<Rightarrow> reader \<Rightarrow> bool" where
  "reader_ok s x \<longleftrightarrow>
     (case x of
        R_Idle \<Rightarrow> True
      | R_Load n r k \<Rightarrow> (\<exists>m \<le> length (pubs s). n = mark (2 * m) \<and>
          (m = length (pubs s) \<and> wr s = W_Idle \<longrightarrow> agree k r (current s)))
      | R_Done r \<Rightarrow> r \<in> set (empty_quote # pubs s))"

definition seq_inv :: "seq_run \<Rightarrow> bool" where
  "seq_inv s \<longleftrightarrow> writer_ok s \<and> (\<forall>i. reader_ok s (rd s i))"

lemma mark_Suc: "mark (Suc n) = mark n + 1"
  by (simp add: mark_def)

lemma mark_eq: "a < 2 ^ 64 \<Longrightarrow> b < 2 ^ 64 \<Longrightarrow> mark a = mark b \<longleftrightarrow> a = b"
  by (simp add: mark_def word_of_nat_eq_iff take_bit_nat_eq_self)

lemma even_mark: "a < 2 ^ 64 \<Longrightarrow> even (mark a) \<longleftrightarrow> even a"
  by (simp add: mark_def even_of_nat_iff)

text \<open>A reader whose final check succeeds holds the quote that is published at that moment.\<close>

lemma checked_current:
  assumes inv: "seq_inv s" and small: "length (pubs s) < 2 ^ 62"
    and rd: "rd s i = R_Load n r 6" and eq: "sl_seq (lk s) = n"
  shows "wr s = W_Idle" and "r = current s"
proof -
  have "reader_ok s (R_Load n r 6)" using inv rd by (metis seq_inv_def)
  then obtain m where m: "n = mark (2 * m)" "m \<le> length (pubs s)"
    "m = length (pubs s) \<and> wr s = W_Idle \<longrightarrow> agree 6 r (current s)"
    by (auto simp only: reader_ok_def reader.case)
  show idle: "wr s = W_Idle"
  proof (cases "wr s")
    case (W_Store q k)
    then have "mark (2 * length (pubs s) + 1) = mark (2 * m)"
      using inv eq m(1) by (simp add: seq_inv_def writer_ok_def)
    then have "2 * length (pubs s) + 1 = 2 * m"
      using small m(2) by (subst (asm) mark_eq) simp_all
    then have False by presburger
    then show ?thesis ..
  qed
  have "mark (2 * length (pubs s)) = mark (2 * m)"
    using inv idle eq m(1) by (simp add: seq_inv_def writer_ok_def)
  then have "2 * length (pubs s) = 2 * m" using small m(2) by (subst (asm) mark_eq) simp_all
  then show "r = current s" using m(3) idle by simp
qed

lemma current_published: "current s \<in> set (empty_quote # pubs s)"
  unfolding current_def by (rule last_in_set) simp

text \<open>What the writer does keeps every reader in order: a load that has begun before is stale.\<close>

lemma reader_ok_writer:
  assumes "reader_ok s x" and "wr s' \<noteq> W_Idle \<and> pubs s' = pubs s \<or> pubs s' = pubs s @ [q]"
  shows "reader_ok s' x"
proof (cases x)
  case (R_Load n r k)
  then obtain m where "m \<le> length (pubs s)" "n = mark (2 * m)"
    using assms(1) by (auto simp: reader_ok_def)
  then show ?thesis using assms(2) unfolding R_Load reader_ok_def reader.case
    by (intro exI [of _ m]) auto
qed (use assms in \<open>auto simp: reader_ok_def\<close>)

lemma set_reader_ok:
  assumes inv: "seq_inv s" and x: "reader_ok s x"
  shows "seq_inv (s\<lparr>rd := (rd s)(i := x)\<rparr>)"
proof -
  have "reader_ok (s\<lparr>rd := (rd s)(i := x)\<rparr>) y \<longleftrightarrow> reader_ok s y" for y
    by (cases y) (simp_all add: reader_ok_def current_def)
  moreover have "writer_ok (s\<lparr>rd := (rd s)(i := x)\<rparr>) \<longleftrightarrow> writer_ok s"
    by (cases "wr s") (simp_all add: writer_ok_def current_def)
  ultimately show ?thesis using inv x by (simp add: seq_inv_def)
qed

lemma seq_step_ok:
  assumes step: "seq_step s s'" and inv: "seq_inv s" and small: "length (pubs s) < 2 ^ 62"
  shows "seq_inv s'"
proof -
  have rds: "reader_ok s (rd s i)" for i using inv by (simp add: seq_inv_def)
  have wrs: "writer_ok s" using inv by (simp add: seq_inv_def)
  show ?thesis using step
  proof (cases rule: seq_step.cases)
    case (write_begin q)
    have "writer_ok s'" using wrs write_begin by (simp add: writer_ok_def mark_Suc)
    then show ?thesis using reader_ok_writer [OF rds, of s'] write_begin by (simp add: seq_inv_def)
  next
    case (write_field q k)
    have "writer_ok s'" using wrs write_field by (simp add: writer_ok_def agree_copy)
    then show ?thesis using reader_ok_writer [OF rds, of s'] write_field by (simp add: seq_inv_def)
  next
    case (write_end q)
    have "mark (2 * length (pubs s) + 1) + 1 = mark (2 * length (pubs s'))"
      using write_end(1) by (simp add: mark_Suc)
    then have "writer_ok s'" using wrs write_end by (simp add: writer_ok_def current_def)
    then show ?thesis using reader_ok_writer [OF rds, of s' q] write_end by (simp add: seq_inv_def)
  next
    case (read_spin i)
    then show ?thesis using inv by simp
  next
    case (read_begin i)
    have idle: "wr s = W_Idle"
    proof (cases "wr s")
      case (W_Store q k)
      then have "sl_seq (lk s) = mark (2 * length (pubs s) + 1)" using wrs by (simp add: writer_ok_def)
      moreover have "2 * length (pubs s) + 1 < 2 ^ 64" using small by simp
      ultimately have "odd (sl_seq (lk s))" using even_mark by simp
      then show ?thesis using read_begin(3) by simp
    qed
    then have "reader_ok s (R_Load (sl_seq (lk s)) empty_quote 0)"
      using wrs by (auto simp: reader_ok_def writer_ok_def)
    then show ?thesis using set_reader_ok [OF inv] read_begin by simp
  next
    case (read_field i n r k)
    have "reader_ok s (R_Load n r k)" using rds [of i] read_field by simp
    then obtain m where m: "n = mark (2 * m)" "m \<le> length (pubs s)"
      "m = length (pubs s) \<and> wr s = W_Idle \<longrightarrow> agree k r (current s)"
      by (auto simp only: reader_ok_def reader.case)
    have "agree (Suc k) (copy_field k (sl_cells (lk s)) r) (current s)"
      if "m = length (pubs s)" "wr s = W_Idle"
      using agree_copy [OF _ read_field(3)] m(3) that wrs by (simp add: writer_ok_def)
    then have "reader_ok s (R_Load n (copy_field k (sl_cells (lk s)) r) (Suc k))"
      using m unfolding reader_ok_def reader.case by blast
    then show ?thesis using set_reader_ok [OF inv] read_field by simp
  next
    case (read_retry i n r)
    then show ?thesis using set_reader_ok [OF inv, of R_Idle] by (simp add: reader_ok_def)
  next
    case (read_done i n r)
    then have "r = current s" using checked_current(2) [OF inv small] by blast
    then have "reader_ok s (R_Done r)" using current_published [of s] by (simp add: reader_ok_def)
    then show ?thesis using set_reader_ok [OF inv] read_done by simp
  qed
qed

lemma seq_step_pubs: "seq_step s s' \<Longrightarrow> length (pubs s) \<le> length (pubs s')"
  by (cases rule: seq_step.cases) auto

lemma seq_run_ok:
  assumes "seq_steps seq_start s" and "length (pubs s) < 2 ^ 62"
  shows "seq_inv s"
  using assms
proof (induction rule: rtranclp_induct)
  case base
  then show ?case by (simp add: seq_inv_def writer_ok_def reader_ok_def mark_def seq_start_def new_seqlock_def
        current_def)
next
  case (step s s')
  then show ?case using seq_step_pubs [OF step(2)] seq_step_ok [OF step(2)] by simp
qed

subsection \<open>The property\<close>

definition quote_a :: quote where
  "quote_a = \<lparr>q_bid = 99, q_ask = 101, q_bid_qty = 6, q_ask_qty = 9, q_has_bid = True, q_has_ask = True\<rparr>"

text \<open>One publication, and a reader at its final check.\<close>

definition read_run :: seq_run where
  "read_run = \<lparr>lk = \<lparr>sl_seq = 2, sl_cells = quote_a\<rparr>, wr = W_Idle,
     rd = (\<lambda>_. R_Idle)(0 := R_Load 2 quote_a 6), pubs = [quote_a]\<rparr>"

lemma read_run_reach: "seq_steps seq_start read_run"
proof -
  let ?s0 = "seq_start" and ?c = "\<lambda>k. fold (\<lambda>j. copy_field j quote_a) [0..<k] empty_quote"
  let ?w = "\<lambda>k. ?s0\<lparr>lk := \<lparr>sl_seq = 1, sl_cells = ?c k\<rparr>, wr := W_Store quote_a k\<rparr>"
  let ?p = "?s0\<lparr>lk := \<lparr>sl_seq = 2, sl_cells = quote_a\<rparr>, pubs := [quote_a]\<rparr>"
  let ?r = "\<lambda>k. ?p\<lparr>rd := (rd ?s0)(0 := R_Load 2 (?c k) k)\<rparr>"
  have "seq_step ?s0 (?w 0)"
    using write_begin [of ?s0 quote_a] by (simp add: seq_start_def new_seqlock_def)
  then have first: "seq_steps ?s0 (?w 0)" by blast
  have ws: "seq_steps (?w 0) (?w k)" if "k \<le> 6" for k
    using that
  proof (induction k)
    case (Suc k)
    have "seq_step (?w k) (?w (Suc k))" using write_field [of "?w k" quote_a k] Suc.prems by simp
    then show ?case using Suc by (meson Suc_leD rtranclp.rtrancl_into_rtrancl)
  qed simp
  have "seq_step (?w 6) ?p"
    using write_end [of "?w 6" quote_a] copy_all by (simp add: seq_start_def)
  with first ws [of 6] have p: "seq_steps ?s0 ?p" by (simp add: rtranclp_trans)
  have "seq_step ?p (?r 0)"
    using read_begin [of ?p 0] by (simp add: seq_start_def)
  with p have r0: "seq_steps ?s0 (?r 0)" by (rule rtranclp.rtrancl_into_rtrancl)
  have rs: "seq_steps (?r 0) (?r k)" if "k \<le> 6" for k
    using that
  proof (induction k)
    case (Suc k)
    have "seq_step (?r k) (?r (Suc k))" using read_field [of "?r k" 0 2 "?c k" k] Suc.prems by simp
    then show ?case using Suc by (meson Suc_leD rtranclp.rtrancl_into_rtrancl)
  qed simp
  have "?r 6 = read_run" using copy_all by (simp add: read_run_def seq_start_def)
  then show ?thesis using rtranclp_trans [OF r0 rs [of 6]] by simp
qed

text \<open>C27. No reader ever returns a torn quote: in every interleaving of the writer's stores with any
  number of readers, as long as fewer than \<open>2 ^ 62\<close> quotes have been published, what a reader
  returns is the initial quote or one that was published, all six fields of the same
  publication; and when its final check succeeds no write is in progress and it is the quote
  published last.\<close>
theorem seqlock_no_torn_read:
  assumes "seq_steps seq_start s" and "length (pubs s) < 2 ^ 62"
  shows "(rd s i = R_Done r \<longrightarrow> r = empty_quote \<or> r \<in> set (pubs s)) \<and>
    (rd s i = R_Load n r 6 \<and> sl_seq (lk s) = n \<longrightarrow> wr s = W_Idle \<and> r = current s)"
proof -
  have inv: "seq_inv s" by (rule seq_run_ok [OF assms])
  then have "reader_ok s (rd s i)" by (simp add: seq_inv_def)
  then show ?thesis using checked_current [OF inv assms(2)] by (auto simp: reader_ok_def)
qed

theorem seqlock_no_torn_read_witness: "rd read_run 0 = R_Load 2 quote_a 6 \<and> quote_a = current read_run"
proof -
  have "rd read_run 0 = R_Load 2 quote_a 6" "sl_seq (lk read_run) = 2" "length (pubs read_run) < 2 ^ 62"
    by (simp_all add: read_run_def)
  then show ?thesis using seqlock_no_torn_read [OF read_run_reach, of 0 quote_a 2] by simp
qed

end
