(* ===== verification/Pipeline.thy ===== *)
theory Pipeline
  imports Ingress Mpsc_Run Seqlock
begin

section \<open>The single-writer pipeline and the sharded books\<close>

text \<open>
  include/lob/pipeline.hpp. Producers push commands into the ring; the one consumer thread
  drains them into the book and publishes the inside market under the sequence lock. The
  sharded books hold one book per shard; \<open>submit\<close> runs under the shard's mutex from
  beginning to end, so the calls on a shard are one after the other.
\<close>

subsection \<open>The quote of a book\<close>

definition book_quote :: "order_book \<Rightarrow> quote" where
  "book_quote b =
     (let q0 = empty_quote;
          q1 = (case best_bid b of
                  None \<Rightarrow> q0
                | Some px \<Rightarrow> q0\<lparr>q_has_bid := True, q_bid := px, q_bid_qty := best_bid_qty b\<rparr>)
      in case best_ask b of
           None \<Rightarrow> q1
         | Some px \<Rightarrow> q1\<lparr>q_has_ask := True, q_ask := px, q_ask_qty := best_ask_qty b\<rparr>)"

text \<open>What it should be: the best level of each side with the quantity it shows.\<close>

definition ex_quote :: "exchange \<Rightarrow> quote" where
  "ex_quote x =
     (let q0 = empty_quote;
          q1 = (case ex_view x Buy of
                  [] \<Rightarrow> q0
                | (p, os) # _ \<Rightarrow> q0\<lparr>q_has_bid := True, q_bid := p,
                    q_bid_qty := of_nat (sum_list (map ao_vis os))\<rparr>)
      in case ex_view x Sell of
           [] \<Rightarrow> q1
         | (p, os) # _ \<Rightarrow> q1\<lparr>q_has_ask := True, q_ask := p,
             q_ask_qty := of_nat (sum_list (map ao_vis os))\<rparr>)"

lemma book_quote_ok:
  assumes "plain_book b"
  shows "book_quote b = ex_quote (abs_book b)"
proof -
  have inv: "book_inv [] b" using assms by (simp add: plain_book_def)
  note q = quotes_are_best [OF inv]
  have word: "x = of_nat n" if "unat x = n" for x :: u64 and n using that by auto
  show ?thesis using q
    by (cases "best_bid b"; cases "best_ask b")
      (auto simp: book_quote_def ex_quote_def abs_book_def split: list.splits dest!: word)
qed

subsection \<open>The pipeline\<close>

record pipeline =
  pl_queue :: "ingress_cmd mpsc"
  pl_book :: order_book
  pl_quotes :: seqlock
  pl_applied :: u64

definition new_pipeline :: "nat \<Rightarrow> nat \<Rightarrow> pipeline" where
  "new_pipeline cap book_orders =
     \<lparr>pl_queue = mpsc_new cap new_cmd, pl_book = new_book book_orders Pool, pl_quotes = new_seqlock,
      pl_applied = 0\<rparr>"

definition try_submit :: "ingress_cmd \<Rightarrow> pipeline \<Rightarrow> (bool \<times> pipeline) option" where
  "try_submit c p =
     map_option (\<lambda>(ok, q). (ok, p\<lparr>pl_queue := q\<rparr>)) (mpsc_try_push c (pl_queue p))"

definition pl_apply :: "ingress_cmd \<Rightarrow> pipeline \<Rightarrow> pipeline option" where
  "pl_apply c p =
     map_option (\<lambda>b. p\<lparr>pl_book := b, pl_applied := pl_applied p + 1\<rparr>) (apply_cmd c (pl_book p))"

definition publish_quote :: "pipeline \<Rightarrow> pipeline" where
  "publish_quote p = p\<lparr>pl_quotes := sl_publish (book_quote (pl_book p)) (pl_quotes p)\<rparr>"

text \<open>The loop of \<open>drain\<close> counts the commands; \<open>None\<close> is a command that does not return.\<close>

definition drain_step :: "ingress_cmd \<Rightarrow> nat \<times> pipeline option \<Rightarrow> nat \<times> pipeline option" where
  "drain_step c st = (fst st + 1, Option.bind (snd st) (pl_apply c))"

definition drain :: "nat \<Rightarrow> pipeline \<Rightarrow> (nat \<times> pipeline) option" where
  "drain max_cmds p =
     (let ((n, res), q) = pop_while mpsc_try_pop max_cmds (\<lambda>st. snd st \<noteq> None) drain_step
            (0, Some p) (pl_queue p)
      in map_option (\<lambda>p1. let p2 = p1\<lparr>pl_queue := q\<rparr>
           in (n, if n \<noteq> 0 then publish_quote p2 else p2)) res)"

definition drained :: "pipeline \<Rightarrow> ingress_cmd list \<Rightarrow> nat \<times> pipeline option \<Rightarrow> bool" where
  "drained p cs st \<longleftrightarrow>
     (book_liq (pl_book p) + sum_list (map cmd_qty cs) < 2 ^ 63 \<longrightarrow>
       fst st = length cs \<and>
       (\<exists>p'. snd st = Some p' \<and> plain_book (pl_book p') \<and>
          book_liq (pl_book p') \<le> book_liq (pl_book p) + sum_list (map cmd_qty cs) \<and>
          abs_book (pl_book p') = fold ex_apply cs (abs_book (pl_book p)) \<and>
          pl_applied p' = pl_applied p + of_nat (length cs) \<and> pl_quotes p' = pl_quotes p))"

lemma drained_step: "drained p cs st \<Longrightarrow> drained p (cs @ [c]) (drain_step c st)"
proof -
  assume d: "drained p cs st"
  show ?thesis unfolding drained_def
  proof
    assume small: "book_liq (pl_book p) + sum_list (map cmd_qty (cs @ [c])) < 2 ^ 63"
    then obtain p' where p': "fst st = length cs" "snd st = Some p'" "plain_book (pl_book p')"
      "book_liq (pl_book p') \<le> book_liq (pl_book p) + sum_list (map cmd_qty cs)"
      "abs_book (pl_book p') = fold ex_apply cs (abs_book (pl_book p))"
      "pl_applied p' = pl_applied p + of_nat (length cs)" "pl_quotes p' = pl_quotes p"
      using d by (auto simp: drained_def)
    have "book_liq (pl_book p') + cmd_qty c < 2 ^ 63" using small p'(4) by simp
    from apply_cmd_ok [OF p'(3) this] obtain b where b: "apply_cmd c (pl_book p') = Some b"
      "plain_book b" "book_liq b \<le> book_liq (pl_book p') + cmd_qty c"
      "abs_book b = ex_apply c (abs_book (pl_book p'))" by blast
    then show "fst (drain_step c st) = length (cs @ [c]) \<and>
       (\<exists>p'. snd (drain_step c st) = Some p' \<and> plain_book (pl_book p') \<and>
          book_liq (pl_book p') \<le> book_liq (pl_book p) + sum_list (map cmd_qty (cs @ [c])) \<and>
          abs_book (pl_book p') = fold ex_apply (cs @ [c]) (abs_book (pl_book p)) \<and>
          pl_applied p' = pl_applied p + of_nat (length (cs @ [c])) \<and> pl_quotes p' = pl_quotes p)"
      using p' by (simp add: drain_step_def pl_apply_def)
  qed
qed

lemma submit_ok:
  assumes "mpsc_inv (pl_queue p)" and "0 < mpsc_room (pl_queue p)"
  obtains q where "try_submit c p = Some (True, p\<lparr>pl_queue := q\<rparr>)" "mpsc_inv q"
    "mpsc_items q = mpsc_items (pl_queue p) @ [c]" "mpsc_room q = mpsc_room (pl_queue p) - 1"
proof -
  obtain q where q: "the (mpsc_try_push c (pl_queue p)) = (True, q)" "mpsc_inv q"
    "mpsc_items q = mpsc_items (pl_queue p) @ [c]" "mpsc_room q = mpsc_room (pl_queue p) - 1"
    using mpsc.push_ok [OF assms, of c] by blast
  then have "mpsc_try_push c (pl_queue p) = Some (True, q)"
    using mpsc_push_returns [OF assms(1), of c] by auto
  then show thesis using q by (intro that) (simp_all add: try_submit_def)
qed

text \<open>A pipeline with a limit order to sell, one to buy and a market order queued.\<close>

definition demo_cmds :: "ingress_cmd list" where
  "demo_cmds =
     [new_cmd\<lparr>ic_side := Sell, ic_price := 101, ic_qty := 5\<rparr>,
      new_cmd\<lparr>ic_side := Buy, ic_price := 99, ic_qty := 2\<rparr>,
      new_cmd\<lparr>ic_type := MarketCmd, ic_side := Buy, ic_qty := 3\<rparr>]"

definition demo_pipeline :: pipeline where
  "demo_pipeline = fold (\<lambda>c p. snd (the (try_submit c p))) demo_cmds (new_pipeline 4 8)"

lemma demo_pipeline_queue:
  "mpsc_inv (pl_queue demo_pipeline)" "mpsc_items (pl_queue demo_pipeline) = demo_cmds"
  "demo_pipeline = (new_pipeline 4 8)\<lparr>pl_queue := pl_queue demo_pipeline\<rparr>"
proof -
  let ?p0 = "new_pipeline 4 8"
  have p0: "mpsc_inv (pl_queue ?p0)" "mpsc_items (pl_queue ?p0) = []" "mpsc_room (pl_queue ?p0) = 4"
    by (simp_all add: new_pipeline_def mpsc_new_queue [OF pow_cap_4])
  let ?c = "\<lambda>i. demo_cmds ! i"
  obtain q1 where q1: "try_submit (?c 0) ?p0 = Some (True, ?p0\<lparr>pl_queue := q1\<rparr>)" "mpsc_inv q1"
    "mpsc_items q1 = [?c 0]" "mpsc_room q1 = 3"
    by (rule submit_ok [OF p0(1), of "?c 0"]) (simp_all add: p0)
  obtain q2 where q2: "try_submit (?c 1) (?p0\<lparr>pl_queue := q1\<rparr>) = Some (True, ?p0\<lparr>pl_queue := q2\<rparr>)"
    "mpsc_inv q2" "mpsc_items q2 = [?c 0, ?c 1]" "mpsc_room q2 = 2"
    by (rule submit_ok [of "?p0\<lparr>pl_queue := q1\<rparr>" "?c 1"]) (simp_all add: q1)
  obtain q3 where q3: "try_submit (?c 2) (?p0\<lparr>pl_queue := q2\<rparr>) = Some (True, ?p0\<lparr>pl_queue := q3\<rparr>)"
    "mpsc_inv q3" "mpsc_items q3 = [?c 0, ?c 1, ?c 2]"
    by (rule submit_ok [of "?p0\<lparr>pl_queue := q2\<rparr>" "?c 2"]) (simp_all add: q2)
  have list: "demo_cmds = [?c 0, ?c 1, ?c 2]" by (simp add: demo_cmds_def)
  have eq: "demo_pipeline = ?p0\<lparr>pl_queue := q3\<rparr>"
    unfolding demo_pipeline_def by (subst list) (simp add: q1(1) q2(1) q3(1) del: One_nat_def)
  show "mpsc_inv (pl_queue demo_pipeline)" by (simp add: eq q3(2))
  show "demo_pipeline = ?p0\<lparr>pl_queue := pl_queue demo_pipeline\<rparr>" unfolding eq by simp
  show "mpsc_items (pl_queue demo_pipeline) = demo_cmds" by (subst list) (simp add: eq q3(3))
qed

text \<open>C28. Draining implements the abstract exchange: it returns, applies the first commands of the
  queue in order, at most \<open>max_cmds\<close> and otherwise all, each with the effect the exchange
  specifies, counts them, and if there was any publishes the resulting inside market, which
  is what a reader then reads.\<close>
theorem drain_refines:
  assumes "mpsc_inv (pl_queue p)" and "plain_book (pl_book p)"
    and "book_liq (pl_book p) + sum_list (map cmd_qty (mpsc_items (pl_queue p))) < 2 ^ 63"
  shows "\<exists>n p'. drain max_cmds p = Some (n, p') \<and>
    n = min max_cmds (length (mpsc_items (pl_queue p))) \<and>
    mpsc_inv (pl_queue p') \<and> mpsc_items (pl_queue p') = drop n (mpsc_items (pl_queue p)) \<and>
    plain_book (pl_book p') \<and>
    abs_book (pl_book p') = fold ex_apply (take n (mpsc_items (pl_queue p))) (abs_book (pl_book p)) \<and>
    pl_applied p' = pl_applied p + of_nat n \<and>
    (n = 0 \<longrightarrow> pl_quotes p' = pl_quotes p) \<and>
    (0 < n \<and> even (sl_seq (pl_quotes p)) \<longrightarrow>
       sl_read (pl_quotes p') = Some (ex_quote (abs_book (pl_book p'))))"
proof -
  let ?go = "\<lambda>st :: nat \<times> pipeline option. snd st \<noteq> None" and ?s = "(0 :: nat, Some p)"
  let ?items = "mpsc_items (pl_queue p)"
  obtain q' where q': "pop_while mpsc_try_pop max_cmds ?go drain_step ?s (pl_queue p) =
      (fst (list_while max_cmds ?go drain_step ?s ?items), q')" "mpsc_inv q'"
    "mpsc_items q' = snd (list_while max_cmds ?go drain_step ?s ?items)"
    using mpsc.pop_while_list [OF assms(1), of max_cmds ?go drain_step ?s] by blast
  have "drained p [] ?s" using assms(2) by (simp add: drained_def)
  then obtain cs zs st where st: "list_while max_cmds ?go drain_step ?s ?items = (st, zs)"
    "?items = cs @ zs" "drained p cs st" "length cs \<le> max_cmds"
    "length cs = max_cmds \<or> \<not> ?go st \<or> zs = []"
    by (rule list_while_prefix [of "drained p" ?s ?go drain_step]) (use drained_step in blast)+
  have "sum_list (map cmd_qty cs) \<le> sum_list (map cmd_qty ?items)" by (simp add: st(2))
  then obtain p1 where p1: "st = (length cs, Some p1)" "plain_book (pl_book p1)"
    "abs_book (pl_book p1) = fold ex_apply cs (abs_book (pl_book p))"
    "pl_applied p1 = pl_applied p + of_nat (length cs)" "pl_quotes p1 = pl_quotes p"
    using st(3) assms(3) unfolding drained_def by (cases st) auto
  let ?p2 = "p1\<lparr>pl_queue := q'\<rparr>"
  let ?p = "if length cs \<noteq> 0 then publish_quote ?p2 else ?p2"
  have run: "drain max_cmds p = Some (length cs, ?p)"
    unfolding drain_def q'(1) st(1) p1(1) by (simp add: Let_def)
  have n: "length cs = min max_cmds (length ?items)" using st(2,4,5) p1(1) by auto
  have parts: "take (length cs) ?items = cs" "drop (length cs) ?items = zs" by (simp_all add: st(2))
  show ?thesis
    by (intro exI [of _ "length cs"] exI [of _ ?p] conjI run n)
      (use q'(2,3) st(1) parts p1 publish_read book_quote_ok in
        \<open>auto simp: publish_quote_def\<close>)
qed

theorem drain_refines_witness:
  "\<exists>p'. drain 256 demo_pipeline = Some (3, p') \<and>
     sl_read (pl_quotes p') = Some \<lparr>q_bid = 99, q_ask = 101, q_bid_qty = 2, q_ask_qty = 2,
       q_has_bid = True, q_has_ask = True\<rparr>"
proof -
  have book: "pl_book demo_pipeline = new_book 8 Pool" "pl_quotes demo_pipeline = new_seqlock"
    by (subst demo_pipeline_queue(3); simp add: new_pipeline_def)+
  have plain: "plain_book (new_book 8 Pool)"
    by (simp add: plain_book_def new_book_inv) (simp add: new_book_def new_pool_def)
  have small: "book_liq (new_book 8 Pool) + sum_list (map cmd_qty demo_cmds) < 2 ^ 63"
  proof -
    have "book_liq (new_book 8 Pool) = 0" "sum_list (map cmd_qty demo_cmds) = 7" by code_simp+
    then show ?thesis by simp
  qed
  have quote: "ex_quote (fold ex_apply demo_cmds (abs_book (new_book 8 Pool))) =
      \<lparr>q_bid = 99, q_ask = 101, q_bid_qty = 2, q_ask_qty = 2, q_has_bid = True, q_has_ask = True\<rparr>"
    by code_simp
  have "length demo_cmds = 3" by (simp add: demo_cmds_def)
  then show ?thesis
    using drain_refines [of demo_pipeline 256] demo_pipeline_queue(1,2) plain small quote
    by (auto simp: book new_seqlock_def)
qed

subsection \<open>Sharded books\<close>

record shard =
  sh_book :: order_book
  sh_applied :: u64

definition new_shards :: "nat \<Rightarrow> nat \<Rightarrow> shard list" where
  "new_shards n book_orders = replicate n \<lparr>sh_book = new_book book_orders Pool, sh_applied = 0\<rparr>"

definition shard_index :: "nat \<Rightarrow> u32 \<Rightarrow> nat" where
  "shard_index n i = unat i mod n"

text \<open>\<open>None\<close>: there are no shards, and the code divides by zero; or the command does not return.\<close>

definition sh_submit :: "ingress_cmd \<Rightarrow> shard list \<Rightarrow> shard list option" where
  "sh_submit c shs =
     (if shs = [] then None
      else
        (let i = shard_index (length shs) (ic_instrument c); s = shs ! i
         in map_option (\<lambda>b. shs[i := s\<lparr>sh_book := b, sh_applied := sh_applied s + 1\<rparr>])
              (apply_cmd c (sh_book s))))"

definition sh_total :: "shard list \<Rightarrow> u64" where
  "sh_total shs = fold (\<lambda>s n. n + sh_applied s) shs 0"

definition sh_quote :: "u32 \<Rightarrow> shard list \<Rightarrow> quote option" where
  "sh_quote i shs =
     (if shs = [] then None else Some (book_quote (sh_book (shs ! shard_index (length shs) i))))"

primrec sh_submit_all :: "ingress_cmd list \<Rightarrow> shard list \<Rightarrow> shard list option" where
  "sh_submit_all [] shs = Some shs"
| "sh_submit_all (c # cs) shs = Option.bind (sh_submit c shs) (sh_submit_all cs)"

text \<open>The commands that go to a shard.\<close>

definition sh_cmds :: "nat \<Rightarrow> nat \<Rightarrow> ingress_cmd list \<Rightarrow> ingress_cmd list" where
  "sh_cmds n i cs = filter (\<lambda>c. unat (ic_instrument c) mod n = i) cs"

definition shard_ok :: "nat \<Rightarrow> shard \<Rightarrow> bool" where
  "shard_ok extra s \<longleftrightarrow> plain_book (sh_book s) \<and> book_liq (sh_book s) + extra < 2 ^ 63"

lemma sh_total_sum: "sh_total shs = sum_list (map sh_applied shs)"
proof -
  have "fold (\<lambda>s n. n + sh_applied s) shs k = k + sum_list (map sh_applied shs)" for k
    by (induction shs arbitrary: k) (simp_all add: add.assoc)
  then show ?thesis by (simp add: sh_total_def)
qed

lemma sum_list_upd_plus:
  "i < length xs \<Longrightarrow> sum_list (map f (xs[i := y])) + f (xs ! i) = sum_list (map f xs) + (f y :: 'b :: ab_group_add)"
proof (induction xs arbitrary: i)
  case (Cons x xs)
  then show ?case by (cases i) (simp_all add: algebra_simps)
qed simp

lemma sh_submit_all_ok:
  assumes "shs \<noteq> []"
    and "\<forall>i < length shs. shard_ok (sum_list (map cmd_qty (sh_cmds (length shs) i cs))) (shs ! i)"
  shows "\<exists>shs'. sh_submit_all cs shs = Some shs' \<and> length shs' = length shs \<and>
    (\<forall>i < length shs. plain_book (sh_book (shs' ! i)) \<and>
       abs_book (sh_book (shs' ! i)) =
         fold ex_apply (sh_cmds (length shs) i cs) (abs_book (sh_book (shs ! i)))) \<and>
    sh_total shs' = sh_total shs + of_nat (length cs)"
  using assms
proof (induction cs arbitrary: shs)
  case Nil
  then show ?case by (simp add: sh_cmds_def shard_ok_def)
next
  case (Cons c cs)
  let ?n = "length shs"
  define k where "k = shard_index ?n (ic_instrument c)"
  have k: "k < ?n" using Cons.prems(1) by (simp add: k_def shard_index_def)
  let ?s = "shs ! k"
  have mine: "sh_cmds ?n k (c # cs) = c # sh_cmds ?n k cs" by (simp add: sh_cmds_def k_def shard_index_def)
  have other: "sh_cmds ?n i (c # cs) = sh_cmds ?n i cs" if "i \<noteq> k" for i
    using that by (simp add: sh_cmds_def k_def shard_index_def)
  have ok: "plain_book (sh_book ?s)"
    "book_liq (sh_book ?s) + cmd_qty c + sum_list (map cmd_qty (sh_cmds ?n k cs)) < 2 ^ 63"
    using Cons.prems(2) k mine by (auto simp: shard_ok_def)
  then have "book_liq (sh_book ?s) + cmd_qty c < 2 ^ 63" by linarith
  from apply_cmd_ok [OF ok(1) this] obtain b where b: "apply_cmd c (sh_book ?s) = Some b"
    "plain_book b" "book_liq b \<le> book_liq (sh_book ?s) + cmd_qty c"
    "abs_book b = ex_apply c (abs_book (sh_book ?s))" by blast
  define shs1 where "shs1 = shs[k := ?s\<lparr>sh_book := b, sh_applied := sh_applied ?s + 1\<rparr>]"
  have sub: "sh_submit c shs = Some shs1"
    using Cons.prems(1) b(1) by (simp add: sh_submit_def shs1_def k_def Let_def)
  have at: "sh_book (shs1 ! i) = (if i = k then b else sh_book (shs ! i))" if "i < ?n" for i
    using k by (auto simp: shs1_def nth_list_update)
  have len: "length shs1 = ?n" "shs1 \<noteq> []" using Cons.prems(1) by (simp_all add: shs1_def)
  have "\<forall>i < length shs1. shard_ok (sum_list (map cmd_qty (sh_cmds (length shs1) i cs))) (shs1 ! i)"
  proof (intro allI impI)
    fix i assume "i < length shs1"
    then have i: "i < ?n" by (simp add: len)
    show "shard_ok (sum_list (map cmd_qty (sh_cmds (length shs1) i cs))) (shs1 ! i)"
    proof (cases "i = k")
      case True
      then show ?thesis using at [OF i] b(2,3) ok(2) by (simp add: len shard_ok_def)
    next
      case False
      have "shard_ok (sum_list (map cmd_qty (sh_cmds ?n i (c # cs)))) (shs ! i)" using Cons.prems(2) i by blast
      then show ?thesis using at [OF i] False unfolding other [OF False] by (simp add: len shard_ok_def)
    qed
  qed
  from Cons.IH [OF len(2) this, unfolded len(1)] obtain shs' where shs': "sh_submit_all cs shs1 = Some shs'"
    "length shs' = ?n" "\<forall>i < ?n. plain_book (sh_book (shs' ! i)) \<and> abs_book (sh_book (shs' ! i)) =
      fold ex_apply (sh_cmds ?n i cs) (abs_book (sh_book (shs1 ! i)))"
    "sh_total shs' = sh_total shs1 + of_nat (length cs)" by blast
  have "sh_total shs1 = sh_total shs + 1"
    using sum_list_upd_plus [OF k, of sh_applied "?s\<lparr>sh_book := b, sh_applied := sh_applied ?s + 1\<rparr>"]
    by (simp add: sh_total_sum shs1_def algebra_simps)
  moreover have "fold ex_apply (sh_cmds ?n i cs) (abs_book (sh_book (shs1 ! i))) =
      fold ex_apply (sh_cmds ?n i (c # cs)) (abs_book (sh_book (shs ! i)))" if "i < ?n" for i
    using at [OF that] mine other [of i] b(4) by (cases "i = k") simp_all
  ultimately show ?case using shs' sub by (intro exI [of _ shs']) (simp add: add.assoc)
qed

text \<open>C29. The shards are independent exchanges: after any sequence of submissions the book of
  every shard is the one its own commands produce, in their order, on the book it had, whatever
  was submitted to the others; every submission returns and is counted once.\<close>
theorem shards_refine:
  assumes "shs \<noteq> []"
    and "\<forall>i < length shs. shard_ok (sum_list (map cmd_qty (sh_cmds (length shs) i cs))) (shs ! i)"
  shows "\<exists>shs'. sh_submit_all cs shs = Some shs' \<and> length shs' = length shs \<and>
    (\<forall>i < length shs. plain_book (sh_book (shs' ! i)) \<and>
       abs_book (sh_book (shs' ! i)) =
         fold ex_apply (sh_cmds (length shs) i cs) (abs_book (sh_book (shs ! i)))) \<and>
    sh_total shs' = sh_total shs + of_nat (length cs) \<and>
    (\<forall>inst. sh_quote inst shs' =
       Some (ex_quote (abs_book (sh_book (shs' ! (unat inst mod length shs))))))"
proof -
  obtain shs' where s: "sh_submit_all cs shs = Some shs'" "length shs' = length shs"
    "\<forall>i < length shs. plain_book (sh_book (shs' ! i)) \<and>
       abs_book (sh_book (shs' ! i)) =
         fold ex_apply (sh_cmds (length shs) i cs) (abs_book (sh_book (shs ! i)))"
    "sh_total shs' = sh_total shs + of_nat (length cs)"
    using sh_submit_all_ok [OF assms] by blast
  have "sh_quote inst shs' = Some (ex_quote (abs_book (sh_book (shs' ! (unat inst mod length shs)))))" for inst
  proof -
    have "unat inst mod length shs < length shs" using assms(1) by simp
    with s(3) show ?thesis using assms(1) s(2) by (auto simp: sh_quote_def shard_index_def book_quote_ok)
  qed
  then show ?thesis using s by blast
qed

theorem shards_refine_witness:
  "\<exists>shs'. sh_submit_all (map (\<lambda>c. c\<lparr>ic_instrument := 3\<rparr>) demo_cmds @ demo_cmds) (new_shards 2 8) = Some shs' \<and>
     sh_total shs' = 6 \<and> sh_quote 0 shs' = sh_quote 1 shs'"
proof -
  let ?cs = "map (\<lambda>c. c\<lparr>ic_instrument := 3\<rparr>) demo_cmds @ demo_cmds" and ?shs = "new_shards 2 8"
  have plain: "plain_book (new_book 8 Pool)"
    by (simp add: plain_book_def new_book_inv) (simp add: new_book_def new_pool_def)
  have two: "(\<forall>i < 2. P i) \<longleftrightarrow> P 0 \<and> P 1" for P :: "nat \<Rightarrow> bool" by (auto simp: less_2_cases_iff)
  have len: "length ?shs = 2" by (simp add: new_shards_def)
  have at: "?shs ! i = \<lparr>sh_book = new_book 8 Pool, sh_applied = 0\<rparr>" if "i < 2" for i
    using that by (simp add: new_shards_def)
  have cmds: "sum_list (map cmd_qty (sh_cmds 2 0 ?cs)) = 7" "sum_list (map cmd_qty (sh_cmds 2 1 ?cs)) = 7"
    "book_liq (new_book 8 Pool) = 0" by code_simp+
  have ok: "\<forall>i < length ?shs. shard_ok (sum_list (map cmd_qty (sh_cmds (length ?shs) i ?cs))) (?shs ! i)"
    unfolding len two using plain by (simp add: at cmds shard_ok_def del: One_nat_def)
  have same: "ex_quote (fold ex_apply (sh_cmds 2 0 ?cs) (abs_book (new_book 8 Pool))) =
      ex_quote (fold ex_apply (sh_cmds 2 1 ?cs) (abs_book (new_book 8 Pool)))" by code_simp
  have idx: "unat (0 :: u32) mod 2 = 0" "unat (1 :: u32) mod 2 = 1" by code_simp+
  have "?shs \<noteq> []" "sh_total ?shs = 0" "length demo_cmds = 3"
    by (simp_all add: new_shards_def sh_total_sum demo_cmds_def numeral_2_eq_2)
  with shards_refine [OF _ ok] obtain shs' where s: "sh_submit_all ?cs ?shs = Some shs'" "sh_total shs' = 6"
    "\<forall>i < 2. abs_book (sh_book (shs' ! i)) = fold ex_apply (sh_cmds 2 i ?cs) (abs_book (sh_book (?shs ! i)))"
    "\<forall>inst. sh_quote inst shs' = Some (ex_quote (abs_book (sh_book (shs' ! (unat inst mod 2)))))"
    unfolding len by auto
  have "abs_book (sh_book (shs' ! 0)) = fold ex_apply (sh_cmds 2 0 ?cs) (abs_book (new_book 8 Pool))"
    "abs_book (sh_book (shs' ! 1)) = fold ex_apply (sh_cmds 2 1 ?cs) (abs_book (new_book 8 Pool))"
    using s(3) by (simp_all add: at)
  then have "sh_quote 0 shs' = sh_quote 1 shs'" using s(4) same by (simp add: idx)
  with s(1,2) show ?thesis by blast
qed

end
