(* ===== verification/Simulator.thy ===== *)
theory Simulator
  imports Ingress Complex_Main
begin

section \<open>The order-flow simulator\<close>

text \<open>
  include/lob/simulator.hpp and src/simulator.cpp: a random mix of limit orders, market
  orders and cancels driven into a book. The generator is the program's parameter: its state
  is the type variable, \<open>rn_u01\<close> the draw of a number in [0, 1) and \<open>rn_next\<close> the draw of 64
  bits, each returning the next state. The intensities and the products of draws are real
  numbers; the rounding of \<open>double\<close> is not modelled.
\<close>

record 'g random_source =
  rn_u01 :: "'g \<Rightarrow> real \<times> 'g"
  rn_next :: "'g \<Rightarrow> u64 \<times> 'g"

record sim_config =
  lambda_limit :: real
  lambda_market :: real
  lambda_cancel :: real
  mid :: price_t
  tick_span :: int
  default_qty :: qty_t
  target_depth_per_side :: u64

record 'g sim =
  sm_cfg :: sim_config
  sm_book :: order_book
  sm_rng :: 'g
  sm_live :: "order_id_t list"
  sm_applied :: u64
  sm_since_compact :: u64

definition new_sim :: "'g \<Rightarrow> sim_config \<Rightarrow> order_book \<Rightarrow> 'g sim" where
  "new_sim g cfg b = \<lparr>sm_cfg = cfg, sm_book = b, sm_rng = g, sm_live = [], sm_applied = 0,
     sm_since_compact = 0\<rparr>"

datatype sim_kind = LimitKind | MarketKind | CancelKind

text \<open>
  A step may divide by zero, which is \<open>Inl\<close>; \<open>None\<close> around the result is a call that does
  not return.
\<close>

datatype sim_error = Modulo_By_Zero

type_synonym 'g sim_result = "sim_error + bool \<times> 'g sim"

definition draw_u01 :: "'g random_source \<Rightarrow> 'g sim \<Rightarrow> real \<times> 'g sim" where
  "draw_u01 R s = (let (u, g) = rn_u01 R (sm_rng s) in (u, s\<lparr>sm_rng := g\<rparr>))"

definition draw_next :: "'g random_source \<Rightarrow> 'g sim \<Rightarrow> u64 \<times> 'g sim" where
  "draw_next R s = (let (r, g) = rn_next R (sm_rng s) in (r, s\<lparr>sm_rng := g\<rparr>))"

definition draw_kind :: "'g random_source \<Rightarrow> 'g sim \<Rightarrow> sim_kind \<times> 'g sim" where
  "draw_kind R s =
     (let cfg = sm_cfg s; z = lambda_limit cfg + lambda_market cfg + lambda_cancel cfg;
          (v, s1) = draw_u01 R s; u = v * z
      in if u < lambda_limit cfg then (LimitKind, s1)
         else (let u' = u - lambda_limit cfg
               in if u' < lambda_market cfg then (MarketKind, s1) else (CancelKind, s1)))"

definition compact_live :: "'g sim \<Rightarrow> 'g sim" where
  "compact_live s =
     s\<lparr>sm_live := filter (\<lambda>oid. \<not> get_order oid (sm_book s) = None) (sm_live s), sm_since_compact := 0\<rparr>"

text \<open>The soft cap on the live orders, in the arithmetic of \<open>size_t\<close>.\<close>

definition live_cap :: "sim_config \<Rightarrow> u64" where
  "live_cap cfg = target_depth_per_side cfg * 2 + 64"

text \<open>The rest of \<open>do_limit\<close>, after the test of the cap.\<close>

definition place_limit :: "'g random_source \<Rightarrow> 'g sim \<Rightarrow> bool \<times> 'g sim" where
  "place_limit R s =
     (let cfg = sm_cfg s; span = max 1 (tick_span cfg);
          (u1, s1) = draw_u01 R s;
          (u2, s2) = draw_u01 R s1;
          mag = 1 + \<lfloor>u1 * u2 * of_int span\<rfloor>;
          (u3, s3) = draw_u01 R s2;
          buy = u3 < 1 / 2;
          px = (if buy then mid cfg - of_int mag else mid cfg + of_int mag);
          (oid, b) = add_limit_order (if buy then Buy else Sell) px (default_qty cfg) (sm_book s3)
      in if oid = 0 then (False, s3\<lparr>sm_book := b\<rparr>)
         else (True, s3\<lparr>sm_book := b, sm_live := sm_live s3 @ [oid]\<rparr>))"

text \<open>The loop of \<open>do_cancel\<close>, with the attempts left.\<close>

primrec cancel_attempts :: "'g random_source \<Rightarrow> nat \<Rightarrow> 'g sim \<Rightarrow> 'g sim_result" where
  "cancel_attempts R 0 s = Inr (False, s)"
| "cancel_attempts R (Suc n) s =
     (let (r, s1) = draw_next R s
      in if sm_live s1 = [] then Inl Modulo_By_Zero
         else
           (let i = unat r mod length (sm_live s1); oid = sm_live s1 ! i;
                (ok, b) = cancel_order oid (sm_book s1);
                s2 = s1\<lparr>sm_book := b, sm_live := butlast ((sm_live s1)[i := last (sm_live s1)])\<rparr>
            in if ok then Inr (True, s2) else cancel_attempts R n s2))"

text \<open>
  \<open>do_limit\<close> and \<open>do_cancel\<close> call each other; the first argument says which of them runs.
\<close>

partial_function (option) do_flow ::
    "bool \<Rightarrow> 'g random_source \<Rightarrow> 'g sim \<Rightarrow> 'g sim_result option" where
  "do_flow is_limit R s =
     (if is_limit then
        (if unat (live_cap (sm_cfg s)) \<le> length (sm_live s) then do_flow False R s
         else Some (Inr (place_limit R s)))
      else
        (if sm_live s = [] then do_flow True R s
         else Some (cancel_attempts R 8 s)))"

declare do_flow.simps [code]

definition do_limit :: "'g random_source \<Rightarrow> 'g sim \<Rightarrow> 'g sim_result option" where
  "do_limit = do_flow True"

definition do_cancel :: "'g random_source \<Rightarrow> 'g sim \<Rightarrow> 'g sim_result option" where
  "do_cancel = do_flow False"

definition do_market :: "'g random_source \<Rightarrow> 'g sim \<Rightarrow> 'g sim_result option" where
  "do_market R s =
     (let (u, s1) = draw_u01 R s; buy = u < 1 / 2;
          (r, s2) = draw_next R s1; q = 1 + r mod 4
      in map_option (\<lambda>(fills, b). Inr (True, s2\<lparr>sm_book := b\<rparr>))
           (market_order (if buy then Buy else Sell) q (sm_book s2)))"

text \<open>What \<open>step\<close> does after the event.\<close>

definition finish_step :: "bool \<times> 'g sim \<Rightarrow> bool \<times> 'g sim" where
  "finish_step = (\<lambda>(ok, s).
     (let s1 = (if ok then s\<lparr>sm_applied := sm_applied s + 1\<rparr> else s);
          s2 = s1\<lparr>sm_since_compact := sm_since_compact s1 + 1\<rparr>
      in (ok, if 4096 \<le> sm_since_compact s2 then compact_live s2 else s2)))"

definition sim_step :: "'g random_source \<Rightarrow> 'g sim \<Rightarrow> 'g sim_result option" where
  "sim_step R s =
     (let (k, s1) = draw_kind R s
      in map_option (map_sum id finish_step)
           (case k of
              LimitKind \<Rightarrow> do_limit R s1
            | MarketKind \<Rightarrow> do_market R s1
            | CancelKind \<Rightarrow> do_cancel R s1))"

subsection \<open>The invariant of the simulator\<close>

text \<open>
  The simulator is the only source of orders, so every resting order is in its list, once.
  The list may also hold ids of orders that have been filled.
\<close>

definition sim_inv :: "'g sim \<Rightarrow> bool" where
  "sim_inv s \<longleftrightarrow> plain_book (sm_book s) \<and> distinct (sm_live s) \<and>
     ex_ids (abs_book (sm_book s)) \<subseteq> set (sm_live s) \<and>
     (\<forall>i \<in> set (sm_live s). i < next_order_id (sm_book s))"

text \<open>The commands the simulator sends.\<close>

definition sim_cmd :: "sim_config \<Rightarrow> ingress_cmd \<Rightarrow> bool" where
  "sim_cmd cfg c \<longleftrightarrow>
     (case ic_type c of
        LimitCmd \<Rightarrow> ic_qty c = default_qty cfg \<and>
          (\<exists>m. 1 \<le> m \<and> m \<le> max 1 (tick_span cfg) \<and>
             ic_price c = (if ic_side c = Buy then mid cfg - of_int m else mid cfg + of_int m))
      | MarketCmd \<Rightarrow> 1 \<le> ic_qty c \<and> ic_qty c \<le> 4
      | CancelCmd \<Rightarrow> True)"

text \<open>One event: at most one command, none if the event reports that it did nothing.\<close>

definition flow_ok :: "'g sim \<Rightarrow> bool \<times> 'g sim \<Rightarrow> bool" where
  "flow_ok s res \<longleftrightarrow>
     (case res of (ok, s') \<Rightarrow>
        sim_inv s' \<and> sm_cfg s' = sm_cfg s \<and> sm_applied s' = sm_applied s \<and>
        (\<exists>cs. (if ok then length cs = 1 else cs = []) \<and> (\<forall>c \<in> set cs. sim_cmd (sm_cfg s) c) \<and>
           abs_book (sm_book s') = fold ex_apply cs (abs_book (sm_book s))))"

lemma draw_frame:
  "snd (draw_u01 R s) = s\<lparr>sm_rng := snd (rn_u01 R (sm_rng s))\<rparr>"
  "snd (draw_next R s) = s\<lparr>sm_rng := snd (rn_next R (sm_rng s))\<rparr>"
  "fst (draw_u01 R s) = fst (rn_u01 R (sm_rng s))"
  by (simp_all add: draw_u01_def draw_next_def split: prod.splits)

lemma sim_inv_frame:
  "sm_book s' = sm_book s \<Longrightarrow> sm_live s' = sm_live s \<Longrightarrow> sim_inv s' \<longleftrightarrow> sim_inv s"
  by (simp add: sim_inv_def)

definition u01_range :: "'g random_source \<Rightarrow> bool" where
  "u01_range R \<longleftrightarrow> (\<forall>g. 0 \<le> fst (rn_u01 R g) \<and> fst (rn_u01 R g) < 1)"

lemma tick_distance:
  assumes "0 \<le> u" and "u < (1 :: real)" and "0 \<le> v" and "v < (1 :: real)" and "1 \<le> n"
  shows "0 \<le> \<lfloor>u * v * of_int n\<rfloor> \<and> \<lfloor>u * v * of_int n\<rfloor> < n"
proof
  have "u * v \<le> 1 * v" using assms by (intro mult_right_mono) simp_all
  then have "u * v < 1" using assms(4) by simp
  then have "u * v * of_int n < 1 * of_int n" using assms(5) by (intro mult_strict_right_mono) simp_all
  then show "\<lfloor>u * v * of_int n\<rfloor> < n" by (simp add: floor_less_iff)
  show "0 \<le> \<lfloor>u * v * of_int n\<rfloor>" using assms by simp
qed

lemma place_limit_ok:
  assumes inv: "sim_inv s" and room: "book_liq (sm_book s) + unat (default_qty (sm_cfg s)) < 2 ^ 63"
    and range: "u01_range R"
  shows "flow_ok s (place_limit R s)"
proof -
  let ?cfg = "sm_cfg s" and ?b = "sm_book s"
  obtain u1 g1 where d1: "rn_u01 R (sm_rng s) = (u1, g1)" by (cases "rn_u01 R (sm_rng s)")
  obtain u2 g2 where d2: "rn_u01 R g1 = (u2, g2)" by (cases "rn_u01 R g1")
  obtain u3 g3 where d3: "rn_u01 R g2 = (u3, g3)" by (cases "rn_u01 R g2")
  define m where "m = 1 + \<lfloor>u1 * u2 * of_int (max 1 (tick_span ?cfg))\<rfloor>"
  define sd where "sd = (if u3 < 1 / 2 then Buy else Sell)"
  define px where "px = (if u3 < 1 / 2 then mid ?cfg - of_int m else mid ?cfg + of_int m)"
  define c where "c = new_cmd\<lparr>ic_side := sd, ic_price := px, ic_qty := default_qty ?cfg\<rparr>"
  have c: "ic_type c = LimitCmd" "ic_side c = sd" "ic_price c = px" "ic_qty c = default_qty ?cfg"
    by (simp_all add: c_def new_cmd_def)
  have unit: "0 \<le> u1" "u1 < 1" "0 \<le> u2" "u2 < 1"
    using range [unfolded u01_range_def, rule_format, of "sm_rng s"]
      range [unfolded u01_range_def, rule_format, of g1] d1 d2 by simp_all
  have cmd: "sim_cmd ?cfg c"
    unfolding sim_cmd_def c using tick_distance [OF unit, of "max 1 (tick_span ?cfg)"]
    by (auto simp: sd_def px_def m_def intro!: exI [of _ m])
  obtain oid b where add: "add_limit_order sd px (default_qty ?cfg) ?b = (oid, b)"
    by (cases "add_limit_order sd px (default_qty ?cfg) ?b")
  have run: "place_limit R s = (if oid = 0 then (False, s\<lparr>sm_rng := g3, sm_book := b\<rparr>)
      else (True, s\<lparr>sm_rng := g3, sm_book := b, sm_live := sm_live s @ [oid]\<rparr>))"
    using add unfolding sd_def px_def m_def
    by (cases "u3 < 1 / 2") (simp_all add: place_limit_def draw_u01_def d1 d2 d3 Let_def)
  have plain: "plain_book ?b" using inv by (simp add: sim_inv_def)
  have "book_liq ?b + cmd_qty c < 2 ^ 63" using room by (simp add: cmd_qty_def c)
  from apply_cmd_ok [OF plain this] have new: "plain_book b" "abs_book b = ex_apply c (abs_book ?b)"
    using add by (auto simp: apply_cmd_def c)
  show ?thesis
  proof (cases "ex_count (abs_book ?b) = ex_cap (abs_book ?b)")
    case True
    then have "oid = 0" using add_limit_id [OF plain, of sd px "default_qty ?cfg"] add by simp
    moreover have "abs_book b = abs_book ?b" using new(2) True by (simp add: ex_apply_def c)
    moreover from this have "next_order_id b = next_order_id ?b" by (simp add: abs_book_def)
    ultimately show ?thesis using inv new(1) by (simp add: run flow_ok_def sim_inv_def)
  next
    case False
    then have oid: "oid = next_order_id ?b" using add_limit_id [OF plain, of sd px "default_qty ?cfg"] add by simp
    have "next_order_id b = next_order_id ?b + 1" using next_id_apply [OF new(2)] False by (simp add: c)
    moreover have "ex_ids (abs_book b) \<subseteq> insert oid (ex_ids (abs_book ?b))"
      using ex_ids_apply [of c "abs_book ?b"] new(2) by (simp add: c oid) (simp add: abs_book_def)
    ultimately have "sim_inv (s\<lparr>sm_rng := g3, sm_book := b, sm_live := sm_live s @ [oid]\<rparr>)"
      using inv new(1) oid by (fastforce simp: sim_inv_def)
    then show ?thesis using oid next_id_pos [OF plain] new(2) cmd
      by (auto simp: run flow_ok_def intro!: exI [of _ "[c]"])
  qed
qed

lemma do_market_ok:
  assumes inv: "sim_inv s"
  shows "\<exists>res. do_market R s = Some (Inr res) \<and> flow_ok s res"
proof -
  let ?b = "sm_book s"
  obtain u g1 where d1: "rn_u01 R (sm_rng s) = (u, g1)" by (cases "rn_u01 R (sm_rng s)")
  obtain r g2 where d2: "rn_next R g1 = (r, g2)" by (cases "rn_next R g1")
  define sd where "sd = (if u < 1 / 2 then Buy else Sell)"
  define c where "c = new_cmd\<lparr>ic_type := MarketCmd, ic_side := sd, ic_qty := 1 + r mod 4\<rparr>"
  have c: "ic_type c = MarketCmd" "ic_side c = sd" "ic_qty c = 1 + r mod 4"
    by (simp_all add: c_def new_cmd_def)
  have "unat (r mod 4) < 4" by (simp add: unat_mod)
  then have "unat (1 + r mod 4) = 1 + unat (r mod 4)" by (subst unat_add_lem [THEN iffD1]) simp_all
  with \<open>unat (r mod 4) < 4\<close> have cmd: "sim_cmd (sm_cfg s) c"
    by (simp add: sim_cmd_def c word_le_nat_alt)
  have plain: "plain_book ?b" using inv by (simp add: sim_inv_def)
  from apply_market_ok [OF plain, of sd "1 + r mod 4"] obtain fs b where
    b: "market_order sd (1 + r mod 4) ?b = Some (fs, b)" "plain_book b"
      "abs_book b = ex_apply c (abs_book ?b)"
    by (auto simp: ex_apply_def c abs_book_def Let_def)
  have run: "do_market R s = Some (Inr (True, s\<lparr>sm_rng := g2, sm_book := b\<rparr>))"
    using b(1) by (simp add: do_market_def draw_u01_def draw_next_def d1 d2 sd_def Let_def)
  have "ex_ids (abs_book b) \<subseteq> ex_ids (abs_book ?b)"
    using ex_ids_apply [of c "abs_book ?b"] b(3) by (simp add: c)
  moreover have "next_order_id b = next_order_id ?b" using next_id_apply [OF b(3)] by (simp add: c)
  ultimately have "sim_inv (s\<lparr>sm_rng := g2, sm_book := b\<rparr>)" using inv b(2) by (auto simp: sim_inv_def)
  then show ?thesis using run b(3) cmd by (auto simp: flow_ok_def intro!: exI [of _ "[c]"])
qed

lemma distinct_swap_remove:
  assumes "distinct xs" and "i < length xs"
  shows "set (butlast (xs[i := last xs])) = set xs - {xs ! i}"
    and "distinct (butlast (xs[i := last xs]))"
proof -
  obtain ys z where xs: "xs = ys @ [z]" using assms(2) by (cases xs rule: rev_cases) auto
  have "butlast (xs[i := last xs]) = (if i < length ys then ys[i := z] else ys)"
    using assms(2) by (auto simp: xs list_update_append)
  moreover have "set (ys[i := z]) = insert z (set ys - {ys ! i})" if "i < length ys"
    using that assms(1) by (intro set_update_distinct) (simp_all add: xs)
  moreover have "z \<noteq> ys ! i" if "i < length ys" using assms(1) that by (auto simp: xs)
  ultimately show "set (butlast (xs[i := last xs])) = set xs - {xs ! i}"
    "distinct (butlast (xs[i := last xs]))"
    using assms by (auto simp: xs nth_append distinct_list_update dest: nth_mem)
qed

text \<open>
  The loop that cancels: with orders resting it ends before the list does, without it the
  list may run out, and then the next attempt divides by zero.
\<close>

lemma cancel_attempts_ok:
  assumes "sim_inv s"
  shows "case cancel_attempts R n s of
      Inl e \<Rightarrow> ex_ids (abs_book (sm_book s)) = {} \<and> length (sm_live s) < n
    | Inr res \<Rightarrow> flow_ok s res \<and> (ex_ids (abs_book (sm_book s)) = {} \<longrightarrow> n \<le> length (sm_live s))"
  using assms
proof (induction n arbitrary: s)
  case 0
  then show ?case by (simp add: flow_ok_def)
next
  case (Suc n)
  let ?b = "sm_book s" and ?live = "sm_live s"
  obtain r g where d: "rn_next R (sm_rng s) = (r, g)" by (cases "rn_next R (sm_rng s)")
  show ?case
  proof (cases "?live = []")
    case True
    then show ?thesis using Suc.prems by (simp add: draw_next_def d sim_inv_def)
  next
    case False
    define i where "i = unat r mod length ?live"
    define c where "c = new_cmd\<lparr>ic_type := CancelCmd, ic_cancel_id := ?live ! i\<rparr>"
    have c: "ic_type c = CancelCmd" "ic_cancel_id c = ?live ! i" by (simp_all add: c_def new_cmd_def)
    have i: "i < length ?live" using False by (simp add: i_def)
    obtain ok b where cn: "cancel_order (?live ! i) ?b = (ok, b)" by (cases "cancel_order (?live ! i) ?b")
    define s2 where "s2 = s\<lparr>sm_rng := g, sm_book := b, sm_live := butlast (?live[i := last ?live])\<rparr>"
    have run: "cancel_attempts R (Suc n) s = (if ok then Inr (True, s2) else cancel_attempts R n s2)"
      using False cn by (simp add: draw_next_def d i_def s2_def Let_def)
    have plain: "plain_book ?b" using Suc.prems by (simp add: sim_inv_def)
    have new: "plain_book b" "abs_book b = ex_apply c (abs_book ?b)"
      using apply_cancel_ok [OF plain, of "?live ! i"] cn
      by (simp_all add: ex_apply_def c Let_def) (simp add: abs_book_def)
    have next_id: "next_order_id b = next_order_id ?b" using next_id_apply [OF new(2)] by (simp add: c)
    have ids: "ex_ids (abs_book b) \<subseteq> ex_ids (abs_book ?b) - {?live ! i}"
      using ex_ids_apply [of c "abs_book ?b"] new(2) by (simp add: c)
    have live: "set (sm_live s2) = set ?live - {?live ! i}" "distinct (sm_live s2)"
      "length (sm_live s2) = length ?live - 1"
      using distinct_swap_remove [OF _ i] Suc.prems by (simp_all add: s2_def sim_inv_def)
    have inv2: "sim_inv s2"
      using Suc.prems new(1) next_id ids live by (auto simp: sim_inv_def s2_def)
    have found: "ok \<longleftrightarrow> ?live ! i \<in> ex_ids (abs_book ?b)"
      using cancel_found [of "?live ! i" ?b] found_ids [OF plain] cn by simp
    show ?thesis
    proof (cases ok)
      case True
      then show ?thesis using inv2 found new(2) unfolding run
        by (auto simp: flow_ok_def s2_def sim_cmd_def c intro!: exI [of _ "[c]"])
    next
      case False
      have "cancel_order (?live ! i) ?b = (False, ?b)"
        using False cancel_found [of "?live ! i" ?b] cn cancel_unknown [of "?live ! i" ?b] by simp
      then have same: "b = ?b" using cn by simp
      have flow: "flow_ok s res" if "flow_ok s2 res" for res
        using that by (simp add: flow_ok_def s2_def same)
      show ?thesis
        using Suc.IH [OF inv2] False flow live(3) i \<open>?live \<noteq> []\<close> unfolding run
        by (auto simp: s2_def same split: sum.splits)
    qed
  qed
qed

text \<open>
  The two events that call each other: a limit order at the cap is a cancel, a cancel with an
  empty list is a limit order. They return unless the cap is 0, which 64 bits allow.
\<close>

lemma do_flow_cases:
  assumes "live_cap (sm_cfg s) \<noteq> 0"
  shows "do_flow l R s =
     Some (if sm_live s = [] \<or> l \<and> length (sm_live s) < unat (live_cap (sm_cfg s))
           then Inr (place_limit R s) else cancel_attempts R 8 s)"
proof -
  have "0 < unat (live_cap (sm_cfg s))" using assms by (simp add: unat_gt_0)
  then have limit: "do_flow True R s = Some (Inr (place_limit R s))"
    if "sm_live s = [] \<or> length (sm_live s) < unat (live_cap (sm_cfg s))"
    using that by (subst do_flow.simps) auto
  have cancel: "do_flow False R s = Some (cancel_attempts R 8 s)" if "sm_live s \<noteq> []"
    using that by (subst do_flow.simps) simp
  show ?thesis
  proof (cases l)
    case True
    then show ?thesis using limit cancel \<open>0 < unat (live_cap (sm_cfg s))\<close>
      by (cases "sm_live s = [] \<or> length (sm_live s) < unat (live_cap (sm_cfg s))")
        (auto simp: do_flow.simps [of True])
  next
    case False
    then show ?thesis using limit cancel by (subst do_flow.simps) auto
  qed
qed

definition divides_by_zero :: "'g sim \<Rightarrow> bool" where
  "divides_by_zero s \<longleftrightarrow>
     ex_ids (abs_book (sm_book s)) = {} \<and> sm_live s \<noteq> [] \<and> length (sm_live s) < 8"

text \<open>The test of \<open>do_flow_cases\<close>: the event cancels.\<close>

definition cancels :: "bool \<Rightarrow> 'g sim \<Rightarrow> bool" where
  "cancels l s \<longleftrightarrow> sm_live s \<noteq> [] \<and> (l \<longrightarrow> unat (live_cap (sm_cfg s)) \<le> length (sm_live s))"

lemma do_flow_ok:
  assumes inv: "sim_inv s" and room: "book_liq (sm_book s) + unat (default_qty (sm_cfg s)) < 2 ^ 63"
    and range: "u01_range R" and cap: "live_cap (sm_cfg s) \<noteq> 0"
  shows "\<exists>res. do_flow l R s = Some res \<and>
    (case res of Inl e \<Rightarrow> divides_by_zero s \<and> cancels l s
     | Inr r \<Rightarrow> flow_ok s r \<and> \<not> (divides_by_zero s \<and> cancels l s))"
proof (cases "cancels l s")
  case True
  then have "do_flow l R s = Some (cancel_attempts R 8 s)"
    unfolding do_flow_cases [OF cap] by (auto simp: cancels_def)
  then show ?thesis using cancel_attempts_ok [OF inv, where n = 8 and R = R] True
    by (auto simp: divides_by_zero_def cancels_def split: sum.splits)
next
  case False
  then have "do_flow l R s = Some (Inr (place_limit R s))"
    unfolding do_flow_cases [OF cap] by (auto simp: cancels_def)
  then show ?thesis using place_limit_ok [OF inv room range] False by simp
qed

lemma compact_live_inv: "sim_inv s \<Longrightarrow> sim_inv (compact_live s)"
  using found_ids [of "sm_book s"] by (auto simp: sim_inv_def compact_live_def get_order_def)

lemma finish_step_ok:
  assumes "sim_inv s"
  shows "\<exists>s'. finish_step (ok, s) = (ok, s') \<and> sim_inv s' \<and> sm_cfg s' = sm_cfg s \<and>
    sm_book s' = sm_book s \<and> sm_applied s' = sm_applied s + (if ok then 1 else 0)"
proof -
  define s2 where "s2 = s\<lparr>sm_applied := sm_applied s + (if ok then 1 else 0),
    sm_since_compact := sm_since_compact s + 1\<rparr>"
  have run: "finish_step (ok, s) = (ok, if 4096 \<le> sm_since_compact s2 then compact_live s2 else s2)"
    by (cases ok) (simp_all add: finish_step_def s2_def Let_def)
  have "sim_inv s2" using assms by (simp add: s2_def sim_inv_def)
  with compact_live_inv [OF this] show ?thesis
    unfolding run by (auto simp: compact_live_def s2_def)
qed

text \<open>The event of a kind.\<close>

definition sim_event :: "sim_kind \<Rightarrow> 'g random_source \<Rightarrow> 'g sim \<Rightarrow> 'g sim_result option" where
  "sim_event k R s =
     (case k of LimitKind \<Rightarrow> do_limit R s | MarketKind \<Rightarrow> do_market R s | CancelKind \<Rightarrow> do_cancel R s)"

lemma sim_event_ok:
  assumes "sim_inv s" and "book_liq (sm_book s) + unat (default_qty (sm_cfg s)) < 2 ^ 63"
    and "u01_range R" and "live_cap (sm_cfg s) \<noteq> 0"
  shows "\<exists>res. sim_event k R s = Some res \<and>
    (case res of Inl e \<Rightarrow> divides_by_zero s | Inr r \<Rightarrow> flow_ok s r) \<and>
    (k = CancelKind \<and> divides_by_zero s \<longrightarrow> res = Inl Modulo_By_Zero)"
proof (cases k)
  case LimitKind
  then show ?thesis using do_flow_ok [OF assms, of True]
    by (auto simp: sim_event_def do_limit_def split: sum.splits)
next
  case MarketKind
  then show ?thesis using do_market_ok [OF assms(1), of R] by (fastforce simp: sim_event_def)
next
  case CancelKind
  have "cancels False s" if "divides_by_zero s" using that by (simp add: divides_by_zero_def cancels_def)
  then show ?thesis using CancelKind do_flow_ok [OF assms, of False]
    by (auto simp: sim_event_def do_cancel_def cancels_def split: sum.splits) (metis sim_error.exhaust)+
qed

lemma sim_step_ok:
  assumes "sim_inv s" and "book_liq (sm_book s) + unat (default_qty (sm_cfg s)) < 2 ^ 63"
    and "u01_range R" and "live_cap (sm_cfg s) \<noteq> 0"
  shows "\<exists>res. sim_step R s = Some res \<and>
    (case res of
       Inl e \<Rightarrow> divides_by_zero s
     | Inr (ok, s') \<Rightarrow>
         sim_inv s' \<and> sm_cfg s' = sm_cfg s \<and>
         sm_applied s' = sm_applied s + (if ok then 1 else 0) \<and>
         (\<exists>cs. (if ok then length cs = 1 else cs = []) \<and> (\<forall>c \<in> set cs. sim_cmd (sm_cfg s) c) \<and>
            abs_book (sm_book s') = fold ex_apply cs (abs_book (sm_book s)))) \<and>
    (fst (draw_kind R s) = CancelKind \<and> divides_by_zero s \<longrightarrow> res = Inl Modulo_By_Zero)"
proof -
  obtain u g where d: "rn_u01 R (sm_rng s) = (u, g)" by (cases "rn_u01 R (sm_rng s)")
  define k where "k = fst (draw_kind R s)"
  then have k: "draw_kind R s = (k, s\<lparr>sm_rng := g\<rparr>)"
    by (simp add: draw_kind_def draw_u01_def d Let_def)
  let ?s = "s\<lparr>sm_rng := g\<rparr>"
  have "sim_inv ?s" "book_liq (sm_book ?s) + unat (default_qty (sm_cfg ?s)) < 2 ^ 63"
    "live_cap (sm_cfg ?s) \<noteq> 0" using assms by (simp_all add: sim_inv_def)
  note event = sim_event_ok [OF this(1,2) assms(3) this(3), of k]
  have same: "divides_by_zero ?s \<longleftrightarrow> divides_by_zero s" by (simp add: divides_by_zero_def)
  from event obtain res where res: "sim_event k R ?s = Some res"
    "case res of Inl e \<Rightarrow> divides_by_zero s | Inr r \<Rightarrow> flow_ok ?s r"
    "k = CancelKind \<and> divides_by_zero s \<longrightarrow> res = Inl Modulo_By_Zero"
    unfolding same by blast
  have run: "sim_step R s = Some (map_sum id finish_step res)"
    using res(1) by (simp add: sim_step_def sim_event_def k)
  show ?thesis
  proof (cases res)
    case (Inl e)
    then show ?thesis using run res(2,3) k by simp
  next
    case (Inr r)
    obtain ok s1 where r: "r = (ok, s1)" by (cases r)
    from res(2) have flow: "flow_ok ?s (ok, s1)" by (simp add: Inr r)
    then have "sim_inv s1" by (simp add: flow_ok_def)
    from finish_step_ok [OF this, of ok] obtain s' where s': "finish_step (ok, s1) = (ok, s')"
      "sim_inv s'" "sm_cfg s' = sm_cfg s1" "sm_book s' = sm_book s1"
      "sm_applied s' = sm_applied s1 + (if ok then 1 else 0)" by blast
    show ?thesis unfolding run Inr r using s' flow res(3) k by (auto simp: Inr flow_ok_def)
  qed
qed

text \<open>C31. A step of the simulator returns. It sends the exchange at most one command, a limit order
  of the default size within the tick span of the mid price, a market order for 1 to 4 or a
  cancel, it counts the step if there was one, it reports a step that did nothing, and the
  exchange changes as the command specifies; or it divides by zero, and then the book
  is empty and the list of live ids holds between one and seven stale ids; a cancel in that
  state always does.\<close>
theorem sim_step_exchange:
  assumes "sim_inv s" and "book_liq (sm_book s) + unat (default_qty (sm_cfg s)) < 2 ^ 63"
    and "u01_range R" and "live_cap (sm_cfg s) \<noteq> 0"
  shows "\<exists>res. sim_step R s = Some res \<and>
    (case res of
       Inl e \<Rightarrow> divides_by_zero s
     | Inr (ok, s') \<Rightarrow>
         sim_inv s' \<and> sm_cfg s' = sm_cfg s \<and>
         sm_applied s' = sm_applied s + (if ok then 1 else 0) \<and>
         (\<exists>cs. (if ok then length cs = 1 else cs = []) \<and> (\<forall>c \<in> set cs. sim_cmd (sm_cfg s) c) \<and>
            abs_book (sm_book s') = fold ex_apply cs (abs_book (sm_book s)))) \<and>
    (fst (draw_kind R s) = CancelKind \<and> divides_by_zero s \<longrightarrow> res = Inl Modulo_By_Zero)"
  by (rule sim_step_ok [OF assms])

lemma new_sim_inv: "plain_book b \<Longrightarrow> ex_ids (abs_book b) = {} \<Longrightarrow> sim_inv (new_sim g cfg b)"
  by (simp add: sim_inv_def new_sim_def)

lemma result_tag:
  "map_option (map_sum id fst) x = Some (Inl e) \<Longrightarrow> x = Some (Inl e)"
  "map_option (map_sum id fst) x = Some (Inr ok) \<Longrightarrow> \<exists>s. x = Some (Inr (ok, s))"
  by (cases x; cases "the x"; auto)+

text \<open>A source of draws: a limit order, a market order that takes it, a cancel.\<close>

definition demo_source :: "nat random_source" where
  "demo_source =
     \<lparr>rn_u01 = (\<lambda>g. (if g = 4 then 3 / 4 else if g = 5 \<or> g = 7 then 9 / 10 else 0, g + 1)),
      rn_next = (\<lambda>g. (0, g + 1))\<rparr>"

definition default_config :: sim_config where
  "default_config = \<lparr>lambda_limit = 7 / 10, lambda_market = 3 / 20, lambda_cancel = 3 / 20,
     mid = 10000, tick_span = 128, default_qty = 1, target_depth_per_side = 100\<rparr>"

definition demo_sim :: "nat sim" where
  "demo_sim = new_sim 0 default_config (new_book 8 Pool)"

theorem sim_step_exchange_witness:
  "\<exists>s'. sim_step demo_source demo_sim = Some (Inr (True, s')) \<and> sim_inv s' \<and> sm_applied s' = 1 \<and>
     (\<exists>c. sim_cmd default_config c \<and> abs_book (sm_book s') = ex_apply c (abs_book (new_book 8 Pool)))"
proof -
  have plain: "plain_book (new_book 8 Pool)"
    by (simp add: plain_book_def new_book_inv) (simp add: new_book_def new_pool_def)
  have cfg: "sm_cfg demo_sim = default_config" "sm_book demo_sim = new_book 8 Pool" "sm_applied demo_sim = 0"
    by (simp_all add: demo_sim_def new_sim_def)
  have ids: "ex_ids (abs_book (new_book 8 Pool)) = {}" by code_simp
  have hyps: "sim_inv demo_sim" "u01_range demo_source"
    unfolding demo_sim_def using new_sim_inv [OF plain ids] by (simp_all add: u01_range_def demo_source_def)
  have num: "book_liq (new_book 8 Pool) + unat (default_qty default_config) = 1" "live_cap default_config = 264"
    by code_simp+
  have ok: "map_option (map_sum id fst) (sim_step demo_source demo_sim) = Some (Inr True)" by code_simp
  from result_tag(2) [OF this] obtain s' where s': "sim_step demo_source demo_sim = Some (Inr (True, s'))" ..
  have "book_liq (sm_book demo_sim) + unat (default_qty (sm_cfg demo_sim)) < 2 ^ 63"
    "live_cap (sm_cfg demo_sim) \<noteq> 0" using num by (simp_all add: cfg)
  from sim_step_exchange [OF hyps(1) this(1) hyps(2) this(2)] show ?thesis
    unfolding s' by (auto simp: cfg length_Suc_conv)
qed

text \<open>The steps of a run, until one divides by zero.\<close>

primrec sim_steps :: "nat \<Rightarrow> 'g random_source \<Rightarrow> 'g sim \<Rightarrow> 'g sim_result option" where
  "sim_steps 0 R s = Some (Inr (False, s))"
| "sim_steps (Suc n) R s = (case sim_step R s of Some (Inr (ok, s')) \<Rightarrow> sim_steps n R s' | x \<Rightarrow> x)"

text \<open>
  The division by zero happens: the default configuration on a fresh book, a limit order, a
  market order that fills it, and a cancel, whose second attempt has no id left.
\<close>

theorem sim_divides_by_zero: "sim_steps 3 demo_source demo_sim = Some (Inl Modulo_By_Zero)"
  by (rule result_tag(1)) code_simp

subsection \<open>Runs\<close>

lemma abs_liq: "abs_book x = abs_book y \<Longrightarrow> book_liq x = book_liq y"
  by (simp add: abs_book_def book_liq_def)

text \<open>A step adds no more liquidity than one order, and never divides by zero if it is a limit order.\<close>

lemma sim_step_room:
  assumes "sim_inv s" and "book_liq (sm_book s) + unat (default_qty (sm_cfg s)) < 2 ^ 63"
    and "u01_range R" and "live_cap (sm_cfg s) \<noteq> 0"
  shows "\<exists>res. sim_step R s = Some res \<and> (\<forall>ok s'. res = Inr (ok, s') \<longrightarrow> sim_inv s' \<and> sm_cfg s' = sm_cfg s \<and>
    book_liq (sm_book s') \<le> book_liq (sm_book s) + unat (default_qty (sm_cfg s)))"
proof -
  let ?q = "unat (default_qty (sm_cfg s))"
  from sim_step_ok [OF assms] obtain res where
    res: "sim_step R s = Some res" "case res of Inl e \<Rightarrow> divides_by_zero s | Inr (ok, s') \<Rightarrow>
         sim_inv s' \<and> sm_cfg s' = sm_cfg s \<and> sm_applied s' = sm_applied s + (if ok then 1 else 0) \<and>
         (\<exists>cs. (if ok then length cs = 1 else cs = []) \<and> (\<forall>c \<in> set cs. sim_cmd (sm_cfg s) c) \<and>
            abs_book (sm_book s') = fold ex_apply cs (abs_book (sm_book s)))" by blast
  have "sim_inv s1 \<and> sm_cfg s1 = sm_cfg s \<and> book_liq (sm_book s1) \<le> book_liq (sm_book s) + ?q"
    if r: "res = Inr (ok, s1)" for ok s1
  proof -
    from res(2) obtain cs where s1: "sim_inv s1" "sm_cfg s1 = sm_cfg s" "if ok then length cs = 1 else cs = []"
      "\<forall>c \<in> set cs. sim_cmd (sm_cfg s) c" "abs_book (sm_book s1) = fold ex_apply cs (abs_book (sm_book s))"
      unfolding r sum.case prod.case by blast
    have "book_liq (sm_book s1) \<le> book_liq (sm_book s) + ?q"
    proof (cases ok)
      case True
      then obtain c where c: "cs = [c]" using s1(3) by (auto simp: length_Suc_conv)
      have qty: "cmd_qty c \<le> ?q" using s1(4) by (auto simp: c sim_cmd_def cmd_qty_def split: ingress_type.splits)
      have "plain_book (sm_book s)" using assms(1) by (simp add: sim_inv_def)
      moreover have "book_liq (sm_book s) + cmd_qty c < 2 ^ 63" using qty assms(2) by linarith
      ultimately obtain b where "book_liq b \<le> book_liq (sm_book s) + cmd_qty c"
        "abs_book b = ex_apply c (abs_book (sm_book s))" using apply_cmd_ok by blast
      then show ?thesis using abs_liq [of "sm_book s1" b] s1(5) qty by (simp add: c)
    next
      case False
      then show ?thesis using abs_liq [of "sm_book s1" "sm_book s"] s1(3,5) by simp
    qed
    then show ?thesis using s1(1,2) by blast
  qed
  with res(1) show ?thesis by blast
qed

lemma limit_step_returns:
  assumes "sim_inv s" and "book_liq (sm_book s) + unat (default_qty (sm_cfg s)) < 2 ^ 63"
    and "u01_range R" and "8 \<le> unat (live_cap (sm_cfg s))" and kind: "fst (draw_kind R s) = LimitKind"
  shows "\<exists>r. do_limit R (snd (draw_kind R s)) = Some (Inr r) \<and> sim_step R s = Some (Inr (finish_step r))"
proof -
  obtain s1 where s1: "draw_kind R s = (LimitKind, s1)" using kind by (cases "draw_kind R s") simp
  then have same: "sm_book s1 = sm_book s" "sm_live s1 = sm_live s" "sm_cfg s1 = sm_cfg s"
    by (auto simp: draw_kind_def draw_u01_def Let_def split: prod.splits if_splits)
  have inv: "sim_inv s1" using assms(1) sim_inv_frame [OF same(1,2)] by simp
  have cap: "live_cap (sm_cfg s1) \<noteq> 0" using assms(4) by (auto simp: same)
  have room: "book_liq (sm_book s1) + unat (default_qty (sm_cfg s1)) < 2 ^ 63" unfolding same by (rule assms(2))
  from do_flow_ok [OF inv room assms(3) cap, of True] obtain res where res: "do_flow True R s1 = Some res"
    "case res of Inl e \<Rightarrow> divides_by_zero s1 \<and> cancels True s1
     | Inr r \<Rightarrow> flow_ok s1 r \<and> \<not> (divides_by_zero s1 \<and> cancels True s1)" by blast
  have "\<not> (divides_by_zero s1 \<and> cancels True s1)"
    using assms(4) by (auto simp: divides_by_zero_def cancels_def same)
  then obtain r where "res = Inr r" using res(2) by (cases res) auto
  with res(1) show ?thesis by (simp add: sim_step_def s1 do_limit_def)
qed

lemma sim_steps_ok:
  assumes "sim_inv s" and "book_liq (sm_book s) + n * unat (default_qty (sm_cfg s)) < 2 ^ 63"
    and "u01_range R" and "live_cap (sm_cfg s) \<noteq> 0"
  shows "\<exists>res. sim_steps n R s = Some res \<and> (\<forall>ok s'. res = Inr (ok, s') \<longrightarrow>
    plain_book (sm_book s') \<and> book_liq (sm_book s') \<le> book_liq (sm_book s) + n * unat (default_qty (sm_cfg s)))"
  using assms(1,2,4)
proof (induction n arbitrary: s)
  case 0
  then show ?case by (simp add: sim_inv_def)
next
  case (Suc n)
  let ?q = "unat (default_qty (sm_cfg s))"
  have room: "book_liq (sm_book s) + ?q < 2 ^ 63" using Suc.prems(2) by simp
  from sim_step_room [OF Suc.prems(1) room assms(3) Suc.prems(3)] obtain res where
    res: "sim_step R s = Some res" "\<forall>ok s'. res = Inr (ok, s') \<longrightarrow> sim_inv s' \<and> sm_cfg s' = sm_cfg s \<and>
      book_liq (sm_book s') \<le> book_liq (sm_book s) + ?q" by blast
  show ?case
  proof (cases res)
    case (Inl e)
    then show ?thesis using res(1) by simp
  next
    case (Inr r)
    obtain ok s1 where r: "r = (ok, s1)" by (cases r)
    from res(2) have s1: "sim_inv s1" "sm_cfg s1 = sm_cfg s" "book_liq (sm_book s1) \<le> book_liq (sm_book s) + ?q"
      by (simp_all add: Inr r)
    have "book_liq (sm_book s1) + n * unat (default_qty (sm_cfg s1)) < 2 ^ 63"
      "live_cap (sm_cfg s1) \<noteq> 0" using s1(3) Suc.prems(2,3) s1(2) by simp_all
    from Suc.IH [OF s1(1) this] obtain res' where res': "sim_steps n R s1 = Some res'"
      "\<forall>ok s'. res' = Inr (ok, s') \<longrightarrow> plain_book (sm_book s') \<and>
         book_liq (sm_book s') \<le> book_liq (sm_book s1) + n * unat (default_qty (sm_cfg s1))" by blast
    have "sim_steps (Suc n) R s = Some res'" by (simp add: res(1) Inr r res'(1))
    then show ?thesis using res'(2) s1(2,3) by (auto intro: le_trans)
  qed
qed

text \<open>From its ninth draw on \<open>demo_source\<close> draws 0 only: limit orders.\<close>

lemma cancel_attempts_rng:
  "cancel_attempts demo_source n s = Inr (ok, s') \<Longrightarrow> sm_rng s \<le> sm_rng s'"
proof (induction n arbitrary: s)
  case (Suc n)
  from Suc.prems Suc.IH show ?case
    by (fastforce simp: draw_next_def demo_source_def Let_def split: if_splits prod.splits)
qed simp

lemma demo_limit_rng:
  assumes "do_limit demo_source s = Some (Inr (ok, s'))" and "live_cap (sm_cfg s) \<noteq> 0"
  shows "sm_rng s \<le> sm_rng s'"
proof -
  have "sm_rng s \<le> sm_rng (snd (place_limit demo_source s))"
    by (simp add: place_limit_def draw_u01_def demo_source_def Let_def split: prod.split)
  then show ?thesis using assms cancel_attempts_rng [of 8 s ok s']
    by (auto simp: do_limit_def do_flow_cases simp del: cancel_attempts.simps split: if_splits)
qed

lemma demo_steps_return:
  assumes "lambda_limit cfg = 7 / 10" and "8 \<le> unat (live_cap cfg)"
  shows "sim_inv s \<Longrightarrow> sm_cfg s = cfg \<Longrightarrow> 8 \<le> sm_rng s \<Longrightarrow>
    book_liq (sm_book s) + n * unat (default_qty cfg) < 2 ^ 63 \<Longrightarrow> \<exists>r. sim_steps n demo_source s = Some (Inr r)"
proof (induction n arbitrary: s)
  case (Suc n)
  have range: "u01_range demo_source" by (simp add: u01_range_def demo_source_def)
  have cap: "live_cap (sm_cfg s) \<noteq> 0" "8 \<le> unat (live_cap (sm_cfg s))" using assms(2) Suc.prems(2) by auto
  have room: "book_liq (sm_book s) + unat (default_qty (sm_cfg s)) < 2 ^ 63" using Suc.prems(2,4) by simp
  have kind: "draw_kind demo_source s = (LimitKind, s\<lparr>sm_rng := sm_rng s + 1\<rparr>)"
    using assms(1) Suc.prems(2,3) by (simp add: draw_kind_def draw_u01_def demo_source_def Let_def)
  from limit_step_returns [OF Suc.prems(1) room range cap(2)] obtain r where
    r: "do_limit demo_source (s\<lparr>sm_rng := sm_rng s + 1\<rparr>) = Some (Inr r)" "sim_step demo_source s = Some (Inr (finish_step r))"
    unfolding kind by auto
  obtain ok s1 where fin: "finish_step r = (ok, s1)" by (cases "finish_step r")
  from sim_step_room [OF Suc.prems(1) room range cap(1)] have s1: "sim_inv s1" "sm_cfg s1 = sm_cfg s"
    "book_liq (sm_book s1) \<le> book_liq (sm_book s) + unat (default_qty (sm_cfg s))" unfolding r(2) fin by auto
  have "sm_rng s1 = sm_rng (snd r)"
    using fin by (cases r) (auto simp: finish_step_def compact_live_def Let_def split: if_splits)
  moreover have "sm_rng s + 1 \<le> sm_rng (snd r)"
    using demo_limit_rng [of "s\<lparr>sm_rng := sm_rng s + 1\<rparr>" "fst r" "snd r"] r(1) cap(1) by simp
  ultimately have "8 \<le> sm_rng s1" using Suc.prems(3) by simp
  moreover have "book_liq (sm_book s1) + n * unat (default_qty cfg) < 2 ^ 63" using s1(2,3) Suc.prems(2,4) by simp
  ultimately obtain r' where "sim_steps n demo_source s1 = Some (Inr r')"
    using Suc.IH [OF s1(1)] s1(2) Suc.prems(2) by blast
  then show ?case by (simp add: r(2) fin)
qed (intro exI, rule sim_steps.simps(1))

end
