(* ===== verification/Text_Format.thy ===== *)
theory Text_Format
  imports Lob_Prelude
begin

section \<open>Printing and reading text\<close>

text \<open>
  What the snapshot and the demo program use of the standard library's streams: printing of
  decimal integers, \<open>std::getline\<close>, the extraction of words and integers with \<open>>>\<close>, and the
  conversions of \<open>std::sscanf\<close>. An integer that does not fit is clamped; \<open>>>\<close> then also sets the
  fail bit, which is \<open>None\<close> as the rest of the input.
\<close>

definition nl :: char where
  "nl = CHR 0x0A"

definition is_space :: "char \<Rightarrow> bool" where
  "is_space c \<longleftrightarrow> (of_char c :: nat) \<in> {9, 10, 11, 12, 13, 32}"

definition is_digit :: "char \<Rightarrow> bool" where
  "is_digit c \<longleftrightarrow> 48 \<le> (of_char c :: nat) \<and> (of_char c :: nat) \<le> 57"

definition digit_char :: "nat \<Rightarrow> char" where
  "digit_char n = char_of (48 + n)"

definition digit_val :: "char \<Rightarrow> nat" where
  "digit_val c = of_char c - 48"

definition upper_char :: "char \<Rightarrow> char" where
  "upper_char c =
     (if 97 \<le> (of_char c :: nat) \<and> (of_char c :: nat) \<le> 122 then char_of (of_char c - 32 :: nat) else c)"

fun show_nat :: "nat \<Rightarrow> string" where
  "show_nat n = (if n < 10 then [digit_char n] else show_nat (n div 10) @ [digit_char (n mod 10)])"

declare show_nat.simps [simp del]

definition show_int :: "int \<Rightarrow> string" where
  "show_int i = (if i < 0 then ''-'' @ show_nat (nat (- i)) else show_nat (nat i))"

definition read_digits :: "string \<Rightarrow> nat" where
  "read_digits ds = foldl (\<lambda>n c. n * 10 + digit_val c) 0 ds"

text \<open>White space, a sign, digits: the value and the rest, or \<open>None\<close> if there is no digit.\<close>

definition scan_sign :: "string \<Rightarrow> bool \<times> string" where
  "scan_sign s =
     (case s of
        [] \<Rightarrow> (False, [])
      | c # r \<Rightarrow> if c = CHR ''-'' then (True, r) else if c = CHR ''+'' then (False, r) else (False, s))"

definition scan_int :: "string \<Rightarrow> (int \<times> string) option" where
  "scan_int s =
     (let (neg, s1) = scan_sign (dropWhile is_space s); ds = takeWhile is_digit s1
      in if ds = [] then None
         else Some (if neg then - int (read_digits ds) else int (read_digits ds), dropWhile is_digit s1))"

definition clamp_ll :: "int \<Rightarrow> int" where
  "clamp_ll i = max (- (2 ^ 63)) (min (2 ^ 63 - 1) i)"

text \<open>The directives of a format between conversions: white space skips any white space.\<close>

fun match_fmt :: "string \<Rightarrow> string \<Rightarrow> string option" where
  "match_fmt [] s = Some s"
| "match_fmt (f # fs) s =
     (if is_space f then match_fmt fs (dropWhile is_space s)
      else (case s of [] \<Rightarrow> None | c # cs \<Rightarrow> if c = f then match_fmt fs cs else None))"

text \<open>Extraction from a stream: \<open>None\<close> is a stream that has failed, and nothing more is read.\<close>

definition read_word :: "string option \<Rightarrow> string \<times> string option" where
  "read_word st =
     (case st of
        None \<Rightarrow> ([], None)
      | Some s \<Rightarrow>
          (let s1 = dropWhile is_space s; w = takeWhile (\<lambda>c. \<not> is_space c) s1
           in if w = [] then ([], None) else (w, Some (dropWhile (\<lambda>c. \<not> is_space c) s1))))"

definition read_ll :: "string option \<Rightarrow> int \<times> string option" where
  "read_ll st =
     (case st of
        None \<Rightarrow> (0, None)
      | Some s \<Rightarrow>
          (case scan_int s of
             None \<Rightarrow> (0, None)
           | Some (i, r) \<Rightarrow> (clamp_ll i, if clamp_ll i = i then Some r else None)))"

text \<open>An unsigned integer: a minus sign negates it modulo \<open>2 ^ 64\<close>.\<close>

definition read_ull :: "string option \<Rightarrow> nat \<times> string option" where
  "read_ull st =
     (case st of
        None \<Rightarrow> (0, None)
      | Some s \<Rightarrow>
          (case scan_int s of
             None \<Rightarrow> (0, None)
           | Some (i, r) \<Rightarrow>
               (if 2 ^ 64 \<le> \<bar>i\<bar> then (2 ^ 64 - 1, None) else (nat (i mod 2 ^ 64), Some r))))"

text \<open>The lines \<open>std::getline\<close> delivers.\<close>

function get_lines :: "string \<Rightarrow> string list" where
  "get_lines s =
     (if s = [] then []
      else takeWhile (\<lambda>c. c \<noteq> nl) s # get_lines (drop 1 (dropWhile (\<lambda>c. c \<noteq> nl) s)))"
  by pat_completeness auto

lemma length_dropWhile_less: "s \<noteq> [] \<Longrightarrow> length (dropWhile P s) - Suc 0 < length s"
  using length_dropWhile_le [of P s] by (cases s) (simp_all only: list.size, presburger+)

termination get_lines
  by (relation "measure length") (simp_all add: length_dropWhile_less)

declare get_lines.simps [simp del]

subsection \<open>Decimal round trips\<close>

lemma char_nat: "n < 256 \<Longrightarrow> (of_char (char_of n :: char) :: nat) = n"
  by simp

lemma digit_char_ok:
  assumes "n < 10"
  shows "is_digit (digit_char n)" and "digit_val (digit_char n) = n" and "\<not> is_space (digit_char n)"
    and "digit_char n \<noteq> CHR ''-''" and "digit_char n \<noteq> CHR ''+''" and "digit_char n \<noteq> nl"
proof -
  have v: "(of_char (digit_char n) :: nat) = 48 + n"
    unfolding digit_char_def by (rule char_nat) (use assms in simp)
  then show "is_digit (digit_char n)" "digit_val (digit_char n) = n" "\<not> is_space (digit_char n)"
    using assms by (auto simp: is_digit_def digit_val_def is_space_def)
  have "(of_char CHR ''-'' :: nat) = 45" "(of_char CHR ''+'' :: nat) = 43" "(of_char nl :: nat) = 10"
    by (simp_all add: nl_def of_char_def)
  then show "digit_char n \<noteq> CHR ''-''" "digit_char n \<noteq> CHR ''+''" "digit_char n \<noteq> nl"
    using v by fastforce+
qed

lemma show_nat_digits: "show_nat n \<noteq> [] \<and> (\<forall>c \<in> set (show_nat n). is_digit c)"
proof (induction n rule: show_nat.induct)
  case (1 n)
  show ?case
  proof (cases "n < 10")
    case False
    then show ?thesis using 1 digit_char_ok(1) [of "n mod 10"] by (subst (1 2) show_nat.simps) auto
  qed (simp add: show_nat.simps digit_char_ok)
qed

lemma read_show_nat: "read_digits (show_nat n) = n"
proof (induction n rule: show_nat.induct)
  case (1 n)
  show ?case
  proof (cases "n < 10")
    case True
    then show ?thesis by (simp add: show_nat.simps read_digits_def digit_char_ok)
  next
    case False
    have "read_digits (show_nat n) = read_digits (show_nat (n div 10)) * 10 + digit_val (digit_char (n mod 10))"
      using False by (subst show_nat.simps) (simp add: read_digits_def)
    then show ?thesis using 1 [OF False] digit_char_ok(2) [of "n mod 10"] by simp
  qed
qed

text \<open>A position where the digits of a number end.\<close>

definition no_digit :: "string \<Rightarrow> bool" where
  "no_digit s \<longleftrightarrow> (case s of [] \<Rightarrow> True | c # _ \<Rightarrow> \<not> is_digit c)"

lemma digit_not_space: "is_digit c \<Longrightarrow> \<not> is_space c"
  by (auto simp: is_digit_def is_space_def)

lemma digit_not_sign: "is_digit c \<Longrightarrow> c \<noteq> CHR ''-'' \<and> c \<noteq> CHR ''+'' \<and> c \<noteq> nl"
  by (auto simp: is_digit_def nl_def of_char_def)

lemma take_drop_digits:
  assumes "\<forall>c \<in> set ds. is_digit c" and "no_digit r"
  shows "takeWhile is_digit (ds @ r) = ds" and "dropWhile is_digit (ds @ r) = r"
  using assms by (induction ds) (auto simp: no_digit_def split: list.splits)

lemma scan_show_nat:
  assumes "no_digit r"
  shows "scan_int (show_nat n @ r) = Some (int n, r)"
proof -
  obtain c cs where s: "show_nat n = c # cs" using show_nat_digits [of n] by (cases "show_nat n") auto
  have c: "is_digit c" using show_nat_digits [of n] s by simp
  have sign: "scan_sign (dropWhile is_space (show_nat n @ r)) = (False, show_nat n @ r)"
    using digit_not_space [OF c] digit_not_sign [OF c] by (simp add: s scan_sign_def)
  show ?thesis
    unfolding scan_int_def sign
    using take_drop_digits [of "show_nat n" r] show_nat_digits [of n] assms read_show_nat [of n]
    by (simp add: Let_def)
qed

lemma scan_show_int:
  assumes "no_digit r"
  shows "scan_int (show_int i @ r) = Some (i, r)"
proof (cases "i < 0")
  case True
  have "\<not> is_space CHR ''-''" by (simp add: is_space_def of_char_def)
  then have sign: "scan_sign (dropWhile is_space (show_int i @ r)) = (True, show_nat (nat (- i)) @ r)"
    using True by (simp add: show_int_def scan_sign_def)
  show ?thesis
    unfolding scan_int_def sign
    using take_drop_digits [of "show_nat (nat (- i))" r] show_nat_digits [of "nat (- i)"] assms
      read_show_nat [of "nat (- i)"] True
    by (simp add: Let_def)
next
  case False
  then show ?thesis using scan_show_nat [OF assms, of "nat i"] by (simp add: show_int_def)
qed

lemma scan_space: "is_space c \<Longrightarrow> scan_int (c # s) = scan_int s"
  by (simp add: scan_int_def)

lemma show_no_nl: "nl \<notin> set (show_nat n)" "nl \<notin> set (show_int i)"
proof -
  show n: "nl \<notin> set (show_nat n)" for n using show_nat_digits [of n] digit_not_sign by blast
  have "nl \<noteq> CHR ''-''" by (simp add: nl_def)
  then show "nl \<notin> set (show_int i)" using n by (simp add: show_int_def)
qed

lemma get_lines_Nil: "get_lines [] = []"
  by (simp add: get_lines.simps)

lemma get_lines_line: "nl \<notin> set l \<Longrightarrow> get_lines (l @ nl # s) = l # get_lines s"
proof -
  assume "nl \<notin> set l"
  then have "takeWhile (\<lambda>c. c \<noteq> nl) (l @ nl # s) = l" "dropWhile (\<lambda>c. c \<noteq> nl) (l @ nl # s) = nl # s"
    by (induction l) auto
  then show ?thesis by (subst get_lines.simps) simp
qed

end
