(* ===== verification/Demo_Text.thy ===== *)
theory Demo_Text
  imports Text_Format Ingress
begin

section \<open>The text of a book, and the demo program\<close>

text \<open>
  \<open>OrderBook::snapshot\<close> of src/order_book.cpp and demo/lob_demo.cpp, which reads commands from
  its input and answers each with a line of JSON, or with the snapshot. The JSON lists the
  levels that \<open>emit_levels\<close> parses from the text of the snapshot.
\<close>

subsection \<open>The snapshot\<close>

definition snapshot_line :: "node \<Rightarrow> string" where
  "snapshot_line nd =
     show_int (sint (nd_price nd)) @ '' qty='' @ show_nat (unat (lv_agg (nd_level nd))) @
     '' orders='' @ show_nat (lv_cnt (nd_level nd)) @ [nl]"

definition snapshot :: "nat \<Rightarrow> order_book \<Rightarrow> string" where
  "snapshot max_levels b =
     ''ASKS:'' @ [nl] @ concat (map snapshot_line (take max_levels (asks b))) @
     ''BIDS:'' @ [nl] @ concat (map snapshot_line (take max_levels (bids b)))"

subsection \<open>JSON\<close>

definition quoted :: "string \<Rightarrow> string" where
  "quoted s = [CHR 0x22] @ s @ [CHR 0x22]"

definition json_escape :: "string \<Rightarrow> string" where
  "json_escape s = concat (map (\<lambda>c.
     if c = nl then [CHR 0x5C, CHR ''n'']
     else if c = CHR 0x22 then [CHR 0x5C, CHR 0x22]
     else if c = CHR 0x5C then [CHR 0x5C, CHR 0x5C]
     else [c]) s)"

fun join_comma :: "string list \<Rightarrow> string" where
  "join_comma [] = []"
| "join_comma [x] = x"
| "join_comma (x # y # xs) = x @ '','' @ join_comma (y # xs)"

definition json_level :: "int \<times> int \<times> int \<Rightarrow> string" where
  "json_level = (\<lambda>(px, q, n).
     ''{'' @ quoted ''price'' @ '':'' @ show_int px @ '','' @ quoted ''qty'' @ '':'' @ show_int q @ '','' @
     quoted ''n'' @ '':'' @ show_int n @ ''}'')"

text \<open>\<open>sscanf(line, "%lld qty=%lld orders=%lld", ...)\<close>, with its three conversions done or not.\<close>

definition scan_level :: "string \<Rightarrow> (int \<times> int \<times> int) option" where
  "scan_level s =
     Option.bind (scan_int s) (\<lambda>(px, s1).
     Option.bind (match_fmt '' qty='' s1) (\<lambda>s2.
     Option.bind (scan_int s2) (\<lambda>(q, s3).
     Option.bind (match_fmt '' orders='' s3) (\<lambda>s4.
     map_option (\<lambda>(n, _). (clamp_ll px, clamp_ll q, clamp_ll n)) (scan_int s4)))))"

record parts =
  in_asks :: bool
  in_bids :: bool
  ask_parts :: "string list"
  bid_parts :: "string list"

definition parse_line :: "string \<Rightarrow> parts \<Rightarrow> parts" where
  "parse_line l st =
     (if l = ''ASKS:'' then st\<lparr>in_asks := True, in_bids := False\<rparr>
      else if l = ''BIDS:'' then st\<lparr>in_asks := False, in_bids := True\<rparr>
      else if l = [] then st
      else
        (case scan_level l of
           None \<Rightarrow> st
         | Some v \<Rightarrow>
             (let one = json_level v;
                  st1 = (if in_asks st then st\<lparr>ask_parts := ask_parts st @ [one]\<rparr> else st)
              in if in_bids st then st1\<lparr>bid_parts := bid_parts st1 @ [one]\<rparr> else st1)))"

definition render_levels :: "string list \<Rightarrow> string list \<Rightarrow> string" where
  "render_levels as bs =
     quoted ''asks'' @ '':['' @ join_comma as @ ''],'' @ quoted ''bids'' @ '':['' @ join_comma bs @ '']''"

definition emit_levels :: "string \<Rightarrow> string" where
  "emit_levels snap =
     (let st = fold parse_line (get_lines snap)
            \<lparr>in_asks = False, in_bids = False, ask_parts = [], bid_parts = []\<rparr>
      in render_levels (ask_parts st) (bid_parts st))"

subsection \<open>The levels survive the trip through the text\<close>

definition node_info :: "node \<Rightarrow> int \<times> int \<times> int" where
  "node_info nd = (sint (nd_price nd), int (unat (lv_agg (nd_level nd))), int (lv_cnt (nd_level nd)))"

definition small_node :: "node \<Rightarrow> bool" where
  "small_node nd \<longleftrightarrow> unat (lv_agg (nd_level nd)) < 2 ^ 63 \<and> lv_cnt (nd_level nd) < 2 ^ 63"

lemma match_space: "match_fmt (CHR '' '' # fs) s = match_fmt fs (dropWhile is_space s)"
  by (simp add: is_space_def of_char_def)

lemma match_char: "\<not> is_space f \<Longrightarrow> match_fmt (f # fs) (f # cs) = match_fmt fs cs"
  by simp

lemma spaces: "is_space CHR '' ''" "\<not> is_space CHR ''q''" "\<not> is_space CHR ''t''" "\<not> is_space CHR ''y''"
  "\<not> is_space CHR ''=''" "\<not> is_space CHR ''o''" "\<not> is_space CHR ''r''" "\<not> is_space CHR ''d''"
  "\<not> is_space CHR ''e''" "\<not> is_space CHR ''s''"
  by (simp_all add: is_space_def of_char_def)

lemma match_qty: "match_fmt '' qty='' ('' qty='' @ s) = Some s"
  and match_orders: "match_fmt '' orders='' ('' orders='' @ s) = Some s"
  by (simp_all add: spaces)

lemma no_digit_space: "no_digit (CHR '' '' # s)" "no_digit []"
  by (simp_all add: no_digit_def is_digit_def of_char_def)

lemma clamp_ids: "- (2 ^ 63) \<le> i \<Longrightarrow> i < 2 ^ 63 \<Longrightarrow> clamp_ll i = i"
  by (simp add: clamp_ll_def)

lemma clamp_nat: "n < 2 ^ 63 \<Longrightarrow> clamp_ll (int n) = int n"
  by (simp add: clamp_ll_def)

lemma scan_snapshot_line:
  assumes "small_node nd"
  shows "scan_level (butlast (snapshot_line nd)) = Some (node_info nd)"
proof -
  let ?p = "sint (nd_price nd)" and ?q = "unat (lv_agg (nd_level nd))" and ?n = "lv_cnt (nd_level nd)"
  have line: "butlast (snapshot_line nd) = show_int ?p @ '' qty='' @ show_nat ?q @ '' orders='' @ show_nat ?n"
    unfolding snapshot_line_def append_assoc [symmetric] butlast_snoc ..
  have p: "scan_int (show_int ?p @ '' qty='' @ s) = Some (?p, '' qty='' @ s)" for s
    by (rule scan_show_int) (simp add: no_digit_space)
  have q: "scan_int (show_nat ?q @ '' orders='' @ s) = Some (int ?q, '' orders='' @ s)" for s
    by (rule scan_show_nat) (simp add: no_digit_space)
  have n: "scan_int (show_nat ?n) = Some (int ?n, [])"
    using scan_show_nat [of "[]" ?n] by (simp add: no_digit_space)
  have "- (2 ^ 63) \<le> ?p" "?p < 2 ^ 63"
    using sint_range_size [of "nd_price nd"] by (simp_all add: word_size)
  then have "clamp_ll ?p = ?p" by (rule clamp_ids)
  moreover have "clamp_ll (int ?q) = int ?q" "clamp_ll (int ?n) = int ?n"
    using assms by (simp_all only: small_node_def clamp_nat)
  ultimately show ?thesis
    unfolding scan_level_def line p q n match_qty match_orders node_info_def
    by (simp only: bind.simps case_prod_conv option.map match_qty match_orders q n)
qed

lemma line_no_nl: "nl \<notin> set (butlast (snapshot_line nd))"
proof -
  have "butlast (snapshot_line nd) = show_int (sint (nd_price nd)) @ '' qty='' @
      show_nat (unat (lv_agg (nd_level nd))) @ '' orders='' @ show_nat (lv_cnt (nd_level nd))"
    unfolding snapshot_line_def append_assoc [symmetric] butlast_snoc ..
  moreover have "nl \<notin> set '' qty=''" "nl \<notin> set '' orders=''" by (simp_all add: nl_def)
  ultimately show ?thesis by (simp add: show_no_nl)
qed

lemma line_end: "snapshot_line nd = butlast (snapshot_line nd) @ [nl]"
  unfolding snapshot_line_def append_assoc [symmetric] butlast_snoc ..

lemma lines_of_levels:
  "get_lines (concat (map snapshot_line nds) @ s) = map (\<lambda>nd. butlast (snapshot_line nd)) nds @ get_lines s"
proof (induction nds)
  case (Cons nd nds)
  let ?rest = "concat (map snapshot_line nds) @ s"
  have "get_lines (snapshot_line nd @ ?rest) = get_lines ((butlast (snapshot_line nd) @ [nl]) @ ?rest)"
    using arg_cong [OF line_end [of nd], of "\<lambda>l. get_lines (l @ ?rest)"] .
  then show ?case using get_lines_line [OF line_no_nl, of nd ?rest] Cons by simp
qed simp

lemma header_lines: "nl \<notin> set ''ASKS:''" "nl \<notin> set ''BIDS:''"
  by (simp_all add: nl_def)

lemma snapshot_lines:
  "get_lines (snapshot d b) =
     ''ASKS:'' # map (\<lambda>nd. butlast (snapshot_line nd)) (take d (asks b)) @
     ''BIDS:'' # map (\<lambda>nd. butlast (snapshot_line nd)) (take d (bids b))"
proof -
  have "get_lines (concat (map snapshot_line nds)) = map (\<lambda>nd. butlast (snapshot_line nd)) nds" for nds
    using lines_of_levels [of nds "[]"] by (simp add: get_lines_Nil)
  then show ?thesis
    unfolding snapshot_def append_Cons append_Nil [symmetric] using get_lines_line [OF header_lines(1)] get_lines_line [OF header_lines(2)]
      lines_of_levels by simp
qed

lemma not_headers: "scan_level ''ASKS:'' = None" "scan_level ''BIDS:'' = None" "scan_level [] = None"
  by code_simp+

lemma parse_level:
  assumes "small_node nd"
  shows "parse_line (butlast (snapshot_line nd)) st =
    (let one = json_level (node_info nd);
         st1 = (if in_asks st then st\<lparr>ask_parts := ask_parts st @ [one]\<rparr> else st)
     in if in_bids st then st1\<lparr>bid_parts := bid_parts st1 @ [one]\<rparr> else st1)"
proof -
  let ?l = "butlast (snapshot_line nd)"
  have "?l \<noteq> ''ASKS:''" "?l \<noteq> ''BIDS:''" "?l \<noteq> []"
    using scan_snapshot_line [OF assms] not_headers by (metis option.distinct(1))+
  then show ?thesis unfolding parse_line_def using scan_snapshot_line [OF assms] by simp
qed

lemma parse_asks:
  assumes "\<forall>nd \<in> set nds. small_node nd" and "in_asks st" and "\<not> in_bids st"
  shows "fold parse_line (map (\<lambda>nd. butlast (snapshot_line nd)) nds) st =
    st\<lparr>ask_parts := ask_parts st @ map (\<lambda>nd. json_level (node_info nd)) nds\<rparr>"
  using assms by (induction nds arbitrary: st) (simp_all add: parse_level)

lemma parse_bids:
  assumes "\<forall>nd \<in> set nds. small_node nd" and "\<not> in_asks st" and "in_bids st"
  shows "fold parse_line (map (\<lambda>nd. butlast (snapshot_line nd)) nds) st =
    st\<lparr>bid_parts := bid_parts st @ map (\<lambda>nd. json_level (node_info nd)) nds\<rparr>"
  using assms by (induction nds arbitrary: st) (simp_all add: parse_level)

lemma emit_snapshot:
  assumes "\<forall>nd \<in> set (asks b). small_node nd" and "\<forall>nd \<in> set (bids b). small_node nd"
  shows "emit_levels (snapshot d b) =
    render_levels (map (\<lambda>nd. json_level (node_info nd)) (take d (asks b)))
      (map (\<lambda>nd. json_level (node_info nd)) (take d (bids b)))"
proof -
  have small: "\<forall>nd \<in> set (take d (asks b)). small_node nd" "\<forall>nd \<in> set (take d (bids b)). small_node nd"
    using assms by (auto dest: in_set_takeD)
  show ?thesis
    unfolding emit_levels_def snapshot_lines
    by (simp add: parse_asks [OF small(1)] parse_bids [OF small(2)] parse_line_def Let_def)
qed

text \<open>What the levels of the abstract book show.\<close>

definition level_info :: "price_t \<times> aorder list \<Rightarrow> int \<times> int \<times> int" where
  "level_info = (\<lambda>(p, xs). (sint p, int (sum_list (map ao_vis xs)), int (length xs)))"

lemma node_level_info:
  assumes "book_inv E b"
  shows "map node_info (ladder b0 b) = map level_info (book_view b b0)"
proof -
  from assms obtain L where rel: "book_rel L E b" by (auto simp: book_inv_iff)
  have one: "node_info nd = level_info (nd_price nd, abs_level (mem b) as)" if "node_rel b0 (mem b) nd as" for nd as
    using level_agg_view [OF that] that
    by (simp add: node_info_def level_info_def node_rel_def level_links_def abs_level_def)
  show ?thesis
    using book_rel_nodes [OF rel, of b0] one
    unfolding book_view_rel [OF rel] view_of_def by (auto simp: list_eq_iff_nth_eq list_all2_conv_all_nth)
qed

subsection \<open>The demo program\<close>

record demo_reply =
  dr_ok :: bool
  dr_id :: order_id_t
  dr_fills :: "fill list"
  dr_err :: string

datatype demo_outcome = Demo_Quit | Demo_Hang | Demo_Answer demo_reply engine

definition no_reply :: demo_reply where
  "no_reply = \<lparr>dr_ok = True, dr_id = 0, dr_fills = [], dr_err = []\<rparr>"

definition side_of_word :: "string \<Rightarrow> side" where
  "side_of_word w = (if w = ''SELL'' \<or> w = ''S'' then Sell else Buy)"

text \<open>One command. The engine has the default policy; the fuel is that of its trigger loop.\<close>

definition demo_exec :: "nat \<Rightarrow> string \<Rightarrow> engine \<Rightarrow> demo_outcome" where
  "demo_exec n line e =
     (let (w, s1) = read_word (Some line); cmd = map upper_char w
      in if cmd = ''LIMIT'' then
           (let (side_s, s2) = read_word s1; (px, s3) = read_ll s2; (q, s4) = read_ll s3;
                (oid, e1) = submit_limit (side_of_word (map upper_char side_s)) (word_of_int px)
                  (word_of_int q) 0 e
            in Demo_Answer (no_reply\<lparr>dr_id := oid, dr_ok := oid \<noteq> 0\<rparr>) e1)
         else if cmd = ''MARKET'' then
           (let (side_s, s2) = read_word s1; (q, s3) = read_ll s2
            in case submit_market n (policy_match FIFOStack) (side_of_word (map upper_char side_s))
                 (word_of_int q) e of
                 None \<Rightarrow> Demo_Hang
               | Some (fills, e1) \<Rightarrow> Demo_Answer (no_reply\<lparr>dr_fills := fills\<rparr>) e1)
         else if cmd = ''CANCEL'' then
           (let (cid, s2) = read_ull s1; (ok, b) = cancel_order cid (book e)
            in Demo_Answer (no_reply\<lparr>dr_ok := ok, dr_id := cid\<rparr>) (e\<lparr>book := b\<rparr>))
         else if cmd = ''SNAP'' then Demo_Answer no_reply e
         else if cmd = ''QUIT'' \<or> cmd = ''EXIT'' then Demo_Quit
         else Demo_Answer (no_reply\<lparr>dr_ok := False, dr_err := ''unknown command''\<rparr>) e)"

definition json_fill :: "fill \<Rightarrow> string" where
  "json_fill f =
     ''{'' @ quoted ''id'' @ '':'' @ show_nat (resting_order_id f) @ '','' @ quoted ''price'' @ '':'' @
     show_int (sint (fill_price f)) @ '','' @ quoted ''qty'' @ '':'' @ show_nat (unat (fill_qty f)) @ ''}''"

definition json_reply :: "nat \<Rightarrow> demo_reply \<Rightarrow> string \<Rightarrow> string \<Rightarrow> string" where
  "json_reply lat r levels snap =
     ''{'' @ quoted ''ok'' @ '':'' @ (if dr_ok r then ''true'' else ''false'') @ '','' @
     quoted ''id'' @ '':'' @ show_nat (dr_id r) @ '','' @ quoted ''latency_ns'' @ '':'' @ show_nat lat @ '','' @
     quoted ''fills'' @ '':['' @ join_comma (map json_fill (dr_fills r)) @ ''],'' @ levels @ '','' @
     quoted ''snapshot'' @ '':'' @ quoted (json_escape snap) @
     (if dr_err r \<noteq> [] then '','' @ quoted ''error'' @ '':'' @ quoted (json_escape (dr_err r)) else []) @
     ''}''"

definition demo_json :: "nat \<Rightarrow> demo_reply \<Rightarrow> order_book \<Rightarrow> string" where
  "demo_json lat r b =
     (let snap = snapshot 12 b in json_reply lat r (emit_levels snap) snap @ [nl])"

definition text_fill :: "fill \<Rightarrow> string" where
  "text_fill f =
     ''  id='' @ show_nat (resting_order_id f) @ '' px='' @ show_int (sint (fill_price f)) @
     '' qty='' @ show_nat (unat (fill_qty f)) @ [nl]"

definition demo_text :: "nat \<Rightarrow> demo_reply \<Rightarrow> order_book \<Rightarrow> string" where
  "demo_text lat r b =
     snapshot 12 b @
     (if dr_fills r \<noteq> [] then ''FILLS:'' @ [nl] @ concat (map text_fill (dr_fills r)) else []) @
     ''latency_ns='' @ show_nat lat @ '' last_id='' @ show_nat (dr_id r) @ '' ok='' @
     (if dr_ok r then ''1'' else ''0'') @ [nl]"

text \<open>The loop over the lines of the input, each with the latency measured for it.\<close>

fun demo_loop ::
    "bool \<Rightarrow> nat \<Rightarrow> (string \<times> nat) list \<Rightarrow> engine \<Rightarrow> string \<Rightarrow> (string \<times> engine) option" where
  "demo_loop json n [] e out = Some (out, e)"
| "demo_loop json n ((line, lat) # rest) e out =
     (if line = [] then demo_loop json n rest e out
      else
        (case demo_exec n line e of
           Demo_Quit \<Rightarrow> Some (out, e)
         | Demo_Hang \<Rightarrow> None
         | Demo_Answer r e1 \<Rightarrow>
             demo_loop json n rest e1
               (out @ (if json then demo_json lat r (book e1) else demo_text lat r (book e1)))))"

text \<open>\<open>main\<close>: the arguments, the input, and the latency of the n-th line.\<close>

definition demo_banner :: string where
  "demo_banner =
     ''lob_demo '' @ map char_of [226, 128, 148 :: nat] @ '' real C++ OrderBook (not the HTML mock)'' @ [nl] @
     ''commands: LIMIT BUY|SELL <px> <qty>'' @ [nl] @
     ''          MARKET BUY|SELL <qty>'' @ [nl] @
     ''          CANCEL <id>'' @ [nl] @
     ''          SNAP'' @ [nl]"

definition demo_main :: "string list \<Rightarrow> nat \<Rightarrow> (nat \<Rightarrow> nat) \<Rightarrow> string \<Rightarrow> (string \<times> engine) option" where
  "demo_main args n lat input =
     (let json = list_ex (\<lambda>a. a = ''--json'') args
      in demo_loop json n (map (\<lambda>(i, l). (l, lat i)) (enumerate 0 (get_lines input)))
           (new_engine (new_book 8192 Pool)) (if json then [] else demo_banner))"

subsection \<open>From the text of a command to the text of the answer\<close>

definition side_word :: "side \<Rightarrow> string" where
  "side_word s = (case s of Buy \<Rightarrow> ''BUY'' | Sell \<Rightarrow> ''SELL'')"

definition show_cmd :: "ingress_cmd \<Rightarrow> string" where
  "show_cmd c =
     (case ic_type c of
        LimitCmd \<Rightarrow> ''LIMIT '' @ side_word (ic_side c) @ '' '' @ show_int (sint (ic_price c)) @ '' '' @
          show_nat (unat (ic_qty c))
      | MarketCmd \<Rightarrow> ''MARKET '' @ side_word (ic_side c) @ '' '' @ show_nat (unat (ic_qty c))
      | CancelCmd \<Rightarrow> ''CANCEL '' @ show_nat (ic_cancel_id c))"

text \<open>What the exchange answers: success, the id, the fills.\<close>

definition ex_answer :: "ingress_cmd \<Rightarrow> exchange \<Rightarrow> bool \<times> nat \<times> afill list" where
  "ex_answer c x =
     (case ic_type c of
        LimitCmd \<Rightarrow> if ex_count x = ex_cap x then (False, 0, []) else (True, ex_next x, [])
      | MarketCmd \<Rightarrow> (True, 0, fst (sp_match (unat (ic_qty c)) (ex_view x (opposite (ic_side c)))))
      | CancelCmd \<Rightarrow> (ic_cancel_id c \<in> ex_ids x, ic_cancel_id c, []))"

definition ex_levels :: "nat \<Rightarrow> exchange \<Rightarrow> string" where
  "ex_levels d x =
     render_levels (map (\<lambda>l. json_level (level_info l)) (take d (ex_view x Sell)))
       (map (\<lambda>l. json_level (level_info l)) (take d (ex_view x Buy)))"

lemma read_word_at:
  assumes "w \<noteq> []" and "\<forall>c \<in> set w. \<not> is_space c"
  shows "read_word (Some (w @ CHR '' '' # s)) = (w, Some (CHR '' '' # s))"
    and "read_word (Some (CHR '' '' # w @ CHR '' '' # s)) = (w, Some (CHR '' '' # s))"
proof -
  have "takeWhile (\<lambda>c. \<not> is_space c) (w @ CHR '' '' # s) = w"
    "dropWhile (\<lambda>c. \<not> is_space c) (w @ CHR '' '' # s) = CHR '' '' # s"
    using assms(2) by (induction w) (auto simp: spaces)
  moreover have "dropWhile is_space (w @ t) = w @ t" for t using assms by (cases w) simp_all
  ultimately show "read_word (Some (w @ CHR '' '' # s)) = (w, Some (CHR '' '' # s))"
    "read_word (Some (CHR '' '' # w @ CHR '' '' # s)) = (w, Some (CHR '' '' # s))"
    using assms(1) by (simp_all add: read_word_def spaces)
qed

lemma side_word_ok:
  "side_word s \<noteq> []" "\<forall>c \<in> set (side_word s). \<not> is_space c" "side_of_word (map upper_char (side_word s)) = s"
proof -
  have "side_word Buy \<noteq> [] \<and> (\<forall>c \<in> set (side_word Buy). \<not> is_space c) \<and>
      side_of_word (map upper_char (side_word Buy)) = Buy"
    "side_word Sell \<noteq> [] \<and> (\<forall>c \<in> set (side_word Sell). \<not> is_space c) \<and>
      side_of_word (map upper_char (side_word Sell)) = Sell" by code_simp+
  then show "side_word s \<noteq> []" "\<forall>c \<in> set (side_word s). \<not> is_space c"
    "side_of_word (map upper_char (side_word s)) = s" by (cases s; blast)+
qed

lemma cmd_words:
  "\<forall>c \<in> set ''LIMIT''. \<not> is_space c" "\<forall>c \<in> set ''MARKET''. \<not> is_space c" "\<forall>c \<in> set ''CANCEL''. \<not> is_space c"
  "map upper_char ''LIMIT'' = ''LIMIT''" "map upper_char ''MARKET'' = ''MARKET''"
  "map upper_char ''CANCEL'' = ''CANCEL''"
  by code_simp+

lemma read_ll_int:
  assumes "- (2 ^ 63) \<le> i" and "i < 2 ^ 63" and "no_digit r"
  shows "read_ll (Some (CHR '' '' # show_int i @ r)) = (i, Some r)"
  using scan_show_int [OF assms(3), of i] clamp_ids [OF assms(1,2)]
  by (simp add: read_ll_def scan_space [OF spaces(1)])

lemma read_ll_nat:
  assumes "n < 2 ^ 63"
  shows "read_ll (Some (CHR '' '' # show_nat n)) = (int n, Some [])"
  using scan_show_nat [OF no_digit_space(2), of n] clamp_nat [OF assms]
  by (simp add: read_ll_def scan_space [OF spaces(1)])

lemma read_ull_nat:
  assumes "n < 2 ^ 64"
  shows "read_ull (Some (CHR '' '' # show_nat n)) = (n, Some [])"
  using scan_show_nat [OF no_digit_space(2), of n] assms
  by (simp add: read_ull_def scan_space [OF spaces(1)])

lemma exec_limit:
  assumes "ic_type c = LimitCmd" and "unat (ic_qty c) < 2 ^ 63"
  shows "demo_exec n (show_cmd c) e =
    (let (oid, b) = add_limit_order (ic_side c) (ic_price c) (ic_qty c) (book e)
     in Demo_Answer (no_reply\<lparr>dr_id := oid, dr_ok := oid \<noteq> 0\<rparr>) (e\<lparr>book := b\<rparr>))"
proof -
  let ?p = "sint (ic_price c)" and ?q = "unat (ic_qty c)"
  let ?s3 = "CHR '' '' # show_nat ?q" and ?s2 = "CHR '' '' # show_int (sint (ic_price c)) @ CHR '' '' # show_nat ?q"
  have cmd: "show_cmd c = ''LIMIT'' @ CHR '' '' # side_word (ic_side c) @ ?s2"
    using assms(1) by (simp add: show_cmd_def)
  have "read_word (Some (show_cmd c)) = (''LIMIT'', Some (CHR '' '' # side_word (ic_side c) @ ?s2))"
    unfolding cmd by (rule read_word_at(1)) (use cmd_words in simp_all)
  moreover have "read_word (Some (CHR '' '' # side_word (ic_side c) @ ?s2)) = (side_word (ic_side c), Some ?s2)"
    by (rule read_word_at(2)) (rule side_word_ok)+
  moreover have "read_ll (Some ?s2) = (?p, Some ?s3)"
    by (rule read_ll_int) (use sint_range_size [of "ic_price c"] no_digit_space in \<open>simp_all add: word_size\<close>)
  moreover have "read_ll (Some ?s3) = (int ?q, Some [])" using assms(2) by (rule read_ll_nat)
  ultimately show ?thesis
    unfolding demo_exec_def by (simp only: Let_def case_prod_conv cmd_words side_word_ok)
      (simp add: submit_limit_def split_beta)
qed

lemma exec_market:
  assumes "ic_type c = MarketCmd" and "unat (ic_qty c) < 2 ^ 63" and "pending_stops e = []"
    and "pending_stop_storage (book e) = []" and "0 < n"
    and "market_order (ic_side c) (ic_qty c) (book e) = Some (fs, b)" and "pending_stop_storage b = []"
  shows "demo_exec n (show_cmd c) e = Demo_Answer (no_reply\<lparr>dr_fills := fs\<rparr>) (e\<lparr>book := b\<rparr>)"
proof -
  let ?q = "unat (ic_qty c)"
  let ?s2 = "CHR '' '' # show_nat ?q"
  have cmd: "show_cmd c = ''MARKET'' @ CHR '' '' # side_word (ic_side c) @ ?s2"
    using assms(1) by (simp add: show_cmd_def)
  have "read_word (Some (show_cmd c)) = (''MARKET'', Some (CHR '' '' # side_word (ic_side c) @ ?s2))"
    unfolding cmd by (rule read_word_at(1)) (use cmd_words in simp_all)
  moreover have "read_word (Some (CHR '' '' # side_word (ic_side c) @ ?s2)) = (side_word (ic_side c), Some ?s2)"
    by (rule read_word_at(2)) (rule side_word_ok)+
  moreover have "read_ll (Some ?s2) = (int ?q, Some [])" using assms(2) by (rule read_ll_nat)
  moreover have "process_triggers n mtch px (e\<lparr>book := b\<rparr>) = Some (e\<lparr>book := b\<rparr>)" for mtch px
    using assms(3,5,7) by (cases n) (simp_all add: process_triggers_def gather_stops_def take_pending_stops_def)
  then have "submit_market n (policy_match FIFOStack) (ic_side c) (ic_qty c) e = Some (fs, e\<lparr>book := b\<rparr>)"
    using assms(6) by (simp add: submit_market_def market_with_def policy_match_def fifo_match_def Let_def)
  ultimately show ?thesis
    unfolding demo_exec_def by (simp only: Let_def case_prod_conv cmd_words side_word_ok) simp
qed

lemma exec_cancel:
  assumes "ic_type c = CancelCmd" and "ic_cancel_id c < 2 ^ 64"
  shows "demo_exec n (show_cmd c) e =
    (let (ok, b) = cancel_order (ic_cancel_id c) (book e)
     in Demo_Answer (no_reply\<lparr>dr_ok := ok, dr_id := ic_cancel_id c\<rparr>) (e\<lparr>book := b\<rparr>))"
proof -
  let ?s1 = "CHR '' '' # show_nat (ic_cancel_id c)"
  have cmd: "show_cmd c = ''CANCEL'' @ ?s1" using assms(1) by (simp add: show_cmd_def)
  have "read_word (Some (show_cmd c)) = (''CANCEL'', Some ?s1)"
    unfolding cmd by (rule read_word_at(1)) (use cmd_words in simp_all)
  moreover have "read_ull (Some ?s1) = (ic_cancel_id c, Some [])" using assms(2) by (rule read_ull_nat)
  ultimately show ?thesis
    unfolding demo_exec_def by (simp only: Let_def case_prod_conv cmd_words) simp
qed

lemma plain_pending: "plain_book b \<Longrightarrow> pending_stop_storage b = []"
  by (auto simp: plain_book_def book_inv_iff book_rel_def pending_ok_def)

lemma level_bounds:
  assumes "(p, xs) \<in> set ls"
  shows "sum_list (map ao_vis xs) \<le> liquidity ls" and "length xs \<le> length (side_ids ls)"
proof -
  obtain us vs where ls: "ls = us @ (p, xs) # vs" using assms by (auto simp: in_set_conv_decomp)
  have "sum_list (map ao_vis xs) \<le> sum_list (map order_liq xs)"
    by (rule sum_list_mono) (simp add: order_liq_def)
  then show "sum_list (map ao_vis xs) \<le> liquidity ls" by (simp add: ls)
  show "length xs \<le> length (side_ids ls)" by (simp add: ls)
qed

lemma plain_small_nodes:
  assumes plain: "plain_book b" and liq: "book_liq b < 2 ^ 63" and cap: "capacity (pool b) < 2 ^ 63"
    and nd: "nd \<in> set (ladder s b)"
  shows "small_node nd"
proof -
  have inv: "book_inv [] b" "mode (pool b) = Pool" using plain by (simp_all add: plain_book_def)
  have "node_info nd \<in> set (map level_info (book_view b s))"
    using nd node_level_info [OF inv(1), of s] by (metis image_eqI set_map)
  then obtain p xs where l: "(p, xs) \<in> set (book_view b s)" "node_info nd = level_info (p, xs)" by auto
  have "liquidity (book_view b s) \<le> book_liq b" by (rule liquidity_le_book)
  moreover have "length (side_ids (book_view b s)) \<le> capacity (pool b)"
    using slots_count [OF inv] by (cases s) simp_all
  ultimately have "sum_list (map ao_vis xs) < 2 ^ 63" "length xs < 2 ^ 63"
    using level_bounds [OF l(1)] liq cap by linarith+
  moreover have "unat (lv_agg (nd_level nd)) = sum_list (map ao_vis xs)" "lv_cnt (nd_level nd) = length xs"
    using l(2) by (simp_all only: node_info_def level_info_def prod.inject case_prod_conv of_nat_eq_iff)
  ultimately show ?thesis by (simp only: small_node_def)
qed

lemma plain_levels:
  assumes "plain_book b" and "book_liq b < 2 ^ 63" and "capacity (pool b) < 2 ^ 63"
  shows "emit_levels (snapshot d b) = ex_levels d (abs_book b)"
proof -
  have inv: "book_inv [] b" using assms(1) by (simp add: plain_book_def)
  have "map (\<lambda>nd. json_level (node_info nd)) (take d (ladder s b)) =
      map (\<lambda>l. json_level (level_info l)) (take d (book_view b s))" for s
    using arg_cong [OF node_level_info [OF inv, of s], of "\<lambda>xs. map json_level (take d xs)"]
    by (simp add: take_map comp_def)
  from this [of Sell] this [of Buy] show ?thesis
    using emit_snapshot [of b d] plain_small_nodes [OF assms, of _ Sell] plain_small_nodes [OF assms, of _ Buy]
    by (simp add: ladder_def ex_levels_def abs_book_def)
qed

lemma ex_cap_apply: "ex_cap (ex_apply c x) = ex_cap x"
  by (simp add: ex_apply_def Let_def split: ingress_type.splits)

text \<open>C30. From the text of a command to the text of the answer: the demo program reads a printed
  command back, applies it to its engine with the effect the exchange specifies, and answers
  with success, id and fills as the exchange does; the levels in its JSON, which went through
  the text of the snapshot and were parsed out of it, are the best twelve levels of each
  side of the exchange after the command.\<close>
theorem demo_answers:
  assumes "plain_book (book e)" and "pending_stops e = []" and "0 < n"
    and "book_liq (book e) + cmd_qty c < 2 ^ 63" and "capacity (pool (book e)) < 2 ^ 63"
    and "unat (ic_qty c) < 2 ^ 63" and "ic_cancel_id c < 2 ^ 64"
  shows "\<exists>r e'. demo_exec n (show_cmd c) e = Demo_Answer r e' \<and>
    plain_book (book e') \<and> pending_stops e' = [] \<and>
    abs_book (book e') = ex_apply c (abs_book (book e)) \<and>
    (dr_ok r, dr_id r, map abs_fill (dr_fills r)) = ex_answer c (abs_book (book e)) \<and> dr_err r = [] \<and>
    demo_json lat r (book e') =
      json_reply lat r (ex_levels 12 (abs_book (book e'))) (snapshot 12 (book e')) @ [nl]"
proof -
  let ?b = "book e" and ?x = "abs_book (book e)"
  obtain b where b: "apply_cmd c ?b = Some b" "plain_book b" "book_liq b \<le> book_liq ?b + cmd_qty c"
    "abs_book b = ex_apply c ?x"
    using apply_cmd_ok [OF assms(1,4)] by blast
  have exec: "\<exists>r. demo_exec n (show_cmd c) e = Demo_Answer r (e\<lparr>book := b\<rparr>) \<and>
      (dr_ok r, dr_id r, map abs_fill (dr_fills r)) = ex_answer c ?x \<and> dr_err r = []"
  proof (cases "ic_type c")
    case LimitCmd
    then have "b = snd (add_limit_order (ic_side c) (ic_price c) (ic_qty c) ?b)"
      using b(1) by (simp add: apply_cmd_def)
    then show ?thesis
      using exec_limit [OF LimitCmd assms(6), of n e] add_limit_id [OF assms(1)] next_id_pos [OF assms(1)] LimitCmd
      by (simp add: split_beta ex_answer_def no_reply_def) (simp add: abs_book_def)
  next
    case MarketCmd
    then obtain fs where m: "market_order (ic_side c) (ic_qty c) ?b = Some (fs, b)"
      using b(1) by (auto simp: apply_cmd_def)
    have "map abs_fill fs = fst (sp_match (unat (ic_qty c)) (book_view ?b (opposite (ic_side c))))"
      using apply_market_ok [OF assms(1), of "ic_side c" "ic_qty c"] m by auto
    then show ?thesis
      using exec_market [OF MarketCmd assms(6,2) plain_pending [OF assms(1)] assms(3) m plain_pending [OF b(2)]]
        MarketCmd by (simp add: ex_answer_def no_reply_def abs_book_def)
  next
    case CancelCmd
    then have "b = snd (cancel_order (ic_cancel_id c) ?b)" using b(1) by (simp add: apply_cmd_def)
    then show ?thesis
      using exec_cancel [OF CancelCmd assms(7), of n e] CancelCmd cancel_found [of "ic_cancel_id c" ?b]
        found_ids [OF assms(1), of "ic_cancel_id c"]
      by (simp add: split_beta ex_answer_def no_reply_def)
  qed
  have "book_liq b < 2 ^ 63" using b(3) assms(4) by linarith
  moreover have "ex_cap (abs_book b) = ex_cap ?x" using b(4) ex_cap_apply by simp
  then have "capacity (pool b) < 2 ^ 63" using assms(5) by (simp add: abs_book_def)
  ultimately have "emit_levels (snapshot 12 b) = ex_levels 12 (abs_book b)" by (rule plain_levels [OF b(2)])
  then show ?thesis using exec b(2,4) assms(2) by (auto simp: demo_json_def Let_def)
qed

theorem demo_answers_witness:
  "\<exists>r e'. demo_exec 1 ''LIMIT SELL 101 5'' (new_engine (new_book 8 Pool)) = Demo_Answer r e' \<and>
     dr_ok r \<and> dr_id r = 1 \<and>
     demo_json 7 r (book e') =
       json_reply 7 r (render_levels [json_level (101, 5, 1)] []) (snapshot 12 (book e')) @ [nl]"
proof -
  let ?c = "new_cmd\<lparr>ic_side := Sell, ic_price := 101, ic_qty := 5\<rparr>" and ?b = "new_book 8 Pool"
  have plain: "plain_book ?b"
    by (simp add: plain_book_def new_book_inv) (simp add: new_book_def new_pool_def)
  have num: "book_liq ?b = 0" "cmd_qty ?c = 5" "capacity (pool ?b) = 8" "unat (ic_qty ?c) = 5" "ic_cancel_id ?c = 0"
    by code_simp+
  have cmd: "show_cmd ?c = ''LIMIT SELL 101 5''" by code_simp
  have ans: "ex_answer ?c (abs_book ?b) = (True, 1, [])"
    "ex_levels 12 (ex_apply ?c (abs_book ?b)) = render_levels [json_level (101, 5, 1)] []" by code_simp+
  have "plain_book (book (new_engine ?b))" "pending_stops (new_engine ?b) = []"
    "book_liq (book (new_engine ?b)) + cmd_qty ?c < 2 ^ 63" "capacity (pool (book (new_engine ?b))) < 2 ^ 63"
    "unat (ic_qty ?c) < 2 ^ 63" "ic_cancel_id ?c < 2 ^ 64"
    using plain num by (simp_all add: new_engine_def)
  from demo_answers [OF this(1,2) _ this(3-6), of 1 7] show ?thesis
    unfolding cmd using ans by (auto simp: new_engine_def)
qed

end
