(* ===== verification/Latency_Ring.thy ===== *)
theory Latency_Ring
  imports Spsc_Ring Complex_Main
begin

section \<open>The latency ring of the benchmarks\<close>

text \<open>
  bench/latency_ring.hpp: a window of the most recent samples and its percentiles. The index
  counts for ever and wraps; the capacity is the length of the buffer. Percentiles are real
  numbers, so the rounding of \<open>double\<close> is not modelled.
\<close>

record latency_ring =
  lr_buf :: "u64 list"
  lr_head :: u64
  lr_filled :: nat

definition lr_new :: "nat \<Rightarrow> latency_ring" where
  "lr_new n = \<lparr>lr_buf = replicate n 0, lr_head = 0, lr_filled = 0\<rparr>"

definition lr_push :: "u64 \<Rightarrow> latency_ring \<Rightarrow> latency_ring" where
  "lr_push ns r =
     (let n = length (lr_buf r);
          r1 = r\<lparr>lr_buf := (lr_buf r)[slot_of n (lr_head r) := ns], lr_head := lr_head r + 1\<rparr>
      in if lr_filled r1 < n then r1\<lparr>lr_filled := lr_filled r1 + 1\<rparr> else r1)"

text \<open>The samples in the window, oldest first, as \<open>percentiles\<close> copies them.\<close>

definition lr_window :: "latency_ring \<Rightarrow> u64 list" where
  "lr_window r =
     (let n = length (lr_buf r); start = (if lr_filled r < n then 0 else lr_head r - of_nat n)
      in map (\<lambda>i. lr_buf r ! slot_of n (start + of_nat i)) [0..<lr_filled r])"

text \<open>The lambda \<open>at\<close>: linear interpolation between two neighbours of the sorted samples.\<close>

definition pct_at :: "u64 list \<Rightarrow> real \<Rightarrow> real" where
  "pct_at tmp q =
     (if length tmp = 1 then of_nat (unat (tmp ! 0))
      else
        (let idx = q * of_nat (length tmp - 1);
             lo = nat \<lfloor>idx\<rfloor>;
             hi = min (lo + 1) (length tmp - 1);
             frac = idx - of_nat lo
         in of_nat (unat (tmp ! lo)) * (1 - frac) + of_nat (unat (tmp ! hi)) * frac))"

record pct =
  p50 :: real
  p90 :: real
  p99 :: real
  p999 :: real

definition percentiles :: "latency_ring \<Rightarrow> pct" where
  "percentiles r =
     (if lr_filled r = 0 then \<lparr>p50 = 0, p90 = 0, p99 = 0, p999 = 0\<rparr>
      else
        (let tmp = sort (lr_window r)
         in \<lparr>p50 = pct_at tmp (50 / 100), p90 = pct_at tmp (90 / 100), p99 = pct_at tmp (99 / 100),
             p999 = pct_at tmp (999 / 1000)\<rparr>))"

text \<open>The interval between two readings of the clock, in nanoseconds.\<close>

definition ns_between :: "u64 \<Rightarrow> u64 \<Rightarrow> u64" where
  "ns_between a b = b - a"

subsection \<open>The window\<close>

text \<open>What the ring holds after the samples \<open>xs\<close>.\<close>

definition lr_holds :: "u64 list \<Rightarrow> latency_ring \<Rightarrow> bool" where
  "lr_holds xs r \<longleftrightarrow>
     pow_cap (length (lr_buf r)) \<and> lr_head r = of_nat (length xs) \<and>
     lr_filled r = min (length (lr_buf r)) (length xs) \<and>
     (\<forall>i < length xs. length xs \<le> i + length (lr_buf r) \<longrightarrow>
        lr_buf r ! (i mod length (lr_buf r)) = xs ! i)"

lemma lr_new_holds: "pow_cap n \<Longrightarrow> lr_holds [] (lr_new n)"
  by (simp add: lr_holds_def lr_new_def)

lemma lr_push_holds:
  assumes "lr_holds xs r"
  shows "lr_holds (xs @ [x]) (lr_push x r)" and "length (lr_buf (lr_push x r)) = length (lr_buf r)"
proof -
  let ?n = "length (lr_buf r)"
  have cap: "pow_cap ?n" and r: "lr_head r = of_nat (length xs)" "lr_filled r = min ?n (length xs)"
    "\<And>i. i < length xs \<Longrightarrow> length xs \<le> i + ?n \<Longrightarrow> lr_buf r ! (i mod ?n) = xs ! i"
    using assms by (auto simp: lr_holds_def)
  have slot: "slot_of ?n (lr_head r) = length xs mod ?n" using slot_of_nat [OF cap] r(1) by simp
  have pos: "0 < ?n" using pow_cap_bounds(1) [OF cap] by linarith
  have buf: "(lr_buf r)[length xs mod ?n := x] ! (i mod ?n) = (xs @ [x]) ! i"
    if "i < Suc (length xs)" "Suc (length xs) \<le> i + ?n" for i
  proof (cases "i = length xs")
    case True
    then show ?thesis using pos by simp
  next
    case False
    then have "i mod ?n \<noteq> length xs mod ?n" using that by (intro mod_window_inj) simp_all
    then show ?thesis using that False r(3) [of i] by (simp add: nth_append)
  qed
  have push: "lr_push x r = r\<lparr>lr_buf := (lr_buf r)[length xs mod ?n := x],
      lr_head := of_nat (length xs) + 1, lr_filled := min ?n (Suc (length xs))\<rparr>"
    using r(1,2) slot by (auto simp: lr_push_def Let_def)
  show "lr_holds (xs @ [x]) (lr_push x r)"
    unfolding lr_holds_def push using cap buf by simp
  show "length (lr_buf (lr_push x r)) = ?n" by (simp add: push)
qed

lemma lr_pushes_holds:
  "lr_holds xs r \<Longrightarrow> lr_holds (xs @ ys) (fold lr_push ys r) \<and>
     length (lr_buf (fold lr_push ys r)) = length (lr_buf r)"
proof (induction ys arbitrary: xs r)
  case (Cons y ys)
  then show ?case using lr_push_holds [OF Cons.prems, of y] Cons.IH [of "xs @ [y]" "lr_push y r"] by simp
qed simp

lemma lr_window_holds:
  assumes "lr_holds xs r"
  shows "lr_window r = drop (length xs - length (lr_buf r)) xs"
proof -
  let ?n = "length (lr_buf r)" and ?k = "length xs - length (lr_buf r)"
  have cap: "pow_cap ?n" and r: "lr_head r = of_nat (length xs)" "lr_filled r = min ?n (length xs)"
    "\<And>i. i < length xs \<Longrightarrow> length xs \<le> i + ?n \<Longrightarrow> lr_buf r ! (i mod ?n) = xs ! i"
    using assms by (auto simp: lr_holds_def)
  have start: "(if lr_filled r < ?n then 0 else lr_head r - of_nat ?n) = of_nat ?k"
    using r(1,2) by (auto simp: of_nat_diff)
  have "lr_buf r ! slot_of ?n (of_nat ?k + of_nat i) = xs ! (?k + i)" if "i < lr_filled r" for i
  proof -
    have "slot_of ?n (of_nat ?k + of_nat i) = (?k + i) mod ?n"
      using slot_of_nat [OF cap, of "?k + i"] by simp
    moreover have "?k + i < length xs" "length xs \<le> ?k + i + ?n" using that r(2) by auto
    ultimately show ?thesis using r(3) [of "?k + i"] by simp
  qed
  then show ?thesis
    unfolding lr_window_def start Let_def using r(2) by (intro nth_equalityI) auto
qed

subsection \<open>Interpolation\<close>

definition interpolate :: "(nat \<Rightarrow> real) \<Rightarrow> nat \<Rightarrow> real \<Rightarrow> real" where
  "interpolate v m x =
     (let lo = nat \<lfloor>x\<rfloor>; hi = min (lo + 1) m; frac = x - of_nat lo
      in v lo * (1 - frac) + v hi * frac)"

lemma floor_frac:
  assumes "0 \<le> (x :: real)"
  shows "of_nat (nat \<lfloor>x\<rfloor>) \<le> x" and "x < of_nat (nat \<lfloor>x\<rfloor>) + 1"
  using assms by linarith+

lemma interpolate_form:
  "interpolate v m x =
     v (nat \<lfloor>x\<rfloor>) + (v (min (nat \<lfloor>x\<rfloor> + 1) m) - v (nat \<lfloor>x\<rfloor>)) * (x - of_nat (nat \<lfloor>x\<rfloor>))"
  by (simp add: interpolate_def Let_def algebra_simps)

lemma interpolate_between:
  assumes mono: "\<And>i j. i \<le> j \<Longrightarrow> j \<le> m \<Longrightarrow> v i \<le> v j" and "0 \<le> x" and "x \<le> of_nat m"
  shows "v (nat \<lfloor>x\<rfloor>) \<le> interpolate v m x" and "interpolate v m x \<le> v (min (nat \<lfloor>x\<rfloor> + 1) m)"
    and "nat \<lfloor>x\<rfloor> \<le> m"
proof -
  let ?lo = "nat \<lfloor>x\<rfloor>" and ?hi = "min (nat \<lfloor>x\<rfloor> + 1) m" and ?f = "x - of_nat (nat \<lfloor>x\<rfloor>)"
  show lo: "?lo \<le> m" using assms(2,3) by linarith
  have d: "0 \<le> v ?hi - v ?lo" using mono [of ?lo ?hi] lo by simp
  have f: "0 \<le> ?f" "?f \<le> 1" using floor_frac [OF assms(2)] by linarith+
  have "0 \<le> (v ?hi - v ?lo) * ?f" using d f(1) by simp
  then show "v ?lo \<le> interpolate v m x" unfolding interpolate_form by linarith
  have "v ?lo + (v ?hi - v ?lo) * ?f \<le> v ?lo + (v ?hi - v ?lo) * 1"
    using d f(2) by (intro add_left_mono mult_left_mono)
  then show "interpolate v m x \<le> v ?hi" unfolding interpolate_form by simp
qed

lemma interpolate_mono:
  assumes mono: "\<And>i j. i \<le> j \<Longrightarrow> j \<le> m \<Longrightarrow> v i \<le> v j" and "0 \<le> x" and "x \<le> y" and "y \<le> of_nat m"
  shows "interpolate v m x \<le> interpolate v m y"
proof (cases "nat \<lfloor>x\<rfloor> = nat \<lfloor>y\<rfloor>")
  case True
  let ?lo = "nat \<lfloor>y\<rfloor>"
  have "v ?lo \<le> v (min (?lo + 1) m)"
    using interpolate_between [of m v y, OF mono] assms(2-4) by (meson order_trans)
  then show ?thesis unfolding interpolate_form True using assms(3) by (intro add_left_mono mult_left_mono) simp_all
next
  case False
  have "nat \<lfloor>x\<rfloor> \<le> nat \<lfloor>y\<rfloor>" using assms(3) by (intro nat_mono floor_mono)
  with False have less: "nat \<lfloor>x\<rfloor> < nat \<lfloor>y\<rfloor>" by linarith
  have top: "nat \<lfloor>y\<rfloor> \<le> m" using interpolate_between(3) [of m v y, OF mono] assms by simp
  have "interpolate v m x \<le> v (min (nat \<lfloor>x\<rfloor> + 1) m)"
    using interpolate_between(2) [of m v x, OF mono] assms by simp
  also have "\<dots> \<le> v (nat \<lfloor>y\<rfloor>)" using less top by (intro mono) linarith+
  also have "\<dots> \<le> interpolate v m y" using interpolate_between(1) [of m v y, OF mono] assms by simp
  finally show ?thesis .
qed

lemma pct_at_interpolate:
  assumes "tmp \<noteq> []" and "0 \<le> q" and "q \<le> 1"
  shows "pct_at tmp q = interpolate (\<lambda>i. of_nat (unat (tmp ! i))) (length tmp - 1) (q * of_nat (length tmp - 1))"
proof (cases "length tmp = 1")
  case True
  then show ?thesis by (simp add: pct_at_def interpolate_def)
next
  case False
  then show ?thesis by (simp add: pct_at_def interpolate_def Let_def)
qed

lemma pct_at_mono:
  assumes "sorted tmp" and "tmp \<noteq> []" and "0 \<le> q" and "q \<le> r" and "r \<le> 1"
  shows "pct_at tmp q \<le> pct_at tmp r" and "of_nat (unat (hd tmp)) \<le> pct_at tmp q"
    and "pct_at tmp r \<le> of_nat (unat (last tmp))"
proof -
  let ?v = "\<lambda>i. of_nat (unat (tmp ! i)) :: real" and ?m = "length tmp - 1"
  have mono: "?v i \<le> ?v j" if "i \<le> j" "j \<le> ?m" for i j
  proof -
    have "j < length tmp" using that(2) assms(2) by (cases tmp) simp_all
    then have "tmp ! i \<le> tmp ! j" using assms(1) that(1) sorted_nth_mono by blast
    then have "unat (tmp ! i) \<le> unat (tmp ! j)" by (simp only: word_le_nat_alt)
    then show ?thesis by (rule of_nat_mono)
  qed
  let ?x = "q * of_nat ?m" and ?y = "r * of_nat ?m"
  have range: "0 \<le> ?x" "?x \<le> ?y" "?y \<le> of_nat ?m" "?x \<le> of_nat ?m" "0 \<le> ?y"
    using assms(3-5) by (simp_all add: mult_right_mono mult_left_le_one_le)
  have eq: "pct_at tmp q = interpolate ?v ?m ?x" "pct_at tmp r = interpolate ?v ?m ?y"
    using assms by (simp_all add: pct_at_interpolate)
  show "pct_at tmp q \<le> pct_at tmp r"
    unfolding eq by (rule interpolate_mono) (use mono range in simp_all)
  note lower = interpolate_between [of ?m ?v ?x, OF mono range(1,4)]
  note upper = interpolate_between [of ?m ?v ?y, OF mono range(5,3)]
  have "of_nat (unat (hd tmp)) = ?v 0" using assms(2) by (simp add: hd_conv_nth)
  also have "\<dots> \<le> ?v (nat \<lfloor>?x\<rfloor>)" by (rule mono) (use lower(3) in simp_all)
  finally show "of_nat (unat (hd tmp)) \<le> pct_at tmp q" unfolding eq using lower(1) by linarith
  have "?v (min (nat \<lfloor>?y\<rfloor> + 1) ?m) \<le> ?v ?m" by (rule mono) simp_all
  also have "?v ?m = of_nat (unat (last tmp))" using assms(2) by (simp add: last_conv_nth)
  finally show "pct_at tmp r \<le> of_nat (unat (last tmp))" unfolding eq using upper(2) by linarith
qed

text \<open>The percentiles are those of the most recent samples, however many were pushed and
  although the index wraps: they are computed from exactly the last \<open>n\<close> samples in order of size,
  do not decrease from the 50th to the 99.9th, and lie between the smallest and the
  largest of those samples.\<close>
theorem percentiles_recent:
  assumes "pow_cap n" and "xs \<noteq> []"
  shows "let r = fold lr_push xs (lr_new n); w = sort (drop (length xs - n) xs); p = percentiles r
    in w \<noteq> [] \<and> p = \<lparr>p50 = pct_at w (50 / 100), p90 = pct_at w (90 / 100), p99 = pct_at w (99 / 100),
         p999 = pct_at w (999 / 1000)\<rparr> \<and>
       of_nat (unat (hd w)) \<le> p50 p \<and> p50 p \<le> p90 p \<and> p90 p \<le> p99 p \<and> p99 p \<le> p999 p \<and>
       p999 p \<le> of_nat (unat (last w))"
proof -
  let ?r = "fold lr_push xs (lr_new n)" and ?w = "sort (drop (length xs - n) xs)"
  have r: "lr_holds xs ?r" "length (lr_buf ?r) = n"
    using lr_pushes_holds [OF lr_new_holds [OF assms(1)], of xs] by (simp_all add: lr_new_def)
  have n: "0 < n" using pow_cap_bounds(1) [OF assms(1)] by linarith
  have "length ?w = min n (length xs)" by simp
  then have w: "?w \<noteq> []" using n assms(2) by (metis length_0_conv length_greater_0_conv min_less_iff_conj)
  have p: "percentiles ?r = \<lparr>p50 = pct_at ?w (50 / 100), p90 = pct_at ?w (90 / 100),
      p99 = pct_at ?w (99 / 100), p999 = pct_at ?w (999 / 1000)\<rparr>"
  proof -
    have "lr_filled ?r = min n (length xs)" using r by (simp add: lr_holds_def)
    then have "lr_filled ?r \<noteq> 0" using n assms(2) by (simp add: min_def)
    then show ?thesis using r(2) lr_window_holds [OF r(1)] by (simp add: percentiles_def Let_def)
  qed
  show ?thesis
    unfolding Let_def p pct.simps
    using w pct_at_mono(1) [of ?w] pct_at_mono(2) [of ?w "50 / 100" "50 / 100"]
      pct_at_mono(3) [of ?w "999 / 1000" "999 / 1000"] by simp
qed

theorem percentiles_recent_witness:
  "p50 (percentiles (fold lr_push [9, 1, 5, 3, 7, 5] (lr_new 4))) = 5"
proof -
  have "pow_cap 4" by (rule pow_cap_4)
  from percentiles_recent [OF this, of "[9, 1, 5, 3, 7, 5]"] show ?thesis
    by (simp add: Let_def pct_at_def)
qed

end
