(* ===== verification/Contention_Run.thy ===== *)
theory Contention_Run
  imports Pipeline Latency_Ring
begin

section \<open>The contention benchmark: rows, and the single-writer run\<close>

text \<open>
  bench/bench_contention.cpp: N producers submit commands as fast as they can, to the single-writer
  pipeline and to the sharded books, and the program checks that no command was lost. A run is
  a schedule of the threads; the operations of the ring and the submissions under a shard's mutex
  are single steps here, which \<open>Mpsc_Run\<close> and the mutex justify. The durations the program
  measures are arguments, real numbers of seconds and words of nanoseconds.
\<close>

subsection \<open>Samples, commands, rows\<close>

text \<open>\<open>pct\<close> sorts its argument in place; the sorted vector is its second result.\<close>

definition bc_pct :: "u64 list \<Rightarrow> real \<Rightarrow> real \<times> u64 list" where
  "bc_pct v q =
     (if v = [] then (0, v)
      else
        (let w = sort v; idx = q * of_nat (length w - 1); lo = nat \<lfloor>idx\<rfloor>;
             hi = min (lo + 1) (length w - 1); frac = idx - of_nat lo
         in (of_nat (unat (w ! lo)) * (1 - frac) + of_nat (unat (w ! hi)) * frac, w)))"

record bench_row =
  br_model :: string
  br_nprod :: nat
  br_ingest :: real
  br_p50 :: real
  br_p99 :: real
  br_applied :: u64

definition make_cmd :: "nat \<Rightarrow> nat \<Rightarrow> nat \<Rightarrow> ingress_cmd" where
  "make_cmd p i n_instruments =
     new_cmd\<lparr>ic_type := if i mod 17 = 0 then MarketCmd else LimitCmd,
       ic_side := if odd i then Buy else Sell,
       ic_price := 10000 + of_int (int (i mod 40) - 20),
       ic_qty := 1,
       ic_instrument := of_nat ((p + i) mod max 1 n_instruments),
       ic_seq := push_bit 32 (of_nat p) OR ucast (of_nat i :: u32)\<rparr>"

text \<open>The row a run reports, given its samples and its seconds.\<close>

definition bc_row :: "string \<Rightarrow> nat \<Rightarrow> nat \<Rightarrow> u64 list list \<Rightarrow> real \<Rightarrow> u64 \<Rightarrow> bench_row" where
  "bc_row model nprod ops samples sec applied =
     (let (v50, w) = bc_pct (concat samples) (50 / 100); (v99, _) = bc_pct w (99 / 100)
      in \<lparr>br_model = model, br_nprod = nprod,
          br_ingest = of_nat (unat (of_nat nprod * of_nat ops :: u64)) / max sec (1 / 1000000000),
          br_p50 = v50, br_p99 = v99, br_applied = applied\<rparr>)"

text \<open>The numbers of threads \<open>main\<close> tries on a machine that reports \<open>hw\<close> of them.\<close>

function doublings :: "nat \<Rightarrow> nat \<Rightarrow> nat list" where
  "doublings n max_n = (if 0 < n \<and> n \<le> max_n then n # doublings (n * 2) max_n else [])"
  by pat_completeness auto

termination doublings
  by (relation "measure (\<lambda>(n, max_n). Suc max_n - n)") auto

declare doublings.simps [simp del]

definition thread_counts :: "nat \<Rightarrow> nat list" where
  "thread_counts hw =
     (let max_n = (if hw = 0 then 2 else hw); ns = doublings 1 max_n
      in if last ns \<noteq> max_n then ns @ [max_n] else ns)"

text \<open>The check at the end of \<open>main\<close>: the rows that lost updates, and the exit code.\<close>

definition lost_updates :: "nat \<Rightarrow> bench_row list \<Rightarrow> bench_row list" where
  "lost_updates ops rows =
     filter (\<lambda>r. br_applied r \<noteq> of_nat (br_nprod r) * of_nat ops) rows"

definition contention_exit :: "nat \<Rightarrow> bench_row list \<Rightarrow> int" where
  "contention_exit ops rows = (if lost_updates ops rows = [] then 0 else 1)"

subsection \<open>The single-writer run\<close>

text \<open>
  The threads: each producer works through its commands and tries again while the ring is full;
  the consumer tests its condition and drains up to 128 commands; the main thread joins the
  producers, waits for the count, stops the consumer, joins it and reads the count.
\<close>

datatype consumer_pc = Loop_Test | Draining nat | Stopped

datatype main_pc = Joining | Waiting | Join_Consumer | Finished u64

record single_writer =
  sw_pipe :: pipeline
  sw_next :: "nat list"
  sw_cons :: consumer_pc
  sw_go :: bool
  sw_main :: main_pc

datatype thread = Producer nat | Consumer | Main

definition k_ingress_cap :: nat where
  "k_ingress_cap = 65536"

definition sw_start :: "nat \<Rightarrow> single_writer" where
  "sw_start nprod = \<lparr>sw_pipe = new_pipeline k_ingress_cap 65536, sw_next = replicate nprod 0,
     sw_cons = Loop_Test, sw_go = True, sw_main = Joining\<rparr>"

definition sw_total :: "nat \<Rightarrow> single_writer \<Rightarrow> u64" where
  "sw_total ops s = of_nat (length (sw_next s)) * of_nat ops"

definition producer_step :: "nat \<Rightarrow> nat \<Rightarrow> single_writer \<Rightarrow> single_writer option" where
  "producer_step ops p s =
     (if p < length (sw_next s) \<and> sw_next s ! p < ops then
        map_option (\<lambda>(ok, pipe). s\<lparr>sw_pipe := pipe,
            sw_next := if ok then (sw_next s)[p := sw_next s ! p + 1] else sw_next s\<rparr>)
          (try_submit (make_cmd p (sw_next s ! p) 1) (sw_pipe s))
      else Some s)"

definition consumer_step :: "nat \<Rightarrow> single_writer \<Rightarrow> single_writer option" where
  "consumer_step ops s =
     (case sw_cons s of
        Loop_Test \<Rightarrow>
          Some (s\<lparr>sw_cons := if sw_go s \<or> pl_applied (sw_pipe s) < sw_total ops s
                            then Draining 0 else Stopped\<rparr>)
      | Draining n \<Rightarrow>
          (case (if n < 128 then mpsc_try_pop (pl_queue (sw_pipe s)) else None) of
             None \<Rightarrow> Some (s\<lparr>sw_pipe := if n \<noteq> 0 then publish_quote (sw_pipe s) else sw_pipe s,
                 sw_cons := Loop_Test\<rparr>)
           | Some (c, q) \<Rightarrow> map_option (\<lambda>pipe. s\<lparr>sw_pipe := pipe, sw_cons := Draining (n + 1)\<rparr>)
               (pl_apply c ((sw_pipe s)\<lparr>pl_queue := q\<rparr>)))
      | Stopped \<Rightarrow> Some s)"

definition main_step :: "nat \<Rightarrow> single_writer \<Rightarrow> single_writer" where
  "main_step ops s =
     (case sw_main s of
        Joining \<Rightarrow> if list_all (\<lambda>i. ops \<le> i) (sw_next s) then s\<lparr>sw_main := Waiting\<rparr> else s
      | Waiting \<Rightarrow>
          if pl_applied (sw_pipe s) < sw_total ops s then s
          else s\<lparr>sw_go := False, sw_main := Join_Consumer\<rparr>
      | Join_Consumer \<Rightarrow>
          if sw_cons s = Stopped then s\<lparr>sw_main := Finished (pl_applied (sw_pipe s))\<rparr> else s
      | Finished v \<Rightarrow> s)"

definition sw_step :: "nat \<Rightarrow> thread \<Rightarrow> single_writer \<Rightarrow> single_writer option" where
  "sw_step ops t s =
     (case t of
        Producer p \<Rightarrow> producer_step ops p s
      | Consumer \<Rightarrow> consumer_step ops s
      | Main \<Rightarrow> Some (main_step ops s))"

text \<open>A schedule; \<open>None\<close> is a call that does not return.\<close>

primrec sw_exec :: "nat \<Rightarrow> thread list \<Rightarrow> single_writer \<Rightarrow> single_writer option" where
  "sw_exec ops [] s = Some s"
| "sw_exec ops (t # ts) s = Option.bind (sw_step ops t s) (sw_exec ops ts)"

text \<open>
  What becomes of a run under a schedule: it returns, the schedule ends before it does, or it makes a
  call that does not return.
\<close>

datatype 'a outcome = Returned 'a | Unfinished | Stuck

definition run_single_writer ::
    "nat \<Rightarrow> nat \<Rightarrow> thread list \<Rightarrow> u64 list list \<Rightarrow> real \<Rightarrow> bench_row outcome" where
  "run_single_writer nprod ops sched samples sec =
     (case sw_exec ops sched (sw_start nprod) of
        None \<Rightarrow> Stuck
      | Some s \<Rightarrow>
          (case sw_main s of
             Finished v \<Rightarrow> Returned (bc_row ''single-writer+MPSC'' nprod ops samples sec v)
           | _ \<Rightarrow> Unfinished))"

subsection \<open>The sequence numbers of the commands\<close>

lemma high_bits: "p < 2 ^ 32 \<Longrightarrow> 32 \<le> k \<Longrightarrow> \<not> bit (p :: nat) k"
proof -
  assume "p < 2 ^ 32" "32 \<le> k"
  moreover have "(2 :: nat) ^ 32 \<le> 2 ^ k" using \<open>32 \<le> k\<close> by (intro power_increasing) simp_all
  ultimately have "p div 2 ^ k = 0" by simp
  then show ?thesis by (simp add: bit_iff_odd)
qed

definition from_producer :: "nat \<Rightarrow> ingress_cmd \<Rightarrow> bool" where
  "from_producer p c \<longleftrightarrow> drop_bit 32 (ic_seq c) = of_nat p"

text \<open>The upper half of a sequence number is the producer, the lower half the command's index.\<close>

lemma seq_parts:
  "p < 2 ^ 32 \<Longrightarrow> drop_bit 32 (ic_seq (make_cmd p i n)) = of_nat p"
  "i < 2 ^ 32 \<Longrightarrow> take_bit 32 (ic_seq (make_cmd p i n)) = of_nat i"
proof -
  assume "p < 2 ^ 32"
  note top = high_bits [OF this]
  show "drop_bit 32 (ic_seq (make_cmd p i n)) = of_nat p"
    by (rule bit_word_eqI) (use top in \<open>auto simp: make_cmd_def bit_simps simp flip: not_le\<close>)
next
  assume "i < 2 ^ 32"
  note top = high_bits [OF this]
  show "take_bit 32 (ic_seq (make_cmd p i n)) = of_nat i"
    by (rule bit_word_eqI) (use top in \<open>auto simp: make_cmd_def bit_simps leI\<close>)
qed

lemma from_producer_iff:
  assumes "p < 2 ^ 32" and "p' < 2 ^ 32"
  shows "from_producer p (make_cmd p' i n) \<longleftrightarrow> p' = p"
proof -
  have "(of_nat p' :: u64) = of_nat p \<longleftrightarrow> p' = p" by (rule of_nat_eq_small) (use assms in simp_all)
  then show ?thesis by (simp add: from_producer_def seq_parts(1) [OF assms(2)])
qed

lemma make_cmd_qty [simp]: "ic_qty (make_cmd p i n) = 1"
  by (simp add: make_cmd_def)

lemma cmd_qty_unit: "ic_qty c = 1 \<Longrightarrow> cmd_qty c \<le> 1"
  by (simp add: cmd_qty_def split: ingress_type.split)

subsection \<open>What the ring offers the run\<close>

lemma submit_full:
  assumes "mpsc_inv (pl_queue p)" and "mpsc_room (pl_queue p) = 0"
  shows "try_submit c p = Some (False, p)"
proof -
  have "the (mpsc_try_push c (pl_queue p)) = (False, pl_queue p)" by (rule mpsc.push_full [OF assms])
  then have "mpsc_try_push c (pl_queue p) = Some (False, pl_queue p)"
    using mpsc_push_returns [OF assms(1), of c] by auto
  then show ?thesis by (simp add: try_submit_def)
qed

lemma empty_has_room:
  assumes "mpsc_inv q" and "mpsc_items q = []"
  shows "0 < mpsc_room q"
proof -
  obtain c e where at: "mpsc_at c e q" using assms by (auto simp: mpsc_inv_def)
  then have "pow_cap (length (slots q))" by (simp add: mpsc_at_def)
  from pow_cap_bounds(1) [OF this] have "0 < length (slots q)" by linarith
  then have "0 < length (rb_buf (mpsc_ring q))" by (simp add: mpsc_ring_def)
  then show ?thesis
    using ring_at_items(2,3) [OF mpsc_ring_at [OF at]] assms(2) by (simp add: mpsc_items_def mpsc_room_def)
qed

subsection \<open>The invariant of the single-writer run\<close>

text \<open>
  \<open>cs\<close> are the commands applied so far. Applied and queued together they are, for every
  producer, the commands it has submitted, in its order.
\<close>

definition sw_data :: "nat \<Rightarrow> ingress_cmd list \<Rightarrow> single_writer \<Rightarrow> bool" where
  "sw_data ops cs s \<longleftrightarrow>
     (let b = pl_book (sw_pipe s); items = mpsc_items (pl_queue (sw_pipe s))
      in mpsc_inv (pl_queue (sw_pipe s)) \<and> plain_book b \<and> book_liq b \<le> length cs \<and>
         abs_book b = fold ex_apply cs (abs_book (new_book 65536 Pool)) \<and>
         pl_applied (sw_pipe s) = of_nat (length cs) \<and>
         length cs + length items = sum_list (sw_next s) \<and> (\<forall>c \<in> set items. ic_qty c = 1) \<and>
         (\<forall>p < length (sw_next s). sw_next s ! p \<le> ops \<and>
            filter (from_producer p) (cs @ items) = map (\<lambda>i. make_cmd p i 1) [0..<sw_next s ! p]))"

definition sw_control :: "nat \<Rightarrow> ingress_cmd list \<Rightarrow> single_writer \<Rightarrow> bool" where
  "sw_control ops cs s \<longleftrightarrow>
     (sw_main s \<noteq> Joining \<longrightarrow> (\<forall>p < length (sw_next s). ops \<le> sw_next s ! p)) \<and>
     (sw_go s \<longleftrightarrow> sw_main s = Joining \<or> sw_main s = Waiting) \<and>
     (\<not> sw_go s \<longrightarrow> mpsc_items (pl_queue (sw_pipe s)) = []) \<and>
     (sw_cons s = Stopped \<longrightarrow> \<not> sw_go s) \<and>
     (\<forall>v. sw_main s = Finished v \<longrightarrow> sw_cons s = Stopped \<and> v = of_nat (length cs))"

definition sw_inv :: "nat \<Rightarrow> nat \<Rightarrow> single_writer \<Rightarrow> bool" where
  "sw_inv nprod ops s \<longleftrightarrow>
     length (sw_next s) = nprod \<and> (\<exists>cs. sw_data ops cs s \<and> sw_control ops cs s)"

lemma sw_start_inv: "sw_inv nprod ops (sw_start nprod)"
proof -
  have "pow_cap k_ingress_cap" unfolding pow_cap_def k_ingress_cap_def by (intro exI [of _ 16]) simp
  note q = mpsc_new_queue [OF this, of new_cmd]
  have plain: "plain_book (new_book 65536 Pool)"
    by (simp add: plain_book_def new_book_inv) (simp add: new_book_def new_pool_def)
  have "book_liq (new_book 65536 Pool) = 0"
    by (simp add: book_liq_def new_book_view)
  then have "sw_data ops [] (sw_start nprod)"
    using q plain by (simp add: sw_data_def sw_start_def new_pipeline_def Let_def)
  moreover have "sw_control ops [] (sw_start nprod)" by (simp add: sw_control_def sw_start_def)
  ultimately show ?thesis by (auto simp: sw_inv_def) (simp add: sw_start_def)
qed

lemma sum_list_below:
  "(\<forall>p < length xs. xs ! p \<le> c) \<Longrightarrow> sum_list xs \<le> length xs * (c :: nat)"
  by (rule sum_list_le_const) (auto simp: in_set_conv_nth)

lemma sw_dataD:
  assumes "sw_data ops cs s"
  shows "mpsc_inv (pl_queue (sw_pipe s))" "plain_book (pl_book (sw_pipe s))"
    "book_liq (pl_book (sw_pipe s)) \<le> length cs"
    "abs_book (pl_book (sw_pipe s)) = fold ex_apply cs (abs_book (new_book 65536 Pool))"
    "pl_applied (sw_pipe s) = of_nat (length cs)"
    "length cs + length (mpsc_items (pl_queue (sw_pipe s))) = sum_list (sw_next s)"
    "c \<in> set (mpsc_items (pl_queue (sw_pipe s))) \<Longrightarrow> ic_qty c = 1"
    "p < length (sw_next s) \<Longrightarrow> sw_next s ! p \<le> ops"
    "p < length (sw_next s) \<Longrightarrow> filter (from_producer p) (cs @ mpsc_items (pl_queue (sw_pipe s))) =
       map (\<lambda>i. make_cmd p i 1) [0..<sw_next s ! p]"
    "length cs + length (mpsc_items (pl_queue (sw_pipe s))) \<le> length (sw_next s) * ops"
proof -
  note d = assms [unfolded sw_data_def Let_def]
  show "length cs + length (mpsc_items (pl_queue (sw_pipe s))) \<le> length (sw_next s) * ops"
    using d sum_list_below [of "sw_next s" ops] by simp
qed (use assms in \<open>auto simp: sw_data_def Let_def simp del: filter_append\<close>)

lemma sum_list_bump:
  "p < length xs \<Longrightarrow> sum_list (xs[p := Suc (xs ! p)]) = Suc (sum_list (xs :: nat list))"
  by (induction xs arbitrary: p) (auto simp: nth_Cons' split: nat.split)

lemma producer_inv:
  assumes inv: "sw_inv nprod ops s" and small: "nprod < 2 ^ 31"
  shows "\<exists>s'. producer_step ops p s = Some s' \<and> sw_inv nprod ops s' \<and>
    (p < nprod \<and> sw_next s ! p < ops \<and> mpsc_items (pl_queue (sw_pipe s)) = [] \<longrightarrow>
       sum_list (sw_next s') = Suc (sum_list (sw_next s)) \<and> 
       length (mpsc_items (pl_queue (sw_pipe s'))) = 1 \<and> sw_main s' = sw_main s)"
proof -
  from inv obtain cs where len: "length (sw_next s) = nprod" and d: "sw_data ops cs s"
    and c: "sw_control ops cs s" by (auto simp: sw_inv_def)
  let ?q = "pl_queue (sw_pipe s)" and ?i = "sw_next s ! p"
  show ?thesis
  proof (cases "p < nprod \<and> ?i < ops")
    case False
    then show ?thesis using inv by (auto simp: producer_step_def len)
  next
    case True
    note q = sw_dataD [OF d]
    show ?thesis
    proof (cases "mpsc_room ?q = 0")
      case True
      from submit_full [OF q(1) this] have "producer_step ops p s = Some s"
        using \<open>p < nprod \<and> ?i < ops\<close> by (simp add: producer_step_def len)
      then show ?thesis using inv True empty_has_room [OF q(1)] by auto
    next
      case False
      then obtain q' where q': "try_submit (make_cmd p ?i 1) (sw_pipe s) = Some (True, (sw_pipe s)\<lparr>pl_queue := q'\<rparr>)"
        "mpsc_inv q'" "mpsc_items q' = mpsc_items ?q @ [make_cmd p ?i 1]"
        using submit_ok [OF q(1), of "make_cmd p ?i 1"] by blast
      let ?s = "s\<lparr>sw_pipe := (sw_pipe s)\<lparr>pl_queue := q'\<rparr>, sw_next := (sw_next s)[p := ?i + 1]\<rparr>"
      have run: "producer_step ops p s = Some ?s"
        using True q'(1) by (simp add: producer_step_def len)
      have bump: "sum_list (sw_next ?s) = Suc (sum_list (sw_next s))"
        using True sum_list_bump [of p "sw_next s"] len by simp
      have who: "from_producer p' (make_cmd p ?i 1) \<longleftrightarrow> p' = p" if "p' < nprod" for p'
        using that True small from_producer_iff [of p' p] by auto
      have fil: "filter (from_producer p') (cs @ mpsc_items q') =
          map (\<lambda>i. make_cmd p' i 1) [0..<sw_next ?s ! p']" if "p' < nprod" for p'
        using q(9) [of p'] that True who [OF that] by (cases "p' = p") (simp_all add: len q'(3))
      have "sw_data ops cs ?s"
        unfolding sw_data_def Let_def
      proof (intro conjI allI impI)
        fix p' assume "p' < length (sw_next ?s)"
        then have p': "p' < nprod" by (simp add: len)
        show "sw_next ?s ! p' \<le> ops" using q(8) [of p'] p' True by (cases "p' = p") (simp_all add: len)
        show "filter (from_producer p') (cs @ mpsc_items (pl_queue (sw_pipe ?s))) =
            map (\<lambda>i. make_cmd p' i 1) [0..<sw_next ?s ! p']" using fil [OF p'] by simp
      qed (use q q' bump in \<open>auto simp: q'(3)\<close>)
      moreover have "sw_control ops cs ?s"
      proof -
        have join: "sw_main s = Joining"
          using c True len unfolding sw_control_def by (metis not_le)
        then show ?thesis using c by (auto simp: sw_control_def)
      qed
      ultimately have "sw_inv nprod ops ?s" using len by (auto simp: sw_inv_def)
      then show ?thesis using run bump by (intro exI [of _ ?s]) (simp add: q'(3))
    qed
  qed
qed

lemma applied_less:
  assumes "sw_data ops cs s" and "length (sw_next s) < 2 ^ 31" and "ops < 2 ^ 31"
  shows "pl_applied (sw_pipe s) < sw_total ops s \<longleftrightarrow> length cs < length (sw_next s) * ops"
    and "length (sw_next s) * ops < 2 ^ 62"
proof -
  have "length (sw_next s) * ops < 2 ^ 31 * 2 ^ 31" using assms(2,3) by (intro mult_strict_mono') simp_all
  then show small: "length (sw_next s) * ops < 2 ^ 62" by simp
  have "sw_total ops s = of_nat (length (sw_next s) * ops)" by (simp add: sw_total_def)
  moreover have word: "unat (of_nat n :: u64) = n" if "n < 2 ^ 62" for n using that by (intro unat_small) simp
  ultimately have "unat (sw_total ops s) = length (sw_next s) * ops" using small by (simp only: word)
  moreover have "length cs < 2 ^ 62" using small sw_dataD(10) [OF assms(1)] by linarith
  then have "unat (pl_applied (sw_pipe s)) = length cs" unfolding sw_dataD(5) [OF assms(1)] by (rule word)
  ultimately show "pl_applied (sw_pipe s) < sw_total ops s \<longleftrightarrow> length cs < length (sw_next s) * ops"
    by (simp only: word_less_nat_alt)
qed

text \<open>One command: it is popped, applied and counted.\<close>

lemma pop_apply:
  assumes d: "sw_data ops cs s" and small: "length (sw_next s) < 2 ^ 31" "ops < 2 ^ 31"
    and items: "mpsc_items (pl_queue (sw_pipe s)) = c # rest"
  obtains q pipe where "mpsc_try_pop (pl_queue (sw_pipe s)) = Some (c, q)"
    "pl_apply c ((sw_pipe s)\<lparr>pl_queue := q\<rparr>) = Some pipe" "mpsc_items (pl_queue pipe) = rest"
    "sw_data ops (cs @ [c]) (s\<lparr>sw_pipe := pipe, sw_cons := k\<rparr>)"
proof -
  note q = sw_dataD [OF d]
  from mpsc.pop_ok [OF q(1) items] obtain q' where q': "mpsc_try_pop (pl_queue (sw_pipe s)) = Some (c, q')"
    "mpsc_inv q'" "mpsc_items q' = rest" by blast
  have unit: "cmd_qty c \<le> 1" using q(7) [of c] by (intro cmd_qty_unit) (simp add: items)
  have "length cs < 2 ^ 62" using q(10) applied_less(2) [OF d small] by linarith
  then have "book_liq (pl_book (sw_pipe s)) + cmd_qty c < 2 ^ 63" using q(3) unit by simp
  from apply_cmd_ok [OF q(2) this] obtain b where b: "apply_cmd c (pl_book (sw_pipe s)) = Some b"
    "plain_book b" "book_liq b \<le> book_liq (pl_book (sw_pipe s)) + cmd_qty c"
    "abs_book b = ex_apply c (abs_book (pl_book (sw_pipe s)))" by blast
  let ?pipe = "(sw_pipe s)\<lparr>pl_queue := q', pl_book := b, pl_applied := pl_applied (sw_pipe s) + 1\<rparr>"
  have run: "pl_apply c ((sw_pipe s)\<lparr>pl_queue := q'\<rparr>) = Some ?pipe" using b(1) by (simp add: pl_apply_def)
  have "sw_data ops (cs @ [c]) (s\<lparr>sw_pipe := ?pipe, sw_cons := k\<rparr>)"
    unfolding sw_data_def Let_def
  proof (intro conjI allI impI)
    fix p assume "p < length (sw_next (s\<lparr>sw_pipe := ?pipe, sw_cons := k\<rparr>))"
    then show "filter (from_producer p) ((cs @ [c]) @ mpsc_items (pl_queue (sw_pipe (s\<lparr>sw_pipe := ?pipe, sw_cons := k\<rparr>)))) =
        map (\<lambda>i. make_cmd p i 1) [0..<sw_next (s\<lparr>sw_pipe := ?pipe, sw_cons := k\<rparr>) ! p]"
      using q(9) [of p] by (simp add: q'(3) items)
  qed (use q q' b unit items in \<open>auto\<close>)
  with q' run show thesis by (intro that [of q' ?pipe]) simp_all
qed

lemma consumer_pops:
  assumes inv: "sw_inv nprod ops s" and small: "nprod < 2 ^ 31" "ops < 2 ^ 31"
    and pc: "sw_cons s = Draining n" "n < 128" and items: "mpsc_items (pl_queue (sw_pipe s)) = c # rest"
  shows "\<exists>s'. consumer_step ops s = Some s' \<and> sw_inv nprod ops s' \<and>
    mpsc_items (pl_queue (sw_pipe s')) = rest \<and> sw_next s' = sw_next s \<and> sw_main s' = sw_main s"
proof -
  from inv obtain cs where len: "length (sw_next s) = nprod" and d: "sw_data ops cs s"
    and c: "sw_control ops cs s" by (auto simp: sw_inv_def)
  obtain q pipe where q: "mpsc_try_pop (pl_queue (sw_pipe s)) = Some (c, q)"
    "pl_apply c ((sw_pipe s)\<lparr>pl_queue := q\<rparr>) = Some pipe" "mpsc_items (pl_queue pipe) = rest"
    "sw_data ops (cs @ [c]) (s\<lparr>sw_pipe := pipe, sw_cons := Draining (n + 1)\<rparr>)"
    using pop_apply [OF d _ small(2) items, of "Draining (n + 1)"] small(1) len by blast
  let ?s = "s\<lparr>sw_pipe := pipe, sw_cons := Draining (n + 1)\<rparr>"
  have "sw_control ops (cs @ [c]) ?s" using c items pc by (auto simp: sw_control_def)
  then have "sw_inv nprod ops ?s" using q(4) len by (auto simp: sw_inv_def)
  then show ?thesis using q pc by (intro exI [of _ ?s]) (simp add: consumer_step_def)
qed

lemma consumer_turns:
  assumes inv: "sw_inv nprod ops s" and small: "nprod < 2 ^ 31" "ops < 2 ^ 31"
    and pc: "\<And>n. sw_cons s = Draining n \<Longrightarrow> 128 \<le> n \<or> mpsc_items (pl_queue (sw_pipe s)) = []"
  shows "\<exists>s'. consumer_step ops s = Some s' \<and> sw_inv nprod ops s' \<and>
    mpsc_items (pl_queue (sw_pipe s')) = mpsc_items (pl_queue (sw_pipe s)) \<and> sw_next s' = sw_next s \<and>
    sw_main s' = sw_main s \<and>
    sw_cons s' = (case sw_cons s of
       Loop_Test \<Rightarrow> if sw_go s then Draining 0 else Stopped | Draining n \<Rightarrow> Loop_Test | Stopped \<Rightarrow> Stopped)"
proof -
  from inv obtain cs where len: "length (sw_next s) = nprod" and d: "sw_data ops cs s"
    and c: "sw_control ops cs s" by (auto simp: sw_inv_def)
  have same: "sw_data ops cs (s\<lparr>sw_cons := k\<rparr>)" for k using d by (simp add: sw_data_def Let_def)
  show ?thesis
  proof (cases "sw_cons s")
    case Loop_Test
    have go: "pl_applied (sw_pipe s) < sw_total ops s \<Longrightarrow> sw_go s"
    proof (rule ccontr)
      assume less: "pl_applied (sw_pipe s) < sw_total ops s" and stop: "\<not> sw_go s"
      then have "length cs < nprod * ops" using applied_less(1) [OF d] small len by simp
      moreover have "mpsc_items (pl_queue (sw_pipe s)) = []" "\<forall>p < nprod. ops \<le> sw_next s ! p"
        using c stop len by (auto simp: sw_control_def)
      moreover have "sum_list (sw_next s) = (\<Sum>p < nprod. sw_next s ! p)"
        by (simp add: sum_list_nth len)
      moreover have "(\<Sum>p < nprod. ops) \<le> (\<Sum>p < nprod. sw_next s ! p)"
        using calculation(3) by (intro sum_mono) simp
      ultimately show False using sw_dataD(6) [OF d] by simp
    qed
    let ?s = "s\<lparr>sw_cons := if sw_go s then Draining 0 else Stopped\<rparr>"
    have "sw_control ops cs ?s" using c Loop_Test by (auto simp: sw_control_def)
    then have "sw_inv nprod ops ?s" unfolding sw_inv_def using same len by (intro conjI exI [of _ cs]) simp_all
    moreover have "consumer_step ops s = Some ?s"
      using Loop_Test go by (auto simp: consumer_step_def)
    ultimately show ?thesis using Loop_Test by (intro exI [of _ ?s]) simp
  next
    case (Draining n)
    have pop: "(if n < 128 then mpsc_try_pop (pl_queue (sw_pipe s)) else None) = None"
      using pc [OF Draining] mpsc.pop_empty [OF sw_dataD(1) [OF d]] by auto
    define pipe where "pipe = (if n \<noteq> 0 then publish_quote (sw_pipe s) else sw_pipe s)"
    have pipe: "pl_queue pipe = pl_queue (sw_pipe s)" "pl_book pipe = pl_book (sw_pipe s)"
      "pl_applied pipe = pl_applied (sw_pipe s)" by (simp_all add: pipe_def publish_quote_def)
    let ?s = "s\<lparr>sw_pipe := pipe, sw_cons := Loop_Test\<rparr>"
    have "sw_data ops cs ?s" using d by (simp add: sw_data_def Let_def pipe)
    moreover have "sw_control ops cs ?s" using c Draining by (auto simp: sw_control_def pipe)
    ultimately have "sw_inv nprod ops ?s" using len by (auto simp: sw_inv_def)
    moreover have "consumer_step ops s = Some ?s"
      using Draining pop by (simp add: consumer_step_def pipe_def)
    ultimately show ?thesis using Draining by (intro exI [of _ ?s]) (simp add: pipe)
  next
    case Stopped
    then show ?thesis using inv by (simp add: consumer_step_def)
  qed
qed

lemma main_inv:
  assumes inv: "sw_inv nprod ops s" and small: "nprod < 2 ^ 31" "ops < 2 ^ 31"
  shows "sw_inv nprod ops (main_step ops s)"
proof -
  from inv obtain cs where len: "length (sw_next s) = nprod" and d: "sw_data ops cs s"
    and c: "sw_control ops cs s" by (auto simp: sw_inv_def)
  have same: "sw_data ops cs (s\<lparr>sw_main := m\<rparr>)" "sw_data ops cs (s\<lparr>sw_go := g, sw_main := m\<rparr>)" for m g
    using d by (simp_all add: sw_data_def Let_def)
  have "sw_data ops cs (main_step ops s)" using same d by (simp add: main_step_def split: main_pc.split)
  moreover have "sw_control ops cs (main_step ops s)"
  proof (cases "sw_main s")
    case Waiting
    have "mpsc_items (pl_queue (sw_pipe s)) = []" if "\<not> pl_applied (sw_pipe s) < sw_total ops s"
    proof -
      have "\<not> length cs < nprod * ops" using that applied_less(1) [OF d] small len by simp
      then have "length (mpsc_items (pl_queue (sw_pipe s))) = 0" using sw_dataD(10) [OF d, unfolded len] by linarith
      then show ?thesis by simp
    qed
    then show ?thesis using c Waiting by (auto simp: main_step_def sw_control_def)
  qed (use c in \<open>auto simp: main_step_def sw_control_def list_all_length sw_dataD(5) [OF d]\<close>)
  moreover have "length (sw_next (main_step ops s)) = nprod"
    using len by (simp add: main_step_def split: main_pc.split)
  ultimately show ?thesis by (auto simp: sw_inv_def)
qed

lemma sw_step_inv:
  assumes inv: "sw_inv nprod ops s" and small: "nprod < 2 ^ 31" "ops < 2 ^ 31"
  shows "\<exists>s'. sw_step ops t s = Some s' \<and> sw_inv nprod ops s'"
proof (cases t)
  case (Producer p)
  then show ?thesis using producer_inv [OF inv small(1), of p] by (auto simp: sw_step_def)
next
  case Consumer
  show ?thesis
  proof (cases "\<exists>n c rest. sw_cons s = Draining n \<and> n < 128 \<and> mpsc_items (pl_queue (sw_pipe s)) = c # rest")
    case True
    then show ?thesis using consumer_pops [OF inv small] Consumer by (fastforce simp: sw_step_def)
  next
    case False
    then have "128 \<le> n \<or> mpsc_items (pl_queue (sw_pipe s)) = []" if "sw_cons s = Draining n" for n
      using that by (cases "mpsc_items (pl_queue (sw_pipe s))") auto
    from consumer_turns [OF inv small this] Consumer show ?thesis by (auto simp: sw_step_def)
  qed
next
  case Main
  then show ?thesis using main_inv [OF inv small] by (simp add: sw_step_def)
qed

lemma sw_exec_inv:
  assumes "nprod < 2 ^ 31" and "ops < 2 ^ 31"
  shows "sw_inv nprod ops s \<Longrightarrow> \<exists>s'. sw_exec ops sched s = Some s' \<and> sw_inv nprod ops s'"
proof (induction sched arbitrary: s)
  case (Cons t ts)
  then show ?case using sw_step_inv [OF Cons.prems assms, of t] by fastforce
qed simp

subsection \<open>Nothing is lost\<close>

lemma sw_final:
  assumes small: "nprod < 2 ^ 31" "ops < 2 ^ 31"
    and run: "sw_exec ops sched (sw_start nprod) = Some s" and fin: "sw_main s = Finished v"
  obtains cs where "v = of_nat nprod * of_nat ops" "length cs = nprod * ops"
    "\<And>p. p < nprod \<Longrightarrow> filter (from_producer p) cs = map (\<lambda>i. make_cmd p i 1) [0..<ops]"
    "abs_book (pl_book (sw_pipe s)) = fold ex_apply cs (abs_book (new_book 65536 Pool))"
proof -
  from sw_exec_inv [OF small sw_start_inv, of sched] run have inv: "sw_inv nprod ops s" by simp
  from inv obtain cs where len: "length (sw_next s) = nprod" and d: "sw_data ops cs s"
    and c: "sw_control ops cs s" by (auto simp: sw_inv_def)
  have all: "\<forall>p < nprod. sw_next s ! p = ops" and items: "mpsc_items (pl_queue (sw_pipe s)) = []"
    and v: "v = of_nat (length cs)"
    using c fin sw_dataD(8) [OF d] len by (auto simp: sw_control_def le_antisym)
  have "sw_next s = replicate nprod ops" using all len by (intro nth_equalityI) simp_all
  then have "length cs = nprod * ops" using sw_dataD(6) [OF d] items by (simp add: sum_list_replicate)
  then show thesis using v all items len sw_dataD(4,9) [OF d] by (intro that [of cs]) auto
qed

text \<open>C32. However the threads are scheduled, the single-writer run loses nothing: no step fails to
  return, and when the main thread reads the count, every command of every producer has been
  applied, once, each producer's in its order, the book is the one the exchange specifies
  for the order in which they were applied, and the count is the number the program expects.\<close>
theorem single_writer_loses_nothing:
  assumes "nprod < 2 ^ 31" and "ops < 2 ^ 31"
  shows "\<exists>s. sw_exec ops sched (sw_start nprod) = Some s \<and>
    (\<forall>v. sw_main s = Finished v \<longrightarrow> v = of_nat nprod * of_nat ops \<and>
       (\<exists>cs. length cs = nprod * ops \<and>
          (\<forall>p < nprod. filter (from_producer p) cs = map (\<lambda>i. make_cmd p i 1) [0..<ops]) \<and>
          abs_book (pl_book (sw_pipe s)) = fold ex_apply cs (abs_book (new_book 65536 Pool))))"
proof -
  from sw_exec_inv [OF assms sw_start_inv, of sched] obtain s where
    run: "sw_exec ops sched (sw_start nprod) = Some s" by blast
  show ?thesis
  proof (intro exI [of _ s] conjI allI impI run)
    fix v assume "sw_main s = Finished v"
    then show "v = of_nat nprod * of_nat ops" "\<exists>cs. length cs = nprod * ops \<and>
        (\<forall>p < nprod. filter (from_producer p) cs = map (\<lambda>i. make_cmd p i 1) [0..<ops]) \<and>
        abs_book (pl_book (sw_pipe s)) = fold ex_apply cs (abs_book (new_book 65536 Pool))"
      using sw_final [OF assms run] by metis+
  qed
qed

subsection \<open>The run can always finish\<close>

definition main_rank :: "main_pc \<Rightarrow> nat" where
  "main_rank m = (case m of Joining \<Rightarrow> 3 | Waiting \<Rightarrow> 2 | Join_Consumer \<Rightarrow> 1 | Finished v \<Rightarrow> 0)"

definition sw_rest :: "nat \<Rightarrow> nat \<Rightarrow> single_writer \<Rightarrow> nat" where
  "sw_rest nprod ops s = 2 * (nprod * ops - sum_list (sw_next s)) +
     length (mpsc_items (pl_queue (sw_pipe s))) + main_rank (sw_main s)"

lemma sw_exec_append:
  "sw_exec ops (xs @ ys) s = Option.bind (sw_exec ops xs s) (sw_exec ops ys)"
  by (induction xs arbitrary: s) (auto split: bind_splits simp: bind_eq_Some_conv)

text \<open>With a command in the ring and the consumer not stopped, the consumer comes to apply it.\<close>

lemma consumer_reaches:
  assumes inv: "sw_inv nprod ops s" and small: "nprod < 2 ^ 31" "ops < 2 ^ 31"
    and items: "mpsc_items (pl_queue (sw_pipe s)) = c # rest"
  shows "\<exists>ts s'. length ts \<le> 3 \<and> sw_exec ops ts s = Some s' \<and> sw_inv nprod ops s' \<and>
    mpsc_items (pl_queue (sw_pipe s')) = rest \<and> sw_next s' = sw_next s \<and> sw_main s' = sw_main s"
proof -
  have go: "sw_go s" "sw_cons s \<noteq> Stopped" using inv items by (auto simp: sw_inv_def sw_control_def)
  have pops: "\<exists>ts t'. length ts \<le> 1 \<and> sw_exec ops ts t = Some t' \<and> sw_inv nprod ops t' \<and>
      mpsc_items (pl_queue (sw_pipe t')) = rest \<and> sw_next t' = sw_next s \<and> sw_main t' = sw_main s"
    if "sw_inv nprod ops t" "mpsc_items (pl_queue (sw_pipe t)) = c # rest" "sw_next t = sw_next s"
      "sw_main t = sw_main s" "sw_cons t = Draining n" "n < 128" for t n
    using consumer_pops [OF that(1) small that(5,6,2)] that(3,4)
    by (intro exI [of _ "[Consumer]"]) (auto simp: sw_step_def)
  have turn: "\<exists>t'. consumer_step ops t = Some t' \<and> sw_inv nprod ops t' \<and>
      mpsc_items (pl_queue (sw_pipe t')) = c # rest \<and> sw_next t' = sw_next s \<and> sw_main t' = sw_main s \<and>
      sw_cons t' = (case sw_cons t of
         Loop_Test \<Rightarrow> if sw_go t then Draining 0 else Stopped | Draining n \<Rightarrow> Loop_Test | Stopped \<Rightarrow> Stopped)"
    if "sw_inv nprod ops t" "mpsc_items (pl_queue (sw_pipe t)) = c # rest" "sw_next t = sw_next s"
      "sw_main t = sw_main s" "\<And>n. sw_cons t = Draining n \<Longrightarrow> 128 \<le> n" for t
    using consumer_turns [OF that(1) small] that by fastforce
  have test: "\<exists>ts t'. length ts \<le> 2 \<and> sw_exec ops ts t = Some t' \<and> sw_inv nprod ops t' \<and>
      mpsc_items (pl_queue (sw_pipe t')) = rest \<and> sw_next t' = sw_next s \<and> sw_main t' = sw_main s"
    if t: "sw_inv nprod ops t" "mpsc_items (pl_queue (sw_pipe t)) = c # rest" "sw_next t = sw_next s"
      "sw_main t = sw_main s" "sw_cons t = Loop_Test" for t
  proof -
    have "sw_go t" using t(1,2) by (auto simp: sw_inv_def sw_control_def)
    with turn [OF t(1-4)] t(5) obtain t1 where t1: "consumer_step ops t = Some t1" "sw_inv nprod ops t1"
      "mpsc_items (pl_queue (sw_pipe t1)) = c # rest" "sw_next t1 = sw_next s" "sw_main t1 = sw_main s"
      "sw_cons t1 = Draining 0" by auto
    from pops [OF t1(2-6)] obtain ts t' where "length ts \<le> 1" "sw_exec ops ts t1 = Some t'" "sw_inv nprod ops t'"
      "mpsc_items (pl_queue (sw_pipe t')) = rest" "sw_next t' = sw_next s" "sw_main t' = sw_main s" by auto
    then show ?thesis using t1(1) by (intro exI [of _ "Consumer # ts"]) (auto simp: sw_step_def)
  qed
  show ?thesis
  proof (cases "sw_cons s")
    case Loop_Test
    from test [OF inv items refl refl Loop_Test] obtain ts t' where "length ts \<le> 2" "sw_exec ops ts s = Some t'"
      "sw_inv nprod ops t'" "mpsc_items (pl_queue (sw_pipe t')) = rest" "sw_next t' = sw_next s" "sw_main t' = sw_main s"
      by blast
    then show ?thesis by (intro exI [of _ ts] exI [of _ t']) simp
  next
    case (Draining n)
    show ?thesis
    proof (cases "n < 128")
      case True
      from pops [OF inv items refl refl Draining True] obtain ts t' where "length ts \<le> 1"
        "sw_exec ops ts s = Some t'" "sw_inv nprod ops t'" "mpsc_items (pl_queue (sw_pipe t')) = rest"
        "sw_next t' = sw_next s" "sw_main t' = sw_main s" by blast
      then show ?thesis by (intro exI [of _ ts] exI [of _ t']) simp
    next
      case False
      with turn [OF inv items] Draining obtain t1 where t1: "consumer_step ops s = Some t1" "sw_inv nprod ops t1"
        "mpsc_items (pl_queue (sw_pipe t1)) = c # rest" "sw_next t1 = sw_next s" "sw_main t1 = sw_main s"
        "sw_cons t1 = Loop_Test" by auto
      from test [OF t1(2-6)] obtain ts t' where "length ts \<le> 2" "sw_exec ops ts t1 = Some t'" "sw_inv nprod ops t'"
        "mpsc_items (pl_queue (sw_pipe t')) = rest" "sw_next t' = sw_next s" "sw_main t' = sw_main s" by auto
      then show ?thesis using t1(1) by (intro exI [of _ "Consumer # ts"]) (auto simp: sw_step_def)
    qed
  next
    case Stopped
    with go show ?thesis by simp
  qed
qed

lemma main_progress:
  assumes inv: "sw_inv nprod ops s" and small: "nprod < 2 ^ 31" "ops < 2 ^ 31"
    and items: "mpsc_items (pl_queue (sw_pipe s)) = []" and sent: "\<forall>p < nprod. ops \<le> sw_next s ! p"
    and ready: "sw_main s = Join_Consumer \<longrightarrow> sw_cons s = Stopped" and busy: "\<forall>v. sw_main s \<noteq> Finished v"
  shows "sw_rest nprod ops (main_step ops s) < sw_rest nprod ops s"
proof -
  from inv obtain cs where len: "length (sw_next s) = nprod" and d: "sw_data ops cs s"
    by (auto simp: sw_inv_def)
  have "(\<Sum>p < nprod. ops) \<le> (\<Sum>p < nprod. sw_next s ! p)" using sent by (intro sum_mono) simp
  then have "nprod * ops \<le> length cs" using sw_dataD(6) [OF d] items by (simp add: sum_list_nth len)
  then have "\<not> pl_applied (sw_pipe s) < sw_total ops s" using applied_less(1) [OF d] small len by simp
  moreover have "list_all (\<lambda>i. ops \<le> i) (sw_next s)" using sent len by (simp add: list_all_length)
  ultimately show ?thesis
    using ready busy by (cases "sw_main s") (auto simp: main_step_def sw_rest_def main_rank_def)
qed

lemma consumer_stops:
  assumes inv: "sw_inv nprod ops s" and small: "nprod < 2 ^ 31" "ops < 2 ^ 31"
    and main: "sw_main s = Join_Consumer"
  shows "\<exists>ts s'. length ts \<le> 2 \<and> sw_exec ops ts s = Some s' \<and> sw_inv nprod ops s' \<and> sw_cons s' = Stopped \<and>
    sw_main s' = Join_Consumer \<and> sw_next s' = sw_next s \<and> mpsc_items (pl_queue (sw_pipe s')) = []"
proof -
  have shape: "\<not> sw_go t" "mpsc_items (pl_queue (sw_pipe t)) = []"
    if "sw_inv nprod ops t" "sw_main t = Join_Consumer" for t
    using that by (auto simp: sw_inv_def sw_control_def)
  have test: "\<exists>t'. consumer_step ops t = Some t' \<and> sw_inv nprod ops t' \<and> sw_cons t' = Stopped \<and>
      sw_main t' = Join_Consumer \<and> sw_next t' = sw_next t"
    if t: "sw_inv nprod ops t" "sw_main t = Join_Consumer" "sw_cons t = Loop_Test" for t
    using consumer_turns [OF t(1) small] shape [OF t(1,2)] t(2,3) by fastforce
  show ?thesis
  proof (cases "sw_cons s")
    case Loop_Test
    from test [OF inv main this] shape(2) show ?thesis
      by (intro exI [of _ "[Consumer]"]) (auto simp: sw_step_def)
  next
    case (Draining n)
    from consumer_turns [OF inv small] shape [OF inv main] Draining obtain t where t:
      "consumer_step ops s = Some t" "sw_inv nprod ops t" "sw_next t = sw_next s"
      "sw_main t = Join_Consumer" "sw_cons t = Loop_Test" using main by auto
    from test [OF t(2,4,5)] shape(2) show ?thesis using t(1,3)
      by (intro exI [of _ "[Consumer, Consumer]"]) (auto simp: sw_step_def)
  next
    case Stopped
    then show ?thesis using inv main shape [OF inv main] by (intro exI [of _ "[]"]) simp
  qed
qed

lemma sw_progress:
  assumes inv: "sw_inv nprod ops s" and small: "nprod < 2 ^ 31" "ops < 2 ^ 31"
    and busy: "\<forall>v. sw_main s \<noteq> Finished v"
  shows "\<exists>ts s'. length ts \<le> 3 \<and> sw_exec ops ts s = Some s' \<and> sw_inv nprod ops s' \<and>
    sw_rest nprod ops s' < sw_rest nprod ops s"
proof (cases "mpsc_items (pl_queue (sw_pipe s))")
  case (Cons c rest)
  from consumer_reaches [OF inv small Cons] show ?thesis by (fastforce simp: sw_rest_def Cons)
next
  case Nil
  from inv have len: "length (sw_next s) = nprod" by (simp add: sw_inv_def)
  show ?thesis
  proof (cases "\<exists>p < nprod. sw_next s ! p < ops")
    case True
    then obtain p where p: "p < nprod" "sw_next s ! p < ops" by blast
    from producer_inv [OF inv small(1), of p] p Nil obtain s' where s': "producer_step ops p s = Some s'"
      "sw_inv nprod ops s'" "sum_list (sw_next s') = Suc (sum_list (sw_next s))"
      "length (mpsc_items (pl_queue (sw_pipe s'))) = 1" "sw_main s' = sw_main s" by auto
    have "sum_list (sw_next s') \<le> nprod * ops"
      using s'(2) sum_list_below [of "sw_next s'" ops] by (auto simp: sw_inv_def sw_data_def Let_def)
    then have "sw_rest nprod ops s' < sw_rest nprod ops s" using s'(3-5) by (simp add: sw_rest_def Nil)
    then show ?thesis using s'(1,2) by (intro exI [of _ "[Producer p]"] exI [of _ s']) (simp add: sw_step_def)
  next
    case False
    then have sent: "\<forall>p < nprod. ops \<le> sw_next s ! p" by auto
    show ?thesis
    proof (cases "sw_main s = Join_Consumer")
      case True
      from consumer_stops [OF inv small True] obtain ts t where n: "length ts \<le> 2" and t: "sw_exec ops ts s = Some t"
        "sw_inv nprod ops t" "sw_cons t = Stopped" "sw_main t = Join_Consumer" "sw_next t = sw_next s"
        "mpsc_items (pl_queue (sw_pipe t)) = []" by blast
      have "sw_rest nprod ops (main_step ops t) < sw_rest nprod ops t"
        by (rule main_progress [OF t(2) small t(6)]) (use t sent in simp_all)
      moreover have "sw_rest nprod ops t = sw_rest nprod ops s" using t True Nil by (simp add: sw_rest_def)
      ultimately show ?thesis using main_inv [OF t(2) small] t(1) n
        by (intro exI [of _ "ts @ [Main]"] exI [of _ "main_step ops t"]) (simp add: sw_exec_append sw_step_def)
    next
      case False
      then show ?thesis using main_inv [OF inv small] main_progress [OF inv small Nil sent _ busy]
        by (intro exI [of _ "[Main]"] exI [of _ "main_step ops s"]) (simp add: sw_step_def)
    qed
  qed
qed

lemma sw_finishes:
  assumes small: "nprod < 2 ^ 31" "ops < 2 ^ 31"
  shows "sw_inv nprod ops s \<Longrightarrow> \<exists>ts s' v. length ts \<le> 3 * sw_rest nprod ops s \<and>
    sw_exec ops ts s = Some s' \<and> sw_main s' = Finished v"
proof (induction "sw_rest nprod ops s" arbitrary: s rule: less_induct)
  case less
  show ?case
  proof (cases "\<exists>v. sw_main s = Finished v")
    case True
    then show ?thesis by (intro exI [of _ "[]"]) auto
  next
    case False
    with sw_progress [OF less.prems small] obtain ts s' where s': "length ts \<le> 3" "sw_exec ops ts s = Some s'"
      "sw_inv nprod ops s'" "sw_rest nprod ops s' < sw_rest nprod ops s" by blast
    from less.hyps [OF s'(4,3)] obtain ts' s'' v where "length ts' \<le> 3 * sw_rest nprod ops s'"
      "sw_exec ops ts' s' = Some s''" "sw_main s'' = Finished v" by blast
    then show ?thesis using s'(1,2,4)
      by (intro exI [of _ "ts @ ts'"] exI [of _ s''] exI [of _ v]) (simp add: sw_exec_append)
  qed
qed

text \<open>Each command still to be submitted costs two, each in the ring one.\<close>

lemma sw_rest_bound:
  assumes "sw_inv nprod ops s"
  shows "sw_rest nprod ops s \<le> 2 * nprod * ops + 3"
proof -
  from assms obtain cs where len: "length (sw_next s) = nprod" and d: "sw_data ops cs s" by (auto simp: sw_inv_def)
  have "length (mpsc_items (pl_queue (sw_pipe s))) \<le> sum_list (sw_next s)" "sum_list (sw_next s) \<le> nprod * ops"
    using sw_dataD(6,10) [OF d] len by simp_all
  moreover have "main_rank (sw_main s) \<le> 3" by (simp add: main_rank_def split: main_pc.split)
  ultimately show ?thesis by (simp add: sw_rest_def)
qed

lemma sw_completes:
  assumes small: "nprod < 2 ^ 31" "ops < 2 ^ 31"
  shows "\<exists>ts s. length ts \<le> 6 * nprod * ops + 9 \<and> sw_exec ops (sched @ ts) (sw_start nprod) = Some s \<and>
    sw_main s = Finished (of_nat nprod * of_nat ops)"
proof -
  from sw_exec_inv [OF assms sw_start_inv, of sched] obtain s where
    s: "sw_exec ops sched (sw_start nprod) = Some s" "sw_inv nprod ops s" by blast
  from sw_finishes [OF assms s(2)] obtain ts s' v where fin: "length ts \<le> 3 * sw_rest nprod ops s"
    "sw_exec ops ts s = Some s'" "sw_main s' = Finished v" by blast
  have run: "sw_exec ops (sched @ ts) (sw_start nprod) = Some s'" using s(1) fin(2) by (simp add: sw_exec_append)
  have "v = of_nat nprod * of_nat ops" by (rule sw_final [OF assms run fin(3)])
  moreover have "length ts \<le> 6 * nprod * ops + 9" using fin(1) sw_rest_bound [OF s(2)] by simp
  ultimately show ?thesis using run fin(3) by blast
qed

theorem single_writer_loses_nothing_witness:
  "\<exists>ts s. sw_exec 3 ([Producer 1, Consumer, Producer 0] @ ts) (sw_start 2) = Some s \<and> sw_main s = Finished 6 \<and>
     (\<exists>cs. length cs = 6 \<and> filter (from_producer 1) cs = map (\<lambda>i. make_cmd 1 i 1) [0..<3])"
proof -
  have small: "(2 :: nat) < 2 ^ 31" "(3 :: nat) < 2 ^ 31" by simp_all
  from sw_completes [OF small, of "[Producer 1, Consumer, Producer 0]"] obtain ts s where
    s: "sw_exec 3 ([Producer 1, Consumer, Producer 0] @ ts) (sw_start 2) = Some s" "sw_main s = Finished 6" by auto
  with single_writer_loses_nothing [OF small, of "[Producer 1, Consumer, Producer 0] @ ts"] obtain cs where
    "length cs = 2 * 3" "\<forall>p < 2. filter (from_producer p) cs = map (\<lambda>i. make_cmd p i 1) [0..<3]" by auto
  then have "length cs = 6 \<and> filter (from_producer 1) cs = map (\<lambda>i. make_cmd 1 i 1) [0..<3]" by simp
  with s show ?thesis by blast
qed

lemma run_single_ok:
  assumes "nprod < 2 ^ 31" and "ops < 2 ^ 31"
  shows "run_single_writer nprod ops sched samples sec = Unfinished \<or>
    run_single_writer nprod ops sched samples sec =
      Returned (bc_row ''single-writer+MPSC'' nprod ops samples sec (of_nat nprod * of_nat ops))"
proof -
  from sw_exec_inv [OF assms sw_start_inv, of sched] obtain s where
    s: "sw_exec ops sched (sw_start nprod) = Some s" by blast
  have "v = of_nat nprod * of_nat ops" if "sw_main s = Finished v" for v by (rule sw_final [OF assms s that])
  then show ?thesis using s by (simp add: run_single_writer_def split: main_pc.split)
qed

lemma run_single_completes:
  assumes "nprod < 2 ^ 31" and "ops < 2 ^ 31"
  shows "\<exists>ts. length ts \<le> 6 * nprod * ops + 9 \<and> run_single_writer nprod ops (sched @ ts) samples sec =
    Returned (bc_row ''single-writer+MPSC'' nprod ops samples sec (of_nat nprod * of_nat ops))"
  using sw_completes [OF assms, of sched] by (fastforce simp: run_single_writer_def)

text \<open>C33. The single-writer run is never stuck: whatever the schedule has done so far, at most six steps
  for each command and nine more continue it so that the main thread reads the count, and the row it
  then reports passes the check for lost updates.\<close>
theorem single_writer_finishes:
  assumes "nprod < 2 ^ 31" and "ops < 2 ^ 31"
  shows "\<exists>ts row. length ts \<le> 6 * nprod * ops + 9 \<and>
    run_single_writer nprod ops (sched @ ts) samples sec = Returned row \<and> lost_updates ops [row] = []"
proof -
  from run_single_completes [OF assms, of sched samples sec] obtain ts where "length ts \<le> 6 * nprod * ops + 9"
    "run_single_writer nprod ops (sched @ ts) samples sec =
       Returned (bc_row ''single-writer+MPSC'' nprod ops samples sec (of_nat nprod * of_nat ops))" by blast
  then show ?thesis by (intro exI [of _ ts]) (simp add: lost_updates_def bc_row_def split: prod.split)
qed

theorem single_writer_finishes_witness:
  "\<exists>ts row. length ts \<le> 45 \<and> run_single_writer 2 3 ([Producer 1, Consumer] @ ts) [[5], [7]] 1 = Returned row \<and>
     lost_updates 3 [row] = []"
  using single_writer_finishes [of 2 3 "[Producer 1, Consumer]" "[[5], [7]]" 1] by simp

end
