(* ===== verification/Bench_Contention.thy ===== *)
theory Bench_Contention
  imports Contention_Run
begin

section \<open>The contention benchmark: the sharded run, and the program\<close>

text \<open>
  The rest of bench/bench_contention.cpp: the producers on the sharded books, and \<open>main\<close>
  with its list of thread counts and its check for lost updates. Each run returns, is unfinished when its
  schedule ends, or is stuck in a call; the last never happens, and any schedule can be continued until
  the program returns.
\<close>

subsection \<open>The sharded run\<close>

text \<open>
  The commands in the order in which the producers get hold of the mutexes. A schedule names the
  producer whose submission is next; naming one that has finished, or no producer, does nothing.
  \<open>next_i\<close> holds the index of each producer's next command.
\<close>

primrec bc_commands :: "nat \<Rightarrow> nat \<Rightarrow> nat list \<Rightarrow> nat list \<Rightarrow> ingress_cmd list" where
  "bc_commands n_instruments ops [] next_i = []"
| "bc_commands n_instruments ops (p # ps) next_i =
     (if p < length next_i \<and> next_i ! p < ops then
        make_cmd p (next_i ! p) n_instruments #
          bc_commands n_instruments ops ps (next_i[p := next_i ! p + 1])
      else bc_commands n_instruments ops ps next_i)"

primrec bc_next :: "nat \<Rightarrow> nat list \<Rightarrow> nat list \<Rightarrow> nat list" where
  "bc_next ops [] next_i = next_i"
| "bc_next ops (p # ps) next_i =
     bc_next ops ps (if p < length next_i \<and> next_i ! p < ops then next_i[p := next_i ! p + 1] else next_i)"

text \<open>Every producer has submitted all its commands, as \<open>join\<close> waits for.\<close>

definition all_joined :: "nat \<Rightarrow> nat list \<Rightarrow> bool" where
  "all_joined ops next_i \<longleftrightarrow> list_all (\<lambda>i. ops \<le> i) next_i"

definition run_sharded ::
    "nat \<Rightarrow> nat \<Rightarrow> nat \<Rightarrow> nat list \<Rightarrow> u64 list list \<Rightarrow> real \<Rightarrow> bench_row outcome" where
  "run_sharded nprod ops nshards sched samples sec =
     (case sh_submit_all (bc_commands nshards ops sched (replicate nprod 0)) (new_shards nshards 16384) of
        None \<Rightarrow> Stuck
      | Some shs \<Rightarrow>
          if all_joined ops (bc_next ops sched (replicate nprod 0))
          then Returned (bc_row ''sharded-mutex'' nprod ops samples sec (sh_total shs))
          else Unfinished)"

lemma bc_next_length [simp]: "length (bc_next ops sched next_i) = length next_i"
  by (induction sched arbitrary: next_i) simp_all

lemma bc_next_le:
  "list_all (\<lambda>i. i \<le> ops) next_i \<Longrightarrow> list_all (\<lambda>i. i \<le> ops) (bc_next ops sched next_i)"
  by (induction sched arbitrary: next_i) (auto simp: list_all_length nth_list_update)

lemma bc_next_append: "bc_next ops (xs @ ys) next_i = bc_next ops ys (bc_next ops xs next_i)"
  by (induction xs arbitrary: next_i) simp_all

lemma bc_next_mono: "p < length next_i \<Longrightarrow> next_i ! p \<le> bc_next ops sched next_i ! p"
proof (induction sched arbitrary: next_i)
  case (Cons p' ps)
  from Cons.IH [of "if p' < length next_i \<and> next_i ! p' < ops then next_i[p' := next_i ! p' + 1] else next_i"]
  show ?case using Cons.prems by (auto simp: nth_list_update split: if_splits)
qed simp

lemma bc_commands_length:
  "sum_list (bc_next ops sched next_i) = sum_list next_i + length (bc_commands n ops sched next_i)"
  by (induction sched arbitrary: next_i) (simp_all add: sum_list_update elem_le_sum_list)

lemma bc_commands_qty:
  "sum_list (map cmd_qty (sh_cmds m k (bc_commands n ops sched next_i))) \<le> length (bc_commands n ops sched next_i)"
proof (induction sched arbitrary: next_i)
  case (Cons p ps)
  have "cmd_qty (make_cmd p (next_i ! p) n) \<le> 1" by (intro cmd_qty_unit) simp
  with Cons [of "next_i[p := next_i ! p + 1]"] Cons [of next_i] show ?case by (simp add: sh_cmds_def)
qed (simp add: sh_cmds_def)

lemma bc_commands_order:
  assumes "length next_i < 2 ^ 31"
  shows "p < length next_i \<Longrightarrow> filter (from_producer p) (bc_commands n ops sched next_i) =
    map (\<lambda>i. make_cmd p i n) [next_i ! p..<bc_next ops sched next_i ! p]"
  using assms
proof (induction sched arbitrary: next_i)
  case (Cons p' ps)
  show ?case
  proof (cases "p' < length next_i \<and> next_i ! p' < ops")
    case True
    have "from_producer p (make_cmd p' (next_i ! p') n) \<longleftrightarrow> p' = p"
      using Cons.prems True by (intro from_producer_iff) simp_all
    moreover have "next_i ! p < bc_next ops ps (next_i[p := next_i ! p + 1]) ! p"
      using bc_next_mono [of p "next_i[p := next_i ! p + 1]" ops ps] Cons.prems by simp
    ultimately show ?thesis using Cons.IH [of "next_i[p' := next_i ! p' + 1]"] Cons.prems True
      by (cases "p' = p") (simp_all add: upt_conv_Cons del: upt_Suc)
  next
    case False
    with Cons show ?thesis by auto
  qed
qed simp

text \<open>The producers can always go on: one entry of the schedule for each command still to be submitted.\<close>

lemma bc_next_completes:
  "list_all (\<lambda>i. i \<le> ops) next_i \<Longrightarrow>
    \<exists>us. length us + sum_list next_i \<le> length next_i * ops \<and> all_joined ops (bc_next ops us next_i)"
proof (induction "length next_i * ops - sum_list next_i" arbitrary: next_i rule: less_induct)
  case less
  have below: "sum_list next_i \<le> length next_i * ops"
    using less.prems by (intro sum_list_below) (simp add: list_all_length)
  show ?case
  proof (cases "all_joined ops next_i")
    case True
    with below show ?thesis by (intro exI [of _ "[]"]) simp
  next
    case False
    then obtain p where p: "p < length next_i" "next_i ! p < ops" by (auto simp: all_joined_def list_all_length)
    let ?m = "next_i[p := next_i ! p + 1]"
    have m: "list_all (\<lambda>i. i \<le> ops) ?m" using less.prems p by (auto simp: list_all_length nth_list_update)
    have sum: "sum_list ?m = sum_list next_i + 1" using p(1) by (simp add: sum_list_update elem_le_sum_list)
    have "sum_list ?m \<le> length ?m * ops" using m by (intro sum_list_below) (simp add: list_all_length)
    with sum have "length ?m * ops - sum_list ?m < length next_i * ops - sum_list next_i" by simp
    from less.hyps [OF this m] obtain us where "length us + sum_list ?m \<le> length ?m * ops"
      "all_joined ops (bc_next ops us ?m)" by blast
    with p sum show ?thesis by (intro exI [of _ "p # us"]) simp
  qed
qed

lemma all_joined_at:
  assumes "all_joined ops (bc_next ops sched (replicate nprod 0))"
  shows "bc_next ops sched (replicate nprod 0) = replicate nprod ops"
  using assms bc_next_le [of ops "replicate nprod 0" sched]
  by (intro nth_equalityI) (auto simp: all_joined_def list_all_length intro: antisym)

text \<open>
  Under any schedule no submission is stuck; once all producers are joined the total counts every
  command, each producer's in its order, and each shard holds the result of its own.
\<close>

lemma sharded_run:
  fixes sched :: "nat list"
  assumes small: "nprod < 2 ^ 31" "ops < 2 ^ 31" and shards: "0 < nshards"
  defines "cs \<equiv> bc_commands nshards ops sched (replicate nprod 0)"
    and "fin \<equiv> bc_next ops sched (replicate nprod 0)"
  obtains shs where "sh_submit_all cs (new_shards nshards 16384) = Some shs"
    "all_joined ops fin \<longrightarrow> sh_total shs = of_nat nprod * of_nat ops"
    "\<And>p. p < nprod \<Longrightarrow> filter (from_producer p) cs = map (\<lambda>i. make_cmd p i nshards) [0..<fin ! p]"
    "\<And>k. k < nshards \<Longrightarrow> abs_book (sh_book (shs ! k)) =
       fold ex_apply (sh_cmds nshards k cs) (abs_book (new_book 16384 Pool))"
proof -
  let ?shs = "new_shards nshards 16384"
  have plain: "plain_book (new_book 16384 Pool)"
    by (simp add: plain_book_def new_book_inv) (simp add: new_book_def new_pool_def)
  have len: "length ?shs = nshards" "?shs \<noteq> []" using shards by (auto simp: new_shards_def)
  have at: "?shs ! k = \<lparr>sh_book = new_book 16384 Pool, sh_applied = 0\<rparr>" if "k < nshards" for k
    using that by (simp add: new_shards_def)
  have count: "sum_list fin = length cs"
    using bc_commands_length [of ops sched "replicate nprod 0" nshards] by (simp add: fin_def cs_def sum_list_replicate)
  have "list_all (\<lambda>i. i \<le> ops) fin" unfolding fin_def by (rule bc_next_le) (simp add: list_all_length)
  then have "sum_list fin \<le> nprod * ops"
    using sum_list_below [of fin ops] by (simp add: list_all_length fin_def)
  moreover have "nprod * ops < 2 ^ 31 * 2 ^ 31" using small by (intro mult_strict_mono') simp_all
  ultimately have total: "length cs < 2 ^ 63" using count by simp
  have empty: "book_liq (new_book 16384 Pool) = 0" by (simp add: book_liq_def new_book_view)
  have ok: "\<forall>k < length ?shs. shard_ok (sum_list (map cmd_qty (sh_cmds (length ?shs) k cs))) (?shs ! k)"
  proof (intro allI impI)
    fix k assume "k < length ?shs"
    then have k: "k < nshards" by (simp add: len)
    have "sum_list (map cmd_qty (sh_cmds nshards k cs)) < 2 ^ 63"
      using bc_commands_qty [of nshards k nshards ops sched "replicate nprod 0"] total unfolding cs_def by linarith
    then show "shard_ok (sum_list (map cmd_qty (sh_cmds (length ?shs) k cs))) (?shs ! k)"
      using plain by (simp add: shard_ok_def len at [OF k] empty)
  qed
  from sh_submit_all_ok [OF len(2) ok, unfolded len] obtain shs where shs: "sh_submit_all cs ?shs = Some shs"
    "\<forall>k < nshards. abs_book (sh_book (shs ! k)) =
       fold ex_apply (sh_cmds nshards k cs) (abs_book (sh_book (?shs ! k)))"
    "sh_total shs = sh_total ?shs + of_nat (length cs)" by blast
  have "sh_total ?shs = 0" by (simp add: sh_total_sum new_shards_def sum_list_replicate)
  moreover have "length cs = nprod * ops" if "all_joined ops fin"
    using all_joined_at [of ops sched nprod] that count by (simp add: fin_def sum_list_replicate)
  ultimately have "all_joined ops fin \<longrightarrow> sh_total shs = of_nat nprod * of_nat ops" using shs(3) by simp
  moreover have "filter (from_producer p) cs = map (\<lambda>i. make_cmd p i nshards) [0..<fin ! p]" if "p < nprod" for p
    using bc_commands_order [of "replicate nprod 0" p nshards ops sched] small that by (simp add: cs_def fin_def)
  ultimately show thesis using shs(1,2) at by (intro that [of shs]) simp_all
qed

lemma run_sharded_ok:
  assumes "nprod < 2 ^ 31" and "ops < 2 ^ 31" and "0 < nshards"
  shows "run_sharded nprod ops nshards sched samples sec =
    (if all_joined ops (bc_next ops sched (replicate nprod 0))
     then Returned (bc_row ''sharded-mutex'' nprod ops samples sec (of_nat nprod * of_nat ops)) else Unfinished)"
proof -
  from sharded_run [OF assms, of sched] obtain shs where
    "sh_submit_all (bc_commands nshards ops sched (replicate nprod 0)) (new_shards nshards 16384) = Some shs"
    "all_joined ops (bc_next ops sched (replicate nprod 0)) \<longrightarrow> sh_total shs = of_nat nprod * of_nat ops"
    by blast
  then show ?thesis by (simp add: run_sharded_def)
qed

lemma run_sharded_completes:
  assumes "nprod < 2 ^ 31" and "ops < 2 ^ 31" and "0 < nshards"
  shows "\<exists>us. length us \<le> nprod * ops \<and> run_sharded nprod ops nshards (sched @ us) samples sec =
    Returned (bc_row ''sharded-mutex'' nprod ops samples sec (of_nat nprod * of_nat ops))"
proof -
  have "list_all (\<lambda>i. i \<le> ops) (bc_next ops sched (replicate nprod 0))"
    by (rule bc_next_le) (simp add: list_all_length)
  from bc_next_completes [OF this] obtain us where
    "length us + sum_list (bc_next ops sched (replicate nprod 0)) \<le> nprod * ops"
    "all_joined ops (bc_next ops us (bc_next ops sched (replicate nprod 0)))" by auto
  then show ?thesis using run_sharded_ok [OF assms, of "sched @ us"]
    by (intro exI [of _ us]) (simp add: bc_next_append)
qed

subsection \<open>The program\<close>

text \<open>
  The loop of \<open>main\<close>; schedules, samples and durations are given for each number of threads. A run
  that does not return, for either reason, is where the program stops.
\<close>

record bench_world =
  bw_threads :: "nat \<Rightarrow> thread list"
  bw_submits :: "nat \<Rightarrow> nat list"
  bw_samples :: "nat \<Rightarrow> u64 list list \<times> u64 list list"
  bw_seconds :: "nat \<Rightarrow> real \<times> real"

primrec outcome_then :: "'a outcome \<Rightarrow> ('a \<Rightarrow> 'b outcome) \<Rightarrow> 'b outcome" where
  "outcome_then (Returned x) f = f x"
| "outcome_then Unfinished f = Unfinished"
| "outcome_then Stuck f = Stuck"

primrec contention_rows :: "nat \<Rightarrow> bench_world \<Rightarrow> nat list \<Rightarrow> bench_row list outcome" where
  "contention_rows ops w [] = Returned []"
| "contention_rows ops w (n # ns) =
     outcome_then (run_single_writer n ops (bw_threads w n) (fst (bw_samples w n)) (fst (bw_seconds w n)))
       (\<lambda>r1. outcome_then
         (run_sharded n ops (max 1 n) (bw_submits w n) (snd (bw_samples w n)) (snd (bw_seconds w n)))
         (\<lambda>r2. outcome_then (contention_rows ops w ns) (\<lambda>rs. Returned (r1 # r2 # rs))))"

definition contention_main :: "nat \<Rightarrow> nat \<Rightarrow> bench_world \<Rightarrow> (bench_row list \<times> int) outcome" where
  "contention_main hw ops w =
     outcome_then (contention_rows ops w (thread_counts hw)) (\<lambda>rows. Returned (rows, contention_exit ops rows))"

lemma doublings_facts:
  "0 < n \<Longrightarrow> n \<le> m \<Longrightarrow> doublings n m \<noteq> [] \<and> hd (doublings n m) = n \<and> last (doublings n m) \<le> m \<and>
     m < 2 * last (doublings n m) \<and> sorted_wrt (<) (doublings n m) \<and>
     (\<forall>x \<in> set (doublings n m). n \<le> x \<and> x \<le> m \<and> (\<exists>k. x = n * 2 ^ k))"
proof (induction n m rule: doublings.induct)
  case (1 n m)
  have self: "\<exists>k. n = n * 2 ^ k" by (rule exI [of _ 0]) simp
  show ?case
  proof (cases "n * 2 \<le> m")
    case True
    then have le: "0 < n * 2" "0 < n \<and> n \<le> m" using "1.prems" by simp_all
    from "1.IH" [OF le(2,1) True] have IH: "doublings (n * 2) m \<noteq> [] \<and> hd (doublings (n * 2) m) = n * 2 \<and>
        last (doublings (n * 2) m) \<le> m \<and> m < 2 * last (doublings (n * 2) m) \<and>
        sorted_wrt (<) (doublings (n * 2) m) \<and>
        (\<forall>x \<in> set (doublings (n * 2) m). n * 2 \<le> x \<and> x \<le> m \<and> (\<exists>k. x = n * 2 * 2 ^ k))" .
    have step: "doublings n m = n # doublings (n * 2) m"
      using "1.prems" by (subst doublings.simps) simp
    have pow: "\<exists>k. x = n * 2 ^ k" if "\<exists>k. x = n * 2 * 2 ^ k" for x
      using that by (metis mult.assoc power_Suc)
    have rest: "n < x \<and> x \<le> m \<and> (\<exists>k. x = n * 2 ^ k)" if "x \<in> set (doublings (n * 2) m)" for x
    proof -
      from IH that have "n * 2 \<le> x" "x \<le> m" "\<exists>k. x = n * 2 * 2 ^ k" by blast+
      with pow [OF this(3)] "1.prems"(1) show ?thesis by (intro conjI) simp_all
    qed
    have "\<forall>x \<in> set (n # doublings (n * 2) m). n \<le> x \<and> x \<le> m \<and> (\<exists>k. x = n * 2 ^ k)"
      using rest self "1.prems" by (auto simp: less_imp_le)
    then show ?thesis unfolding step using IH rest by simp
  next
    case False
    then have "doublings (n * 2) m = []" by (subst doublings.simps) simp
    then have "doublings n m = [n]" using "1.prems" by (subst doublings.simps) simp
    then show ?thesis using "1.prems" False self by simp
  qed
qed

text \<open>The numbers of threads: increasing, from 1 to the machine's own number, powers of two before it.\<close>

lemma thread_counts_facts:
  defines "m hw \<equiv> if hw = 0 then 2 else hw"
  shows "thread_counts hw \<noteq> []" and "hd (thread_counts hw) = 1" and "last (thread_counts hw) = m hw"
    and "sorted_wrt (<) (thread_counts hw)"
    and "n \<in> set (thread_counts hw) \<Longrightarrow> 1 \<le> n \<and> n \<le> m hw \<and> (n = m hw \<or> (\<exists>k. n = 2 ^ k))"
proof -
  have "1 \<le> m hw" by (simp add: m_def)
  note d = doublings_facts [OF zero_less_one this]
  have eq: "thread_counts hw = (if last (doublings 1 (m hw)) \<noteq> m hw then doublings 1 (m hw) @ [m hw] else doublings 1 (m hw))"
    by (simp add: thread_counts_def m_def Let_def)
  show "thread_counts hw \<noteq> []" "hd (thread_counts hw) = 1" "last (thread_counts hw) = m hw"
    using d by (simp_all add: eq del: One_nat_def)
  have below: "x < m hw" if "x \<in> set (doublings 1 (m hw))" "last (doublings 1 (m hw)) \<noteq> m hw" for x
  proof -
    have "x \<le> last (doublings 1 (m hw))"
    proof -
      from d have ne: "doublings 1 (m hw) \<noteq> []" and s: "sorted_wrt (<) (doublings 1 (m hw))" by simp_all
      have "sorted (doublings 1 (m hw))" by (rule strict_sorted_imp_sorted [OF s])
      then show ?thesis using that(1) ne by (auto simp: in_set_conv_nth last_conv_nth intro!: sorted_nth_mono)
    qed
    with d that(2) show ?thesis by linarith
  qed
  show "sorted_wrt (<) (thread_counts hw)"
    using d below by (simp add: eq sorted_wrt_append del: One_nat_def)
  show "1 \<le> n \<and> n \<le> m hw \<and> (n = m hw \<or> (\<exists>k. n = 2 ^ k))" if "n \<in> set (thread_counts hw)"
  proof (cases "n = m hw")
    case True
    with \<open>1 \<le> m hw\<close> show ?thesis by blast
  next
    case False
    with that have "n \<in> set (doublings 1 (m hw))" by (simp add: eq split: if_splits)
    with d show ?thesis by (simp del: One_nat_def)
  qed
qed

text \<open>The rows the program is meant to print, each with the count of all its commands.\<close>

definition expected_rows :: "nat \<Rightarrow> nat \<Rightarrow> bench_world \<Rightarrow> bench_row list" where
  "expected_rows hw ops w = concat (map (\<lambda>n.
     [bc_row ''single-writer+MPSC'' n ops (fst (bw_samples w n)) (fst (bw_seconds w n)) (of_nat n * of_nat ops),
      bc_row ''sharded-mutex'' n ops (snd (bw_samples w n)) (snd (bw_seconds w n)) (of_nat n * of_nat ops)])
     (thread_counts hw))"

lemma contention_rows_ok:
  assumes "ops < 2 ^ 31"
  shows "\<forall>n \<in> set ns. 0 < n \<and> n < 2 ^ 31 \<Longrightarrow>
    contention_rows ops w ns = Unfinished \<or> contention_rows ops w ns = Returned (concat (map (\<lambda>n.
     [bc_row ''single-writer+MPSC'' n ops (fst (bw_samples w n)) (fst (bw_seconds w n)) (of_nat n * of_nat ops),
      bc_row ''sharded-mutex'' n ops (snd (bw_samples w n)) (snd (bw_seconds w n)) (of_nat n * of_nat ops)]) ns))"
proof (induction ns)
  case (Cons n ns)
  have n: "n < 2 ^ 31" "0 < max 1 n" using Cons.prems by simp_all
  note runs = run_single_ok [OF n(1) assms, of "bw_threads w n" "fst (bw_samples w n)" "fst (bw_seconds w n)"]
    run_sharded_ok [OF n(1) assms n(2), of "bw_submits w n" "snd (bw_samples w n)" "snd (bw_seconds w n)"]
  have "\<forall>n \<in> set ns. 0 < n \<and> n < 2 ^ 31" using Cons.prems by simp
  from Cons.IH [OF this] runs show ?case by auto
qed simp

lemma contention_rows_complete:
  assumes "\<And>n. n \<in> set ns \<Longrightarrow>
      run_single_writer n ops (bw_threads w n) (fst (bw_samples w n)) (fst (bw_seconds w n)) = Returned (f n)"
    and "\<And>n. n \<in> set ns \<Longrightarrow>
      run_sharded n ops (max 1 n) (bw_submits w n) (snd (bw_samples w n)) (snd (bw_seconds w n)) = Returned (g n)"
  shows "contention_rows ops w ns = Returned (concat (map (\<lambda>n. [f n, g n]) ns))"
  using assms by (induction ns) simp_all

lemma bc_row_facts [simp]:
  "br_model (bc_row model nprod ops samples sec applied) = model"
  "br_nprod (bc_row model nprod ops samples sec applied) = nprod"
  "br_applied (bc_row model nprod ops samples sec applied) = applied"
  by (simp_all add: bc_row_def split: prod.split)

lemma expected_rows_pass: "contention_exit ops (expected_rows hw ops w) = 0"
proof -
  have "br_applied r = of_nat (br_nprod r) * of_nat ops" if "r \<in> set (expected_rows hw ops w)" for r
    using that by (auto simp: expected_rows_def)
  then show ?thesis by (simp add: contention_exit_def lost_updates_def filter_empty_conv)
qed

text \<open>A world in which the schedules of each run go on.\<close>

definition continue_world :: "(nat \<Rightarrow> thread list) \<Rightarrow> (nat \<Rightarrow> nat list) \<Rightarrow> bench_world \<Rightarrow> bench_world" where
  "continue_world ts us w = w\<lparr>bw_threads := (\<lambda>n. bw_threads w n @ ts n), bw_submits := (\<lambda>n. bw_submits w n @ us n)\<rparr>"

text \<open>C34. The benchmark's check never fires, and its program can always come to its end. On a machine
  with fewer than \<open>2 ^ 30\<close> processors, whatever the scheduling of the threads: no call is stuck; a run that
  returns has the two rows of each number of threads it tries, from one up to that of the machine,
  each counting exactly its commands, and exits with 0; and whatever the schedules have done, at most
  six more steps for each command and nine more for each run of the pipeline, and one submission more for
  each command of the sharded run, let the program return.\<close>
theorem contention_passes:
  assumes "hw < 2 ^ 30" and "ops < 2 ^ 31"
  shows "(contention_main hw ops w = Unfinished \<or> contention_main hw ops w = Returned (expected_rows hw ops w, 0)) \<and>
    (\<exists>ts us. (\<forall>n. length (ts n) \<le> 6 * n * ops + 9 \<and> length (us n) \<le> n * ops) \<and>
      contention_main hw ops (continue_world ts us w) = Returned (expected_rows hw ops w, 0)) \<and>
    sorted_wrt (<) (thread_counts hw) \<and> hd (thread_counts hw) = 1 \<and>
    last (thread_counts hw) = (if hw = 0 then 2 else hw)"
proof (intro conjI)
  have ns: "\<forall>n \<in> set (thread_counts hw). 0 < n \<and> n < 2 ^ 31"
  proof
    fix n assume "n \<in> set (thread_counts hw)"
    from thread_counts_facts(5) [OF this] assms(1) show "0 < n \<and> n < 2 ^ 31" by (auto split: if_splits)
  qed
  from contention_rows_ok [OF assms(2) ns, of w]
  show "contention_main hw ops w = Unfinished \<or> contention_main hw ops w = Returned (expected_rows hw ops w, 0)"
    using expected_rows_pass [of ops hw w] by (auto simp: contention_main_def expected_rows_def)
  let ?f = "\<lambda>n. bc_row ''single-writer+MPSC'' n ops (fst (bw_samples w n)) (fst (bw_seconds w n)) (of_nat n * of_nat ops)"
  let ?g = "\<lambda>n. bc_row ''sharded-mutex'' n ops (snd (bw_samples w n)) (snd (bw_seconds w n)) (of_nat n * of_nat ops)"
  have "\<exists>ts. length ts \<le> 6 * n * ops + 9 \<and> (n < 2 ^ 31 \<longrightarrow> run_single_writer n ops (bw_threads w n @ ts)
      (fst (bw_samples w n)) (fst (bw_seconds w n)) = Returned (?f n))" for n
    using run_single_completes [of n ops "bw_threads w n"] assms(2) by (cases "n < 2 ^ 31") (blast, auto intro: exI [of _ "[]"])
  then obtain ts where ts: "length (ts n) \<le> 6 * n * ops + 9" "n < 2 ^ 31 \<Longrightarrow>
      run_single_writer n ops (bw_threads w n @ ts n) (fst (bw_samples w n)) (fst (bw_seconds w n)) = Returned (?f n)" for n
    by metis
  have "\<exists>us. length us \<le> n * ops \<and> (n < 2 ^ 31 \<longrightarrow> run_sharded n ops (max 1 n) (bw_submits w n @ us)
      (snd (bw_samples w n)) (snd (bw_seconds w n)) = Returned (?g n))" for n
    using run_sharded_completes [of n ops "max 1 n" "bw_submits w n"] assms(2)
    by (cases "n < 2 ^ 31") (simp, auto intro: exI [of _ "[]"])
  then obtain us where us: "length (us n) \<le> n * ops" "n < 2 ^ 31 \<Longrightarrow>
      run_sharded n ops (max 1 n) (bw_submits w n @ us n) (snd (bw_samples w n)) (snd (bw_seconds w n)) = Returned (?g n)" for n
    by metis
  have "contention_rows ops (continue_world ts us w) (thread_counts hw) = Returned (expected_rows hw ops w)"
    unfolding expected_rows_def
    by (rule contention_rows_complete) (use ns ts(2) us(2) in \<open>auto simp: continue_world_def\<close>)
  then have "contention_main hw ops (continue_world ts us w) = Returned (expected_rows hw ops w, 0)"
    by (simp add: contention_main_def expected_rows_pass)
  with ts(1) us(1) show "\<exists>ts us. (\<forall>n. length (ts n) \<le> 6 * n * ops + 9 \<and> length (us n) \<le> n * ops) \<and>
      contention_main hw ops (continue_world ts us w) = Returned (expected_rows hw ops w, 0)" by blast
qed (use thread_counts_facts(2-4) [of hw] in simp_all)

text \<open>Two runs of one and of two producers, started with a schedule of their own and brought to their end.\<close>

theorem contention_passes_witness:
  "\<exists>ts us rows. contention_main 2 3 (continue_world ts us \<lparr>bw_threads = (\<lambda>n. [Producer 0, Consumer]),
       bw_submits = (\<lambda>n. [0]), bw_samples = (\<lambda>n. ([[5]], [[7]])), bw_seconds = (\<lambda>n. (1, 2))\<rparr>) = Returned (rows, 0) \<and>
     map (\<lambda>r. (br_model r, br_nprod r, br_applied r)) rows =
       [(''single-writer+MPSC'', 1, 3), (''sharded-mutex'', 1, 3), (''single-writer+MPSC'', 2, 6), (''sharded-mutex'', 2, 6)]"
proof -
  have small: "(2 :: nat) < 2 ^ 30" "(3 :: nat) < 2 ^ 31" by simp_all
  have ns: "thread_counts 2 = [1, 2]" by code_simp
  from contention_passes [OF small] show ?thesis
    by (fastforce simp: expected_rows_def ns)
qed

end
