(* ===== verification/Bench_Ladder.thy ===== *)
theory Bench_Ladder
  imports Simulator Latency_Ring "HOL-Library.Signed_Division"
begin

section \<open>The latency benchmarks of the book\<close>

text \<open>
  The operations of bench/bench_lob.cpp that drive a book: a ladder with one order on every tick,
  and loops that add, cancel or match one order and put the book back. The framework's loop
  over \<open>state\<close> is a list of the clock readings of its iterations, in nanoseconds.
\<close>

definition k_mid :: price_t where
  "k_mid = 10000"

definition k_ring_n :: nat where
  "k_ring_n = 65536"

definition k_warmup :: nat where
  "k_warmup = 256"

definition alloc_mode_of :: "int \<Rightarrow> alloc_mode" where
  "alloc_mode_of am = (if am = 0 then Pool else Heap)"

definition alloc_name :: "int \<Rightarrow> string" where
  "alloc_name am = (if am = 0 then ''pool'' else ''heap'')"

definition pool_cap_for :: "int \<Rightarrow> nat" where
  "pool_cap_for depth = unat (of_int depth * 4 + 4096 :: u64)"

definition interior_bid_px :: "int \<Rightarrow> price_t" where
  "interior_bid_px depth = k_mid - 1 - of_int (depth sdiv 2)"

text \<open>The loop of \<open>seed_ladder\<close> over the ticks \<open>is\<close>; it returns the ids it pushed on both vectors.\<close>

primrec seed_ticks :: "nat list \<Rightarrow> order_book \<Rightarrow> order_id_t list \<times> order_id_t list \<times> order_book" where
  "seed_ticks [] b = ([], [], b)"
| "seed_ticks (i # is) b =
     (let (bid, b1) = add_limit_order Buy (k_mid - 1 - of_nat i) 1 b;
          (ask, b2) = add_limit_order Sell (k_mid + 1 + of_nat i) 1 b1;
          (bids, asks, b3) = seed_ticks is b2
      in (bid # bids, ask # asks, b3))"

definition seed_ladder :: "int \<Rightarrow> order_book \<Rightarrow> order_id_t list \<times> order_id_t list \<times> order_book" where
  "seed_ladder depth b = seed_ticks [0..<nat depth] b"

text \<open>
  What the three loops do with the readings of an iteration: the first \<open>k_warmup\<close> are skipped,
  the others go into the ring.
\<close>

definition record_latency :: "u64 \<times> u64 \<Rightarrow> nat \<times> latency_ring \<Rightarrow> nat \<times> latency_ring" where
  "record_latency = (\<lambda>(t0, t1) (skip, r).
     if 0 < skip then (skip - 1, r) else (skip, lr_push (ns_between t0 t1) r))"

definition new_latency :: "nat \<times> latency_ring" where
  "new_latency = (k_warmup, lr_new k_ring_n)"

definition add_iteration ::
    "price_t \<Rightarrow> u64 \<times> u64 \<Rightarrow> order_book \<times> nat \<times> latency_ring \<Rightarrow> order_book \<times> nat \<times> latency_ring" where
  "add_iteration px t = (\<lambda>(b, lat).
     (let (oid, b1) = add_limit_order Buy px 1 b in (snd (cancel_order oid b1), record_latency t lat)))"

text \<open>\<open>None\<close>: the index is not one of the vector, and the code reads outside it.\<close>

definition cancel_iteration ::
    "price_t \<Rightarrow> nat \<Rightarrow> u64 \<times> u64 \<Rightarrow> order_book \<times> order_id_t list \<times> nat \<times> latency_ring \<Rightarrow>
     (order_book \<times> order_id_t list \<times> nat \<times> latency_ring) option" where
  "cancel_iteration px idx t = (\<lambda>(b, bids, lat).
     if length bids \<le> idx then None
     else
       (let b1 = snd (cancel_order (bids ! idx) b);
            lat1 = record_latency t lat;
            (oid, b2) = add_limit_order Buy px 1 b1
        in Some (b2, bids[idx := oid], lat1)))"

text \<open>\<open>None\<close>: the market order does not return.\<close>

definition market_iteration ::
    "u64 \<times> u64 \<Rightarrow> order_book \<times> nat \<times> latency_ring \<Rightarrow> (order_book \<times> nat \<times> latency_ring) option" where
  "market_iteration t = (\<lambda>(b, lat).
     map_option (\<lambda>(fills, b1).
         ((if fills \<noteq> [] then snd (add_limit_order Sell (fill_price (fills ! 0)) (fill_qty (fills ! 0)) b1)
           else snd (add_limit_order Sell (k_mid + 1) 1 b1)), record_latency t lat))
       (market_order Buy 1 b))"

text \<open>A loop whose iterations may fail.\<close>

primrec fold_opt :: "('a \<Rightarrow> 's \<Rightarrow> 's option) \<Rightarrow> 'a list \<Rightarrow> 's \<Rightarrow> 's option" where
  "fold_opt f [] s = Some s"
| "fold_opt f (x # xs) s = Option.bind (f x s) (fold_opt f xs)"

text \<open>The books the benchmarks run on, and their loops.\<close>

definition bench_book :: "int \<Rightarrow> int \<Rightarrow> order_id_t list \<times> order_id_t list \<times> order_book" where
  "bench_book depth am = seed_ladder depth (new_book (pool_cap_for depth) (alloc_mode_of am))"

definition add_loop :: "int \<Rightarrow> int \<Rightarrow> (u64 \<times> u64) list \<Rightarrow> order_book \<times> nat \<times> latency_ring" where
  "add_loop depth am ts =
     (let (bids, asks, b) = bench_book depth am
      in fold (add_iteration (interior_bid_px depth)) ts (b, new_latency))"

definition cancel_loop ::
    "int \<Rightarrow> int \<Rightarrow> (u64 \<times> u64) list \<Rightarrow> (order_book \<times> order_id_t list \<times> nat \<times> latency_ring) option" where
  "cancel_loop depth am ts =
     (let (bids, asks, b) = bench_book depth am
      in fold_opt (cancel_iteration (interior_bid_px depth) (nat (depth sdiv 2))) ts (b, bids, new_latency))"

definition market_loop_run :: "int \<Rightarrow> int \<Rightarrow> (u64 \<times> u64) list \<Rightarrow> (order_book \<times> nat \<times> latency_ring) option" where
  "market_loop_run depth am ts =
     (let (bids, asks, b) = bench_book depth am in fold_opt market_iteration ts (b, new_latency))"

text \<open>
  \<open>BM_SimThroughput\<close>: the simulator on a seeded book. The framework's iterations are given as a
  number, since nothing is timed.
\<close>

definition sim_bench_config :: "int \<Rightarrow> sim_config" where
  "sim_bench_config depth =
     default_config\<lparr>target_depth_per_side := of_int depth, tick_span := max 8 (depth sdiv 4)\<rparr>"

definition sim_bench :: "'g random_source \<Rightarrow> 'g \<Rightarrow> int \<Rightarrow> int \<Rightarrow> nat \<Rightarrow> 'g sim_result option" where
  "sim_bench R g depth am steps =
     (let (bids, asks, b) = seed_ladder depth (new_book (pool_cap_for (max depth 128)) (alloc_mode_of am))
      in sim_steps steps R (new_sim g (sim_bench_config depth) b))"

subsection \<open>Ladders of single orders\<close>

definition side_px :: "side \<Rightarrow> nat \<Rightarrow> price_t" where
  "side_px s i = (case s of Buy \<Rightarrow> k_mid - 1 - of_nat i | Sell \<Rightarrow> k_mid + 1 + of_nat i)"

definition rung :: "side \<Rightarrow> (nat \<Rightarrow> order_id_t) \<Rightarrow> nat \<Rightarrow> alevel" where
  "rung s f i = (side_px s i, [new_aorder (f i) 1])"

definition rungs :: "side \<Rightarrow> nat \<Rightarrow> (nat \<Rightarrow> order_id_t) \<Rightarrow> aside" where
  "rungs s n f = map (rung s f) [0..<n]"

lemma side_px_sint:
  assumes "i < 2 ^ 32"
  shows "sint (side_px s i) = (case s of Buy \<Rightarrow> 9999 - int i | Sell \<Rightarrow> 10001 + int i)"
proof (cases s)
  case Buy
  have "side_px Buy i = (word_of_int (9999 - int i) :: u64)" by (simp add: side_px_def k_mid_def)
  then have "sint (side_px Buy i) = signed_take_bit (LENGTH(64) - 1) (9999 - int i)"
    by (simp only: sint_sbintrunc')
  also have "\<dots> = 9999 - int i" using assms by (intro signed_take_bit_int_eq_self) simp_all
  finally show ?thesis by (simp add: Buy)
next
  case Sell
  have "side_px Sell i = (word_of_int (10001 + int i) :: u64)" by (simp add: side_px_def k_mid_def)
  then have "sint (side_px Sell i) = signed_take_bit (LENGTH(64) - 1) (10001 + int i)"
    by (simp only: sint_sbintrunc')
  also have "\<dots> = 10001 + int i" using assms by (intro signed_take_bit_int_eq_self) simp_all
  finally show ?thesis by (simp add: Sell)
qed

lemma side_px_order:
  assumes "i < 2 ^ 32" and "j < 2 ^ 32"
  shows "side_cmp s (side_px s i) (side_px s j) \<longleftrightarrow> i < j" and "side_px s i = side_px s j \<longleftrightarrow> i = j"
proof -
  note px = side_px_sint [OF assms(1), of s] side_px_sint [OF assms(2), of s]
  show "side_cmp s (side_px s i) (side_px s j) \<longleftrightarrow> i < j"
    using px by (cases s) (auto simp: side_cmp_def bid_cmp_def ask_cmp_def word_sless_alt)
  show "side_px s i = side_px s j \<longleftrightarrow> i = j"
  proof
    assume "side_px s i = side_px s j"
    then have "(case s of Buy \<Rightarrow> 9999 - int i | Sell \<Rightarrow> 10001 + int i) =
        (case s of Buy \<Rightarrow> 9999 - int j | Sell \<Rightarrow> 10001 + int j)" using px by (simp only:)
    then show "i = j" by (cases s) simp_all
  qed simp
qed

lemma rungs_split: "i < n \<Longrightarrow> rungs s n f = rungs s i f @ rung s f i # map (rung s f) [Suc i..<n]"
  unfolding rungs_def using upt_add_eq_append [of 0 i "n - i"] by (simp add: upt_conv_Cons)

lemma rungs_ids: "side_ids (map (rung s f) is) = map f is"
  by (induction "is") (simp_all add: rung_def new_aorder_def)

lemma rungs_full: "side_full (map (rung s f) is)"
  by (auto simp: side_full_def rung_def)

lemma rungs_cong: "(\<And>i. i \<in> set is \<Longrightarrow> f i = g i) \<Longrightarrow> map (rung s f) is = map (rung s g) is"
  by (simp add: rung_def)

lemma rung_prices: "fst ` set (map (rung s f) is) = side_px s ` set is"
  by (force simp: rung_def)

lemma rungs_add:
  assumes "n < 2 ^ 32"
  shows "sp_add (side_cmp s) (side_px s n) (new_aorder x 1) (rungs s n f) = rungs s (Suc n) (f(n := x))"
proof -
  have "sp_add (side_cmp s) (side_px s n) (new_aorder x 1) (rungs s n f @ []) =
      rungs s n f @ (side_px s n, [new_aorder x 1]) # []"
    using assms side_px_order [of _ n s] by (intro sp_add_fresh) (auto simp: rungs_def rung_prices simp del: set_map)
  moreover have "rungs s n f = map (rung s (f(n := x))) [0..<n]" unfolding rungs_def by (rule rungs_cong) simp
  ultimately show ?thesis by (simp add: rungs_def) (simp add: rung_def)
qed

lemma rungs_remove:
  assumes "i < n" and "distinct (side_ids (rungs s n f))"
  shows "sp_remove (f i) (rungs s n f) = rungs s i f @ map (rung s f) [Suc i..<n]"
proof -
  let ?A = "rungs s i f" and ?C = "map (rung s f) [Suc i..<n]"
  have split: "rungs s n f = ?A @ (side_px s i, [] @ new_aorder (f i) 1 # []) # ?C"
    using rungs_split [OF assms(1), of s f] by (simp add: rung_def)
  have "side_full (?A @ ?C)" using rungs_full [of s f] by (simp add: rungs_def flip: map_append)
  with assms(2) have "sp_remove (ao_id (new_aorder (f i) 1)) (?A @ (side_px s i, [] @ new_aorder (f i) 1 # []) # ?C) =
      ?A @ (if [] @ [] = ([] :: aorder list) then [] else [(side_px s i, [] @ [])]) @ ?C"
    unfolding split by (rule sp_remove_mid)
  then show ?thesis by (simp add: split [symmetric]) (simp add: split new_aorder_def)
qed

lemma rungs_refill:
  assumes "i < n" and "n \<le> 2 ^ 32"
  shows "sp_add (side_cmp s) (side_px s i) (new_aorder x 1) (rungs s i f @ map (rung s f) [Suc i..<n]) =
    rungs s n (f(i := x))"
proof -
  have "sp_add (side_cmp s) (side_px s i) (new_aorder x 1) (rungs s i f @ map (rung s f) [Suc i..<n]) =
      rungs s i f @ (side_px s i, [new_aorder x 1]) # map (rung s f) [Suc i..<n]"
    using assms side_px_order [of _ i s] by (intro sp_add_fresh) (auto simp: rungs_def rung_prices simp del: set_map)
  also have "\<dots> = rungs s n (f(i := x))"
  proof -
    have "rungs s i f = rungs s i (f(i := x))" unfolding rungs_def by (rule rungs_cong) simp
    moreover have "map (rung s f) [Suc i..<n] = map (rung s (f(i := x))) [Suc i..<n]" by (rule rungs_cong) simp
    moreover have "(side_px s i, [new_aorder x 1]) = rung s (f(i := x)) i" by (simp add: rung_def)
    ultimately show ?thesis using rungs_split [OF assms(1), of s "f(i := x)"] by (simp only:)
  qed
  finally show ?thesis .
qed

lemma rungs_match:
  assumes "0 < n"
  shows "sp_match 1 (rungs s n f) = ([(f 0, side_px s 0, 1)], rungs s 0 f @ map (rung s f) [Suc 0..<n])"
  using assms by (simp add: rungs_def upt_conv_Cons rung_def new_aorder_def sp_consume_def Let_def)

lemma rungs_liquidity: "liquidity (map (rung s f) is) = length is"
  by (induction "is") (simp_all add: rung_def new_aorder_def order_liq_def)

subsection \<open>Books that show a ladder\<close>

text \<open>
  \<open>n\<close> ticks are taken on each side, by one order of one unit each; \<open>f\<close> are their ids. In a pool
  there is a slot to spare.
\<close>

definition on_ladder :: "(side \<Rightarrow> nat) \<Rightarrow> (side \<Rightarrow> nat \<Rightarrow> order_id_t) \<Rightarrow> order_book \<Rightarrow> bool" where
  "on_ladder n f b \<longleftrightarrow> book_inv [] b \<and> (\<forall>s. n s < 2 ^ 32 \<and> book_view b s = rungs s (n s) (f s))"

definition has_room :: "(side \<Rightarrow> nat) \<Rightarrow> order_book \<Rightarrow> bool" where
  "has_room n b \<longleftrightarrow> mode (pool b) = Pool \<longrightarrow> n Buy + n Sell < capacity (pool b)"

lemma on_ladderD:
  assumes "on_ladder n f b"
  shows "book_inv [] b" "n s < 2 ^ 32" "book_view b s = rungs s (n s) (f s)"
    "distinct (side_ids (rungs s (n s) (f s)))"
    "i < n s \<Longrightarrow> f s i \<in> set (side_ids (book_view b s))"
proof -
  show b: "book_inv [] b" "n s < 2 ^ 32" and v: "book_view b s = rungs s (n s) (f s)"
    using assms by (simp_all add: on_ladder_def)
  from b(1) obtain L where "book_rel L [] b" by (auto simp: book_inv_iff)
  from book_ids_distinct1 [OF this, of s] show "distinct (side_ids (rungs s (n s) (f s)))" by (simp add: v)
  show "f s i \<in> set (side_ids (book_view b s))" if "i < n s"
    using that by (simp add: v rungs_def rungs_ids)
qed

lemma on_ladder_room:
  assumes "on_ladder n f b" and "has_room n b"
  shows "\<not> pool_full b"
proof
  assume full: "pool_full b"
  then have m: "mode (pool b) = Pool" "freelist (pool b) = []" by (simp_all add: pool_full_def)
  have len: "length (side_ids (book_view b s)) = n s" for s
    by (simp add: on_ladderD(3) [OF assms(1)] rungs_def rungs_ids)
  show False
    using slots_count [OF on_ladderD(1) [OF assms(1)] m(1)] assms(2) m
    by (simp add: len free_count_def has_room_def)
qed

lemma on_ladder_view: "on_ladder n f b \<Longrightarrow> book_view b (opposite s) = rungs (opposite s) (n (opposite s)) (f (opposite s))"
  by (rule on_ladderD(3))

lemma frame_room: "book_frame [] b b' \<Longrightarrow> has_room n b' = has_room n b"
  by (simp add: book_frame_def has_room_def)

text \<open>One more order on the ladder.\<close>

lemma add_rung:
  assumes lad: "on_ladder n f b" and room: "has_room n b" and small: "Suc (n s) < 2 ^ 32"
  obtains b' where "add_limit_order s (side_px s (n s)) 1 b = (next_order_id b, b')"
    "on_ladder (n(s := Suc (n s))) (f(s := (f s)(n s := next_order_id b))) b'" "book_frame [] b b'"
proof -
  note l = on_ladderD [OF lad]
  from l(1) obtain L where rel: "book_rel L [] b" by (auto simp: book_inv_iff)
  have "liquidity (rungs s (n s) (f s)) = n s" by (simp add: rungs_def rungs_liquidity)
  then have "level_liq (side_px s (n s)) (book_view b s) + unat (1 :: u64) < 2 ^ 64"
    using level_liq_le [of "side_px s (n s)" "rungs s (n s) (f s)"] small by (simp add: l(3))
  then obtain b' where b': "add_limit_order s (side_px s (n s)) 1 b = (next_order_id b, b')" "book_inv [] b'"
    "book_view b' = (book_view b)(s := sp_add (side_cmp s) (side_px s (n s))
       (new_aorder (next_order_id b) 1) (book_view b s))" "book_frame [] b b'"
    by (rule add_limit_ok [OF rel _ on_ladder_room [OF lad room]])
  have "on_ladder (n(s := Suc (n s))) (f(s := (f s)(n s := next_order_id b))) b'"
    using b'(2) small l(2) by (auto simp: on_ladder_def b'(3) l(3) rungs_add)
  then show thesis using b'(1,4) that by blast
qed

text \<open>Cancelling the order of a tick and adding one at its price.\<close>

lemma cancel_rung:
  assumes lad: "on_ladder n f b" and i: "i < n s"
  obtains b' where "cancel_order (f s i) b = (True, b')" "book_inv [] b'" "book_frame [] b b'"
    "book_view b' = (book_view b)(s := rungs s i (f s) @ map (rung s (f s)) [Suc i..<n s])"
    "next_order_id b' = next_order_id b"
proof -
  note l = on_ladderD [OF lad]
  from l(1) obtain L where rel: "book_rel L [] b" by (auto simp: book_inv_iff)
  have "find_id (f s i) b \<noteq> None" using id_table [OF l(1), of "f s i"] l(5) [OF i] by (cases s) auto
  then obtain a where a: "find_id (f s i) b = Some a" by blast
  obtain b' where b': "cancel_order (f s i) b = (True, b')" "book_inv [] b'"
    "book_view b' = (\<lambda>t. sp_remove (f s i) (book_view b t))" "next_order_id b' = next_order_id b"
    "book_frame [] b b'" by (rule cancel_resting [OF rel a]) simp_all
  have "f s i \<notin> set (side_ids (book_view b (opposite s)))" by (rule book_inv_ids(3) [OF l(1) l(5) [OF i]])
  then have other: "sp_remove (f s i) (book_view b (opposite s)) = book_view b (opposite s)"
    using book_inv_view(2) [OF l(1)] by (intro sp_remove_absent)
  have "book_view b' = (book_view b)(s := rungs s i (f s) @ map (rung s (f s)) [Suc i..<n s])"
    using rungs_remove [OF i l(4)] other
    by (intro fun_side_eqI [where s = s]) (simp_all add: b'(3), simp add: l(3))
  then show thesis using b' that by blast
qed

lemma refill_rung:
  assumes lad: "on_ladder n f b" and i: "i < n s" and inv: "book_inv [] b'"
    and frame: "book_frame [] b b'" and room: "has_room n b"
    and view: "book_view b' = (book_view b)(s := rungs s i (f s) @ map (rung s (f s)) [Suc i..<n s])"
  obtains b'' where "add_limit_order s (side_px s i) 1 b' = (next_order_id b', b'')"
    "on_ladder n (f(s := (f s)(i := next_order_id b'))) b''" "book_frame [] b b''"
proof -
  note l = on_ladderD [OF lad]
  from inv obtain L where rel: "book_rel L [] b'" by (auto simp: book_inv_iff)
  have "pool_full b' \<Longrightarrow> False"
  proof -
    assume "pool_full b'"
    then have m: "mode (pool b') = Pool" "freelist (pool b') = []" by (simp_all add: pool_full_def)
    have len: "length (side_ids (book_view b' t)) \<le> n t" for t
      using i l(3) by (auto simp: view rungs_def rungs_ids)
    from slots_count [OF inv m(1)] have "capacity (pool b') \<le> n Buy + n Sell"
      using len [of Buy] len [of Sell] m by (simp add: free_count_def)
    then show False using frame room m by (simp add: has_room_def book_frame_def)
  qed
  moreover have "level_liq (side_px s i) (book_view b' s) + unat (1 :: u64) < 2 ^ 64"
    using level_liq_le [of "side_px s i" "book_view b' s"] i l(2) [of s]
    by (simp add: view rungs_def rungs_liquidity)
  ultimately obtain b'' where b'': "add_limit_order s (side_px s i) 1 b' = (next_order_id b', b'')"
    "book_inv [] b''" "book_view b'' = (book_view b')(s := sp_add (side_cmp s) (side_px s i)
       (new_aorder (next_order_id b') 1) (book_view b' s))" "book_frame [] b' b''"
    using add_limit_ok [OF rel] by metis
  have "n s \<le> 2 ^ 32" using l(2) [of s] by simp
  note refill = rungs_refill [OF i this]
  have "on_ladder n (f(s := (f s)(i := next_order_id b'))) b''"
    using b''(2) l(2,3) by (auto simp: on_ladder_def b''(3) view refill)
  moreover have "book_frame [] b b''" using frame b''(4) by (simp add: book_frame_def)
  ultimately show thesis using b''(1) that by blast
qed

lemma on_ladder_empty: "on_ladder (\<lambda>_. 0) f (new_book cap m)"
  by (simp add: on_ladder_def new_book_inv new_book_view rungs_def)

lemma seed_ticks_ok:
  assumes "on_ladder (\<lambda>_. k) f b" and "has_room (\<lambda>_. k + m) b" and "k + m < 2 ^ 32"
  shows "\<exists>f' b'. seed_ticks [k..<k + m] b = (map (f' Buy) [k..<k + m], map (f' Sell) [k..<k + m], b') \<and>
    on_ladder (\<lambda>_. k + m) f' b' \<and> book_frame [] b b' \<and> (\<forall>s i. i < k \<longrightarrow> f' s i = f s i)"
  using assms
proof (induction m arbitrary: k f b)
  case 0
  then show ?case by (intro exI [of _ f] exI [of _ b]) (simp add: book_frame_def)
next
  case (Suc m)
  have room: "has_room (\<lambda>_. k) b" using Suc.prems(2) by (auto simp: has_room_def)
  have small: "Suc k < 2 ^ 32" using Suc.prems(3) by simp
  obtain b1 where b1: "add_limit_order Buy (side_px Buy k) 1 b = (next_order_id b, b1)"
    "on_ladder ((\<lambda>_. k)(Buy := Suc k)) (f(Buy := (f Buy)(k := next_order_id b))) b1" "book_frame [] b b1"
    by (rule add_rung [OF Suc.prems(1) room small])
  let ?n = "(\<lambda>_. k)(Buy := Suc k)" and ?f = "f(Buy := (f Buy)(k := next_order_id b))"
  have "has_room ?n b" using Suc.prems(2) by (auto simp: has_room_def)
  then have room1: "has_room ?n b1" using frame_room [OF b1(3)] by simp
  have small1: "Suc (?n Sell) < 2 ^ 32" using small by simp
  obtain b2 where b2: "add_limit_order Sell (side_px Sell (?n Sell)) 1 b1 = (next_order_id b1, b2)"
    "on_ladder (?n(Sell := Suc (?n Sell))) (?f(Sell := (?f Sell)(?n Sell := next_order_id b1))) b2"
    "book_frame [] b1 b2"
    by (rule add_rung [OF b1(2) room1 small1])
  define g where "g = ?f(Sell := (?f Sell)(k := next_order_id b1))"
  have n: "?n(Sell := Suc (?n Sell)) = (\<lambda>_. Suc k)" by (rule fun_side_eqI [where s = Buy]) simp_all
  have lad: "on_ladder (\<lambda>_. Suc k) g b2" using b2(2) unfolding n by (simp add: g_def)
  have frame: "book_frame [] b b2" using b1(3) b2(3) by (simp add: book_frame_def)
  have "has_room (\<lambda>_. Suc k + m) b2" using Suc.prems(2) frame_room [OF frame] by simp
  from Suc.IH [OF lad this] Suc.prems(3) obtain f' b' where f': "seed_ticks [Suc k..<Suc k + m] b2 =
      (map (f' Buy) [Suc k..<Suc k + m], map (f' Sell) [Suc k..<Suc k + m], b')"
    "on_ladder (\<lambda>_. Suc k + m) f' b'" "book_frame [] b2 b'" "\<forall>s i. i < Suc k \<longrightarrow> f' s i = g s i" by auto
  have ids: "f' Buy k = next_order_id b" "f' Sell k = next_order_id b1" using f'(4) by (simp_all add: g_def)
  have px: "k_mid - 1 - of_nat k = side_px Buy k" "k_mid + 1 + of_nat k = side_px Sell k"
    by (simp_all add: side_px_def)
  have list: "[k..<k + Suc m] = k # [Suc k..<Suc k + m]" by (simp add: upt_conv_Cons)
  have "seed_ticks [k..<k + Suc m] b = (map (f' Buy) [k..<k + Suc m], map (f' Sell) [k..<k + Suc m], b')"
    unfolding list using b2(1) by (simp add: px b1(1) f'(1) [unfolded add_Suc] ids Let_def del: upt_Suc)
  moreover have "book_frame [] b b'" using frame f'(3) by (simp add: book_frame_def)
  moreover have "\<forall>s i. i < k \<longrightarrow> f' s i = f s i" using f'(4) by (simp add: g_def less_Suc_eq)
  ultimately show ?case using f'(2) by (intro exI [of _ f'] exI [of _ b']) simp
qed

lemma pool_cap_nat: "0 \<le> d \<Longrightarrow> d < 2 ^ 31 \<Longrightarrow> pool_cap_for d = nat d * 4 + 4096"
proof -
  assume d: "0 \<le> d" "d < 2 ^ 31"
  then have "nat d < 2 ^ 31" by simp
  then have "nat d * 4 + 4096 < 2 ^ 64" by simp
  note unat_nat_64 [OF this]
  moreover have "of_int d * 4 + 4096 = (of_nat (nat d * 4 + 4096) :: u64)" using d by simp
  ultimately show ?thesis unfolding pool_cap_for_def by (simp only:)
qed

text \<open>The book the benchmarks start from.\<close>

lemma bench_book_ok:
  assumes "0 \<le> d" and "d < 2 ^ 31"
  obtains f b where "bench_book d am = (map (f Buy) [0..<nat d], map (f Sell) [0..<nat d], b)"
    "on_ladder (\<lambda>_. nat d) f b" "has_room (\<lambda>_. nat d) b"
proof -
  let ?b = "new_book (pool_cap_for d) (alloc_mode_of am)"
  have cap: "capacity (pool ?b) = nat d * 4 + 4096"
    by (simp add: new_book_def new_pool_def pool_cap_nat [OF assms])
  have room: "has_room (\<lambda>_. 0 + nat d) ?b" by (simp add: has_room_def cap)
  have "0 + nat d < 2 ^ 32" using assms by simp
  from seed_ticks_ok [OF on_ladder_empty room this] obtain f b where
    "seed_ticks [0..<nat d] ?b = (map (f Buy) [0..<nat d], map (f Sell) [0..<nat d], b)"
    "on_ladder (\<lambda>_. nat d) f b" "book_frame [] ?b b" by auto
  then show thesis using room by (intro that [of f b]) (simp_all add: bench_book_def seed_ladder_def frame_room)
qed

subsection \<open>The readings\<close>

lemma record_latency_fold:
  "fold record_latency ts (skip, r) =
     (skip - length ts, fold lr_push (map (\<lambda>(t0, t1). ns_between t0 t1) (drop skip ts)) r)"
proof (induction ts arbitrary: skip r)
  case (Cons t ts)
  then show ?case by (cases skip) (auto simp: record_latency_def split: prod.splits)
qed simp

subsection \<open>The iterations\<close>

text \<open>An order added anywhere and cancelled leaves the view as it was.\<close>

lemma add_then_cancel:
  assumes inv: "book_inv [] b" and room: "\<not> pool_full b"
    and small: "level_liq px (book_view b s) + unat q < 2 ^ 64"
  obtains b1 b2 where "add_limit_order s px q b = (next_order_id b, b1)"
    "cancel_order (next_order_id b) b1 = (True, b2)" "book_inv [] b2" "book_view b2 = book_view b"
    "book_frame [] b b2"
proof -
  let ?id = "next_order_id b"
  from inv obtain L where rel: "book_rel L [] b" by (auto simp: book_inv_iff)
  obtain b1 where b1: "add_limit_order s px q b = (?id, b1)" "book_inv [] b1"
    "book_view b1 = (book_view b)(s := sp_add (side_cmp s) px (new_aorder ?id q) (book_view b s))"
    "book_frame [] b b1" by (rule add_limit_ok [OF rel small room])
  have "?id \<in> set (side_ids (book_view b1 s))"
    by (auto simp: b1(3) side_ids_orders side_orders_add new_aorder_def)
  then have "find_id ?id b1 \<noteq> None" using id_table [OF b1(2), of ?id] by (cases s) auto
  then obtain a where a: "find_id ?id b1 = Some a" by blast
  from b1(2) obtain L1 where rel1: "book_rel L1 [] b1" by (auto simp: book_inv_iff)
  obtain b2 where b2: "cancel_order ?id b1 = (True, b2)" "book_inv [] b2"
    "book_view b2 = (\<lambda>t. sp_remove ?id (book_view b1 t))" "book_frame [] b1 b2"
    by (rule cancel_resting [OF rel1 a]) simp_all
  have new: "?id \<notin> set (side_ids (book_view b t))" for t
    using book_inv_ids(2) [OF inv, of ?id t] by auto
  have "sp_remove ?id (sp_add (side_cmp s) px (new_aorder ?id q) (book_view b s)) = book_view b s"
    using sp_remove_add [of "book_view b s" "new_aorder ?id q" "side_cmp s" px]
      book_inv_view(2) [OF inv] new by (simp add: new_aorder_def)
  moreover have "sp_remove ?id (book_view b (opposite s)) = book_view b (opposite s)"
    using book_inv_view(2) [OF inv] new by (intro sp_remove_absent)
  ultimately have "book_view b2 = book_view b"
    by (intro fun_side_eqI [where s = s]) (simp_all add: b2(3) b1(3))
  moreover have "book_frame [] b b2" using b1(4) b2(4) by (simp add: book_frame_def)
  ultimately show thesis using b1(1) b2(1,2) that by blast
qed

lemma add_iteration_ok:
  assumes lad: "on_ladder n f b" and room: "has_room n b"
  shows "\<exists>b'. add_iteration px t (b, lat) = (b', record_latency t lat) \<and> on_ladder n f b' \<and> has_room n b'"
proof -
  note l = on_ladderD [OF lad]
  have "level_liq px (book_view b Buy) + unat (1 :: u64) < 2 ^ 64"
    using level_liq_le [of px "book_view b Buy"] l(2) [of Buy] by (simp add: l(3) rungs_def rungs_liquidity)
  then obtain b1 b2 where b: "add_limit_order Buy px 1 b = (next_order_id b, b1)"
    "cancel_order (next_order_id b) b1 = (True, b2)" "book_inv [] b2" "book_view b2 = book_view b"
    "book_frame [] b b2" by (rule add_then_cancel [OF l(1) on_ladder_room [OF lad room]])
  then show ?thesis
    using lad room by (intro exI [of _ b2]) (simp add: add_iteration_def on_ladder_def frame_room)
qed

lemma interior_px:
  assumes "0 < d" and "d < 2 ^ 31"
  shows "interior_bid_px d = side_px Buy (nat (d sdiv 2))" and "nat (d sdiv 2) < nat d"
proof -
  have "d sdiv 2 = d div 2" using assms by (simp add: signed_divide_int_def)
  then show "interior_bid_px d = side_px Buy (nat (d sdiv 2))" "nat (d sdiv 2) < nat d"
    using assms by (simp_all add: interior_bid_px_def side_px_def)
qed

lemma cancel_iteration_ok:
  assumes lad: "on_ladder n f b" and room: "has_room n b" and i: "i < n Buy"
  shows "\<exists>b' f'. cancel_iteration (side_px Buy i) i t (b, map (f Buy) [0..<n Buy], lat) =
      Some (b', map (f' Buy) [0..<n Buy], record_latency t lat) \<and> on_ladder n f' b' \<and> has_room n b'"
proof -
  obtain b1 where b1: "cancel_order (f Buy i) b = (True, b1)" "book_inv [] b1" "book_frame [] b b1"
    "book_view b1 = (book_view b)(Buy := rungs Buy i (f Buy) @ map (rung Buy (f Buy)) [Suc i..<n Buy])"
    by (rule cancel_rung [OF lad i])
  obtain b2 where b2: "add_limit_order Buy (side_px Buy i) 1 b1 = (next_order_id b1, b2)"
    "on_ladder n (f(Buy := (f Buy)(i := next_order_id b1))) b2" "book_frame [] b b2"
    by (rule refill_rung [OF lad i b1(2,3) room b1(4)])
  have "(map (f Buy) [0..<n Buy])[i := x] = map ((f Buy)(i := x)) [0..<n Buy]" for x
    using i by (intro nth_equalityI) (auto simp: nth_list_update)
  then show ?thesis
    using b1(1) b2 i room
    by (intro exI [of _ b2] exI [of _ "f(Buy := (f Buy)(i := next_order_id b1))"])
      (simp add: cancel_iteration_def frame_room)
qed

lemma market_iteration_ok:
  assumes lad: "on_ladder n f b" and room: "has_room n b" and some: "0 < n Sell"
  shows "\<exists>b' f'. market_iteration t (b, lat) = Some (b', record_latency t lat) \<and>
    on_ladder n f' b' \<and> has_room n b'"
proof -
  note l = on_ladderD [OF lad]
  have match: "sp_match (unat (1 :: u64)) (book_view b (opposite Buy)) =
      ([(f Sell 0, side_px Sell 0, 1)], rungs Sell 0 (f Sell) @ map (rung Sell (f Sell)) [Suc 0..<n Sell])"
    using rungs_match [OF some] by (simp add: l(3))
  obtain gs b1 where b1: "market_order Buy 1 b = Some (gs, b1)" "map abs_fill gs = [(f Sell 0, side_px Sell 0, 1)]"
    "book_inv [] b1" "book_view b1 = (book_view b)(opposite Buy :=
       rungs Sell 0 (f Sell) @ map (rung Sell (f Sell)) [Suc 0..<n Sell])" "book_frame [] b b1"
    by (rule market_order_spec [OF l(1) match])
  from b1(2) obtain x where gs: "gs = [x]" "fill_price x = side_px Sell 0" "unat (fill_qty x) = 1"
    by (auto simp: abs_fill_def)
  have one: "fill_qty x = 1" using gs(3) by (simp add: word_unat_eq_iff)
  have view: "book_view b1 = (book_view b)(Sell := rungs Sell 0 (f Sell) @ map (rung Sell (f Sell)) [Suc 0..<n Sell])"
    using b1(4) by simp
  obtain b2 where b2: "add_limit_order Sell (side_px Sell 0) 1 b1 = (next_order_id b1, b2)"
    "on_ladder n (f(Sell := (f Sell)(0 := next_order_id b1))) b2" "book_frame [] b b2"
    by (rule refill_rung [OF lad some b1(3,5) room view])
  then show ?thesis
    using b1(1) room by (intro exI [of _ b2]) (auto simp: market_iteration_def gs one frame_room)
qed

subsection \<open>The loops\<close>

lemma add_loop_ok:
  "on_ladder n f b \<Longrightarrow> has_room n b \<Longrightarrow>
   \<exists>b'. fold (add_iteration px) ts (b, lat) = (b', fold record_latency ts lat) \<and>
     on_ladder n f b' \<and> has_room n b'"
proof (induction ts arbitrary: b lat)
  case (Cons t ts)
  from add_iteration_ok [OF Cons.prems, of px t lat] obtain b1 where
    "add_iteration px t (b, lat) = (b1, record_latency t lat)" "on_ladder n f b1" "has_room n b1" by blast
  with Cons.IH [of b1 "record_latency t lat"] show ?case by simp
qed simp

lemma cancel_loop_ok:
  assumes "i < n Buy"
  shows "on_ladder n f b \<Longrightarrow> has_room n b \<Longrightarrow>
   \<exists>b' f'. fold_opt (cancel_iteration (side_px Buy i) i) ts (b, map (f Buy) [0..<n Buy], lat) =
       Some (b', map (f' Buy) [0..<n Buy], fold record_latency ts lat) \<and>
     on_ladder n f' b' \<and> has_room n b'"
proof (induction ts arbitrary: f b lat)
  case (Cons t ts)
  from cancel_iteration_ok [OF Cons.prems assms, of t lat] obtain b1 f1 where
    "cancel_iteration (side_px Buy i) i t (b, map (f Buy) [0..<n Buy], lat) =
       Some (b1, map (f1 Buy) [0..<n Buy], record_latency t lat)" "on_ladder n f1 b1" "has_room n b1" by blast
  with Cons.IH [of f1 b1 "record_latency t lat"] show ?case by simp
qed auto

lemma market_loop_ok:
  assumes "0 < n Sell"
  shows "on_ladder n f b \<Longrightarrow> has_room n b \<Longrightarrow>
   \<exists>b' f'. fold_opt market_iteration ts (b, lat) = Some (b', fold record_latency ts lat) \<and>
     on_ladder n f' b' \<and> has_room n b'"
proof (induction ts arbitrary: f b lat)
  case (Cons t ts)
  from market_iteration_ok [OF Cons.prems assms, of t lat] obtain b1 f1 where
    "market_iteration t (b, lat) = Some (b1, record_latency t lat)" "on_ladder n f1 b1" "has_room n b1" by blast
  with Cons.IH [of f1 b1 "record_latency t lat"] show ?case by simp
qed auto

text \<open>The samples of a run: the intervals after the warm-up.\<close>

definition samples_of :: "(u64 \<times> u64) list \<Rightarrow> u64 list" where
  "samples_of ts = map (\<lambda>(t0, t1). ns_between t0 t1) (drop k_warmup ts)"

definition ring_of :: "(u64 \<times> u64) list \<Rightarrow> latency_ring" where
  "ring_of ts = fold lr_push (samples_of ts) (lr_new k_ring_n)"

lemma record_run: "fold record_latency ts new_latency = (k_warmup - length ts, ring_of ts)"
  by (simp add: new_latency_def record_latency_fold ring_of_def samples_of_def)

text \<open>Prices and quantities of a side, and those of a ladder of the given depth.\<close>

definition side_shape :: "aside \<Rightarrow> (price_t \<times> nat list) list" where
  "side_shape ls = map (\<lambda>(p, os). (p, map order_liq os)) ls"

definition full_ladder :: "int \<Rightarrow> side \<Rightarrow> (price_t \<times> nat list) list" where
  "full_ladder depth s = map (\<lambda>i. (side_px s i, [1])) [0..<nat depth]"

definition steady :: "int \<Rightarrow> order_book \<Rightarrow> bool" where
  "steady depth b \<longleftrightarrow> book_inv [] b \<and> (\<forall>s. side_shape (book_view b s) = full_ladder depth s)"

lemma on_ladder_steady: "on_ladder (\<lambda>_. nat d) f b \<Longrightarrow> steady d b"
  by (auto simp: on_ladder_def steady_def side_shape_def full_ladder_def rungs_def rung_def
      new_aorder_def order_liq_def)

lemma add_loop_run:
  assumes "0 < d" and "d < 2 ^ 31"
  obtains b where "add_loop d am ts = (b, k_warmup - length ts, ring_of ts)" "steady d b"
proof -
  have "0 \<le> d" using assms(1) by simp
  obtain f b0 where b0: "bench_book d am = (map (f Buy) [0..<nat d], map (f Sell) [0..<nat d], b0)"
    "on_ladder (\<lambda>_. nat d) f b0" "has_room (\<lambda>_. nat d) b0"
    by (rule bench_book_ok [OF \<open>0 \<le> d\<close> assms(2), of am])
  from add_loop_ok [OF b0(2,3), of "interior_bid_px d" ts new_latency] obtain b where
    "fold (add_iteration (interior_bid_px d)) ts (b0, new_latency) = (b, fold record_latency ts new_latency)"
    "on_ladder (\<lambda>_. nat d) f b" by blast
  then show thesis using b0(1) on_ladder_steady that by (simp add: add_loop_def record_run)
qed

lemma cancel_loop_run:
  assumes "0 < d" and "d < 2 ^ 31"
  obtains b bids where "cancel_loop d am ts = Some (b, bids, k_warmup - length ts, ring_of ts)" "steady d b"
proof -
  have "0 \<le> d" using assms(1) by simp
  obtain f b0 where b0: "bench_book d am = (map (f Buy) [0..<nat d], map (f Sell) [0..<nat d], b0)"
    "on_ladder (\<lambda>_. nat d) f b0" "has_room (\<lambda>_. nat d) b0"
    by (rule bench_book_ok [OF \<open>0 \<le> d\<close> assms(2), of am])
  note px = interior_px [OF assms]
  from cancel_loop_ok [OF px(2) b0(2,3), of ts new_latency] obtain b f' where
    "fold_opt (cancel_iteration (interior_bid_px d) (nat (d sdiv 2))) ts (b0, map (f Buy) [0..<nat d], new_latency) =
       Some (b, map (f' Buy) [0..<nat d], fold record_latency ts new_latency)"
    "on_ladder (\<lambda>_. nat d) f' b" unfolding px(1) by blast
  then show thesis using b0(1) on_ladder_steady that by (simp add: cancel_loop_def record_run)
qed

lemma market_loop_runs:
  assumes "0 < d" and "d < 2 ^ 31"
  obtains b where "market_loop_run d am ts = Some (b, k_warmup - length ts, ring_of ts)" "steady d b"
proof -
  have "0 \<le> d" "0 < nat d" using assms(1) by simp_all
  obtain f b0 where b0: "bench_book d am = (map (f Buy) [0..<nat d], map (f Sell) [0..<nat d], b0)"
    "on_ladder (\<lambda>_. nat d) f b0" "has_room (\<lambda>_. nat d) b0"
    by (rule bench_book_ok [OF \<open>0 \<le> d\<close> assms(2), of am])
  from market_loop_ok [OF \<open>0 < nat d\<close> b0(2,3), of ts new_latency] obtain b f' where
    "fold_opt market_iteration ts (b0, new_latency) = Some (b, fold record_latency ts new_latency)"
    "on_ladder (\<lambda>_. nat d) f' b" by blast
  then show thesis using b0(1) on_ladder_steady that by (simp add: market_loop_run_def record_run)
qed

text \<open>C35. The latency benchmarks measure what they say: from a book with one unit on each of \<open>depth\<close>
  ticks per side, with either allocator, no add of the set-up fails, the loops that add,
  cancel and match always return and never read outside the vector of ids, and however many
  iterations they ran, the book is again one unit on each of the same ticks.\<close>
theorem bench_loops_steady:
  assumes "0 < depth" and "depth < 2 ^ 31"
  shows "steady depth (snd (snd (bench_book depth am))) \<and>
    0 \<notin> set (fst (bench_book depth am)) \<union> set (fst (snd (bench_book depth am))) \<and>
    steady depth (fst (add_loop depth am ts)) \<and>
    (\<exists>b bids lat. cancel_loop depth am ts = Some (b, bids, lat) \<and> steady depth b) \<and>
    (\<exists>b lat. market_loop_run depth am ts = Some (b, lat) \<and> steady depth b)"
proof (intro conjI)
  have "0 \<le> depth" using assms(1) by simp
  obtain f b where b: "bench_book depth am = (map (f Buy) [0..<nat depth], map (f Sell) [0..<nat depth], b)"
    "on_ladder (\<lambda>_. nat depth) f b" by (rule bench_book_ok [OF \<open>0 \<le> depth\<close> assms(2), of am])
  show "steady depth (snd (snd (bench_book depth am)))" using on_ladder_steady [OF b(2)] by (simp add: b(1))
  have pos: "0 < f s i" if "i < nat depth" for s i
    by (rule book_inv_ids(1) [OF on_ladderD(1,5) [OF b(2)]]) (use that in simp)
  have "0 \<notin> set (map (f s) [0..<nat depth])" for s
  proof
    assume "0 \<in> set (map (f s) [0..<nat depth])"
    then obtain i where "i < nat depth" "f s i = 0" by auto
    with pos [of i s] show False by simp
  qed
  then show "0 \<notin> set (fst (bench_book depth am)) \<union> set (fst (snd (bench_book depth am)))"
    by (simp only: b(1) fst_conv snd_conv Un_iff) blast
  show "steady depth (fst (add_loop depth am ts))" by (rule add_loop_run [OF assms, of am ts]) simp
  show "\<exists>b bids lat. cancel_loop depth am ts = Some (b, bids, lat) \<and> steady depth b"
    by (rule cancel_loop_run [OF assms, of am ts]) blast
  show "\<exists>b lat. market_loop_run depth am ts = Some (b, lat) \<and> steady depth b"
    by (rule market_loop_runs [OF assms, of am ts]) blast
qed

theorem bench_loops_steady_witness:
  "steady 10 (fst (add_loop 10 0 [(5, 9)])) \<and> steady 10 (fst (add_loop 10 1 [(5, 9)]))"
  using bench_loops_steady [of 10 0 "[(5, 9)]"] bench_loops_steady [of 10 1 "[(5, 9)]"] by simp

end
