(* ===== verification/Bench_Report.thy ===== *)
theory Bench_Report
  imports Bench_Ladder Text_Format "HOL-Library.Product_Lexorder" "HOL-Library.List_Lexorder" "HOL-Library.Char_ord"
begin

section \<open>The report of the latency benchmarks\<close>

text \<open>
  The rows of bench/bench_lob.cpp, from the benchmark that publishes one to the anomalies
  that \<open>main\<close> prints. \<open>g_rows\<close> is a \<open>std::map\<close>: an association list in the order of its keys.
  What Google Benchmark reports of a run is a record. Measurements are real numbers, and
  an anomaly is a value that names its rows; the text printed for it is not modelled.
\<close>

subsection \<open>Rows\<close>

record result_row =
  rr_op :: string
  rr_depth :: int
  rr_alloc :: string
  rr_p50 :: real
  rr_p90 :: real
  rr_p99 :: real
  rr_p999 :: real
  rr_ns_op :: real
  rr_items :: real
  rr_note :: string

type_synonym row_key = "string \<times> int \<times> string"
type_synonym row_map = "(row_key \<times> result_row) list"

definition row_key :: "result_row \<Rightarrow> row_key" where
  "row_key r = (rr_op r, rr_depth r, rr_alloc r)"

text \<open>\<open>g_rows[key] = row\<close>\<close>

fun rows_put :: "'k :: linorder \<Rightarrow> 'v \<Rightarrow> ('k \<times> 'v) list \<Rightarrow> ('k \<times> 'v) list" where
  "rows_put k r [] = [(k, r)]"
| "rows_put k r ((k', r') # m) =
     (if k = k' then (k, r) # m
      else if k < k' then (k, r) # (k', r') # m
      else (k', r') # rows_put k r m)"

definition publish_row :: "result_row \<Rightarrow> row_map \<Rightarrow> row_map" where
  "publish_row r m =
     (if rr_op r \<noteq> ''sim_throughput'' \<and> rr_p50 r \<le> 0 \<and> rr_p99 r \<le> 0 then m
      else rows_put (row_key r) r m)"

text \<open>The ends of the benchmark functions: the percentiles of the ring are published.\<close>

definition latency_row :: "string \<Rightarrow> int \<Rightarrow> int \<Rightarrow> latency_ring \<Rightarrow> result_row" where
  "latency_row op depth am r =
     (let p = percentiles r
      in \<lparr>rr_op = op, rr_depth = depth, rr_alloc = alloc_name am, rr_p50 = p50 p, rr_p90 = p90 p,
          rr_p99 = p99 p, rr_p999 = p999 p, rr_ns_op = 0, rr_items = 0, rr_note = ''''\<rparr>)"

definition bm_add_limit_latency :: "int \<Rightarrow> int \<Rightarrow> (u64 \<times> u64) list \<Rightarrow> row_map \<Rightarrow> row_map" where
  "bm_add_limit_latency depth am ts m =
     (let (b, skip, r) = add_loop depth am ts in publish_row (latency_row ''add_limit_order'' depth am r) m)"

definition bm_cancel_latency :: "int \<Rightarrow> int \<Rightarrow> (u64 \<times> u64) list \<Rightarrow> row_map \<Rightarrow> row_map option" where
  "bm_cancel_latency depth am ts m =
     map_option (\<lambda>(b, bids, skip, r). publish_row (latency_row ''cancel_order'' depth am r) m)
       (cancel_loop depth am ts)"

definition bm_market_latency :: "int \<Rightarrow> int \<Rightarrow> (u64 \<times> u64) list \<Rightarrow> row_map \<Rightarrow> row_map option" where
  "bm_market_latency depth am ts m =
     map_option (\<lambda>(b, skip, r). publish_row (latency_row ''market_order'' depth am r) m)
       (market_loop_run depth am ts)"

text \<open>\<open>None\<close>: the simulator divides by zero, or does not return.\<close>

definition bm_sim_throughput ::
    "'g random_source \<Rightarrow> 'g \<Rightarrow> int \<Rightarrow> int \<Rightarrow> nat \<Rightarrow> row_map \<Rightarrow> row_map option" where
  "bm_sim_throughput R g depth am steps m =
     (case sim_bench R g depth am steps of
        Some (Inr _) \<Rightarrow> Some (publish_row
          \<lparr>rr_op = ''sim_throughput'', rr_depth = depth, rr_alloc = alloc_name am, rr_p50 = 0,
           rr_p90 = 0, rr_p99 = 0, rr_p999 = 0, rr_ns_op = 0, rr_items = 0, rr_note = ''''\<rparr> m)
      | _ \<Rightarrow> None)"

definition calibrate_clock_overhead :: "(u64 \<times> u64) list \<Rightarrow> real" where
  "calibrate_clock_overhead ts =
     p50 (percentiles (fold (\<lambda>(a, b). lr_push (ns_between a b)) ts (lr_new 4096)))"

subsection \<open>What the framework reports\<close>

fun has_sub :: "string \<Rightarrow> string \<Rightarrow> bool" where
  "has_sub pat s \<longleftrightarrow> take (length pat) s = pat \<or> (case s of [] \<Rightarrow> False | _ # r \<Rightarrow> has_sub pat r)"

declare has_sub.simps [simp del]

definition op_from_bm_name :: "string \<Rightarrow> string option" where
  "op_from_bm_name name =
     (if has_sub ''BM_AddLimitLatency'' name then Some ''add_limit_order''
      else if has_sub ''BM_CancelLatency'' name then Some ''cancel_order''
      else if has_sub ''BM_MarketLatency'' name then Some ''market_order''
      else if has_sub ''BM_SimThroughput'' name then Some ''sim_throughput''
      else None)"

text \<open>
  The arguments in a name: \<open>sscanf\<close> with \<open>"%d/%d"\<close> after the first slash; a conversion that
  fails leaves the zero.
\<close>

definition parse_bm_args :: "string \<Rightarrow> int \<times> int" where
  "parse_bm_args name =
     (case dropWhile (\<lambda>c. c \<noteq> CHR ''/'') name of
        [] \<Rightarrow> (0, 0)
      | _ # s \<Rightarrow>
          (case scan_int s of
             None \<Rightarrow> (0, 0)
           | Some (d, s1) \<Rightarrow>
               (case Option.bind (match_fmt ''/'' s1) scan_int of
                  None \<Rightarrow> (d, 0)
                | Some (am, _) \<Rightarrow> (d, am))))"

record bench_run =
  run_skipped :: bool
  run_iteration :: bool
  run_name :: string
  run_real_time :: real
  run_cpu_time :: real
  run_items_per_second :: "real option"

definition report_run :: "bench_run \<Rightarrow> row_map \<Rightarrow> row_map" where
  "report_run run m =
     (if run_skipped run \<or> \<not> run_iteration run then m
      else
        (case op_from_bm_name (run_name run) of
           None \<Rightarrow> m
         | Some op \<Rightarrow>
             (let (d, am) = parse_bm_args (run_name run);
                  ns = (if run_real_time run > 0 then run_real_time run else run_cpu_time run);
                  ips = (case run_items_per_second run of None \<Rightarrow> 0 | Some v \<Rightarrow> v);
                  key = (op, d, alloc_name am)
              in case map_of m key of
                   None \<Rightarrow> m
                 | Some row \<Rightarrow> rows_put key (row\<lparr>rr_ns_op := ns, rr_items := ips\<rparr>) m)))"

definition report_runs :: "bench_run list \<Rightarrow> row_map \<Rightarrow> row_map" where
  "report_runs runs m = fold report_run runs m"

subsection \<open>Anomalies\<close>

definition report_key :: "result_row \<Rightarrow> string \<times> string \<times> int" where
  "report_key r = (rr_op r, rr_alloc r, rr_depth r)"

text \<open>The comparator of \<open>std::sort\<close> compares by \<open>report_key\<close>.\<close>

definition snapshot_rows :: "row_map \<Rightarrow> result_row list" where
  "snapshot_rows m = sort_key report_key (map snd m)"

datatype anomaly =
    P50_Dropped result_row result_row
  | Ns_Op_Dropped result_row result_row
  | Clock_Floor result_row
  | Tail_Inverted result_row
  | Pool_Slower result_row result_row

definition neighbour_flags :: "result_row \<Rightarrow> result_row \<Rightarrow> anomaly list" where
  "neighbour_flags old cur =
     (if rr_op cur \<noteq> rr_op old \<or> rr_alloc cur \<noteq> rr_alloc old then []
      else if rr_op cur = ''sim_throughput'' then []
      else if rr_p50 cur \<le> 0 \<or> rr_p50 old \<le> 0 then []
      else
        (if rr_depth old < rr_depth cur \<and> rr_p50 cur < rr_p50 old * (80 / 100)
         then [P50_Dropped old cur] else []) @
        (if rr_depth old < rr_depth cur \<and> 0 < rr_ns_op cur \<and> 0 < rr_ns_op old \<and>
            rr_ns_op cur < rr_ns_op old * (80 / 100)
         then [Ns_Op_Dropped old cur] else []))"

definition row_flags :: "real \<Rightarrow> result_row \<Rightarrow> anomaly list" where
  "row_flags overhead r =
     (if rr_op r = ''sim_throughput'' then []
      else
        (if 0 < rr_p50 r \<and> rr_p50 r \<le> 2 * overhead then [Clock_Floor r] else []) @
        (if rr_p999 r + 1 / 1000000000 < rr_p99 r then [Tail_Inverted r] else []))"

text \<open>The pointers \<open>pool\<close> and \<open>heap\<close> of the third loop; a later test overwrites an earlier one.\<close>

definition pair_flags :: "result_row \<Rightarrow> result_row \<Rightarrow> anomaly list" where
  "pair_flags a b =
     (if rr_op a \<noteq> rr_op b \<or> rr_depth a \<noteq> rr_depth b then []
      else if rr_op a = ''sim_throughput'' then []
      else
        (let pick = (\<lambda>name. if rr_alloc b = name then Some b else if rr_alloc a = name then Some a else None)
         in case (pick ''pool'', pick ''heap'') of
              (Some p, Some h) \<Rightarrow>
                (if rr_p50 p \<le> 0 \<or> rr_p50 h \<le> 0 then []
                 else if rr_p50 p > rr_p50 h * 2 then [Pool_Slower p h] else [])
            | _ \<Rightarrow> []))"

definition flag_anomalies :: "real \<Rightarrow> row_map \<Rightarrow> anomaly list" where
  "flag_anomalies overhead m =
     (let rows = snapshot_rows m
      in concat (map (\<lambda>i. neighbour_flags (rows ! (i - 1)) (rows ! i)) [1..<length rows]) @
         concat (map (row_flags overhead) rows) @
         concat (map (\<lambda>i. concat (map (\<lambda>j. pair_flags (rows ! i) (rows ! j)) [i + 1..<length rows]))
           [0..<length rows]))"

subsection \<open>The map of rows\<close>

definition rows_inv :: "row_map \<Rightarrow> bool" where
  "rows_inv m \<longleftrightarrow> sorted_wrt (<) (map fst m) \<and> (\<forall>(k, r) \<in> set m. k = row_key r)"

definition rows_of :: "row_map \<Rightarrow> result_row set" where
  "rows_of m = snd ` set m"

lemma rows_put_keys: "fst ` set (rows_put k r m) = insert k (fst ` set m)"
  by (induction k r m rule: rows_put.induct) auto

lemma rows_put_sorted: "sorted_wrt (<) (map fst m) \<Longrightarrow> sorted_wrt (<) (map fst (rows_put k r m))"
proof (induction k r m rule: rows_put.induct)
  case (2 k r k' r' m)
  show ?case
  proof (cases "k' < k")
    case True
    then show ?thesis using 2 rows_put_keys [of k r m] by (auto simp flip: image_set)
  next
    case False
    then show ?thesis using "2.prems" by (auto simp: not_less intro: less_trans)
  qed
qed simp

lemma rows_put_set:
  "sorted_wrt (<) (map fst m) \<Longrightarrow> set (rows_put k r m) = insert (k, r) {x \<in> set m. fst x \<noteq> k}"
  by (induction k r m rule: rows_put.induct) (auto split: if_splits)

lemma rows_put_map: "map_of (rows_put k r m) = (map_of m)(k \<mapsto> r)"
  by (induction k r m rule: rows_put.induct) auto

lemma rows_put_inv: "rows_inv m \<Longrightarrow> k = row_key r \<Longrightarrow> rows_inv (rows_put k r m)"
  by (auto simp: rows_inv_def rows_put_sorted rows_put_set)

lemma rows_of_put: "rows_inv m \<Longrightarrow> rows_of (rows_put k r m) \<subseteq> insert r (rows_of m)"
  by (auto simp: rows_inv_def rows_put_set rows_of_def)

lemma publish_inv: "rows_inv m \<Longrightarrow> rows_inv (publish_row r m)"
  by (simp add: publish_row_def rows_put_inv)

lemma rows_of_publish: "rows_inv m \<Longrightarrow> rows_of (publish_row r m) \<subseteq> insert r (rows_of m)"
  using rows_of_put by (auto simp: publish_row_def)

text \<open>A row is found under its own key.\<close>

lemma rows_find:
  assumes "rows_inv m"
  shows "map_of m k = Some r \<longleftrightarrow> r \<in> rows_of m \<and> row_key r = k"
proof -
  have "distinct (map fst m)" using assms by (simp add: rows_inv_def strict_sorted_iff)
  then have "map_of m k = Some r \<longleftrightarrow> (k, r) \<in> set m" by (rule map_of_eq_Some_iff)
  then show ?thesis using assms by (force simp: rows_inv_def rows_of_def)
qed

lemma snapshot_set: "set (snapshot_rows m) = rows_of m"
  by (simp add: snapshot_rows_def rows_of_def)

lemma report_key_inj: "report_key a = report_key b \<longleftrightarrow> row_key a = row_key b"
  by (auto simp: report_key_def row_key_def)

lemma snapshot_sorted:
  assumes "rows_inv m"
  shows "sorted_wrt (<) (map report_key (snapshot_rows m))"
proof -
  have "map fst m = map row_key (map snd m)" using assms by (auto simp: rows_inv_def)
  moreover have "distinct (map fst m)" using assms by (simp add: rows_inv_def strict_sorted_iff)
  ultimately have "distinct (map row_key (map snd m))" by (simp only:)
  then have "distinct (map snd m) \<and> inj_on report_key (set (map snd m))"
    unfolding distinct_map [of row_key] by (auto simp: inj_on_def report_key_inj)
  then have "distinct (map report_key (snapshot_rows m))"
    by (simp only: snapshot_rows_def distinct_map [of report_key] distinct_sort set_sort)
  moreover have "sorted (map report_key (snapshot_rows m))" by (simp add: snapshot_rows_def)
  ultimately show ?thesis by (simp only: strict_sorted_iff)
qed

subsection \<open>Neighbours in a strictly sorted list\<close>

lemma neighbours_iff:
  fixes f :: "'a \<Rightarrow> 'b :: linorder"
  assumes "sorted_wrt (<) (map f xs)"
  shows "(\<exists>i. 1 \<le> i \<and> i < length xs \<and> a = xs ! (i - 1) \<and> b = xs ! i) \<longleftrightarrow>
    a \<in> set xs \<and> b \<in> set xs \<and> f a < f b \<and> \<not> (\<exists>c \<in> set xs. f a < f c \<and> f c < f b)"
proof -
  have mono: "f (xs ! i) < f (xs ! j) \<longleftrightarrow> i < j" if "i < length xs" "j < length xs" for i j
  proof (cases i j rule: linorder_cases)
    case less
    then show ?thesis using assms that sorted_wrt_nth_less [OF assms, of i j] by simp
  next
    case greater
    then have "f (xs ! j) < f (xs ! i)" using assms that sorted_wrt_nth_less [OF assms, of j i] by simp
    then show ?thesis using greater by (simp add: less_not_sym)
  qed simp
  show ?thesis
  proof
    assume "\<exists>i. 1 \<le> i \<and> i < length xs \<and> a = xs ! (i - 1) \<and> b = xs ! i"
    then obtain i where i: "1 \<le> i" "i < length xs" "a = xs ! (i - 1)" "b = xs ! i" by blast
    have "\<not> (f a < f c \<and> f c < f b)" if c: "c \<in> set xs" for c
    proof -
      from c obtain k where "k < length xs" "c = xs ! k" by (auto simp: in_set_conv_nth)
      then have "f a < f c \<longleftrightarrow> i - 1 < k" "f c < f b \<longleftrightarrow> k < i"
        using mono [of "i - 1" k] mono [of k i] i by simp_all
      then show ?thesis by linarith
    qed
    then show "a \<in> set xs \<and> b \<in> set xs \<and> f a < f b \<and> \<not> (\<exists>c \<in> set xs. f a < f c \<and> f c < f b)"
      using i mono [of "i - 1" i] by auto
  next
    assume r: "a \<in> set xs \<and> b \<in> set xs \<and> f a < f b \<and> \<not> (\<exists>c \<in> set xs. f a < f c \<and> f c < f b)"
    then obtain i j where ij: "i < length xs" "a = xs ! i" "j < length xs" "b = xs ! j"
      by (auto simp: in_set_conv_nth)
    have "i < j" using r mono ij by blast
    moreover have "\<not> Suc i < j"
    proof
      assume "Suc i < j"
      then have "f a < f (xs ! Suc i)" "f (xs ! Suc i) < f b" "xs ! Suc i \<in> set xs"
        using mono [of i "Suc i"] mono [of "Suc i" j] ij by simp_all
      with r show False by blast
    qed
    ultimately have "j = Suc i" by simp
    with ij show "\<exists>i. 1 \<le> i \<and> i < length xs \<and> a = xs ! (i - 1) \<and> b = xs ! i"
      by (intro exI [of _ j]) simp
  qed
qed

end
