(* ===== verification/Bench_Anomalies.thy ===== *)
theory Bench_Anomalies
  imports Bench_Report
begin

section \<open>What the report of the latency benchmarks says\<close>

text \<open>
  Which anomalies are flagged for a table of rows, what the benchmarks publish into it, and
  which tables the program can build.
\<close>

subsection \<open>Which anomalies are reported\<close>

text \<open>\<open>b\<close> is the row of the next depth after \<open>a\<close>, of the same operation and allocator.\<close>

definition next_depth :: "row_map \<Rightarrow> result_row \<Rightarrow> result_row \<Rightarrow> bool" where
  "next_depth m a b \<longleftrightarrow>
     a \<in> rows_of m \<and> b \<in> rows_of m \<and> rr_op a = rr_op b \<and> rr_alloc a = rr_alloc b \<and> rr_depth a < rr_depth b \<and>
     \<not> (\<exists>c \<in> rows_of m. rr_op c = rr_op a \<and> rr_alloc c = rr_alloc a \<and>
          rr_depth a < rr_depth c \<and> rr_depth c < rr_depth b)"

lemma triple_between:
  fixes x :: "'a :: linorder \<times> 'b :: linorder \<times> 'c :: linorder"
  shows "(u, v, d) < x \<Longrightarrow> x < (u, v, e) \<Longrightarrow> fst x = u \<and> fst (snd x) = v \<and> d < snd (snd x) \<and> snd (snd x) < e"
  by (cases x) (auto simp: less_prod_def)

lemma next_depth_iff:
  assumes "rows_inv m" and same: "rr_op a = rr_op b" "rr_alloc a = rr_alloc b"
  shows "next_depth m a b \<longleftrightarrow> (\<exists>i. 1 \<le> i \<and> i < length (snapshot_rows m) \<and>
    a = snapshot_rows m ! (i - 1) \<and> b = snapshot_rows m ! i)"
proof -
  have key: "report_key a = (rr_op b, rr_alloc b, rr_depth a)" "report_key b = (rr_op b, rr_alloc b, rr_depth b)"
    using same by (simp_all add: report_key_def)
  have less: "report_key a < report_key b \<longleftrightarrow> rr_depth a < rr_depth b" by (simp add: key)
  have between: "report_key a < report_key c \<and> report_key c < report_key b \<longleftrightarrow>
      rr_op c = rr_op a \<and> rr_alloc c = rr_alloc a \<and> rr_depth a < rr_depth c \<and> rr_depth c < rr_depth b" for c
  proof
    assume "report_key a < report_key c \<and> report_key c < report_key b"
    then show "rr_op c = rr_op a \<and> rr_alloc c = rr_alloc a \<and> rr_depth a < rr_depth c \<and> rr_depth c < rr_depth b"
      using triple_between [of "rr_op b" "rr_alloc b" "rr_depth a" "report_key c" "rr_depth b"] same
      unfolding key by (simp add: report_key_def)
  qed (simp add: report_key_def same)
  show ?thesis
    unfolding neighbours_iff [OF snapshot_sorted [OF assms(1)]] snapshot_set less between next_depth_def
    using same by blast
qed

text \<open>The three kinds of flags.\<close>

lemma flags_neighbour:
  "x \<in> set (flag_anomalies ov m) \<longleftrightarrow>
     (\<exists>i. 1 \<le> i \<and> i < length (snapshot_rows m) \<and>
        x \<in> set (neighbour_flags (snapshot_rows m ! (i - 1)) (snapshot_rows m ! i))) \<or>
     (\<exists>r \<in> rows_of m. x \<in> set (row_flags ov r)) \<or>
     (\<exists>i j. i < j \<and> j < length (snapshot_rows m) \<and>
        x \<in> set (pair_flags (snapshot_rows m ! i) (snapshot_rows m ! j)))"
  unfolding flag_anomalies_def Let_def set_append set_concat set_map set_upt Un_iff
  using snapshot_set [of m] by (auto simp: Suc_le_eq)

lemma mem_if: "z \<in> set (if c then xs else ys) \<longleftrightarrow> c \<and> z \<in> set xs \<or> \<not> c \<and> z \<in> set ys"
  by simp

lemmas flag_logic = mem_if set_append Un_iff list.set empty_iff insert_iff anomaly.inject anomaly.distinct
  simp_thms not_le de_Morgan_disj not_not

lemma neighbour_flags_kinds:
  "P50_Dropped a b \<in> set (neighbour_flags x y) \<longleftrightarrow> a = x \<and> b = y \<and> rr_op b = rr_op a \<and> rr_alloc b = rr_alloc a \<and>
     rr_op b \<noteq> ''sim_throughput'' \<and> 0 < rr_p50 b \<and> 0 < rr_p50 a \<and> rr_depth a < rr_depth b \<and>
     rr_p50 b < rr_p50 a * (80 / 100)"
  "Ns_Op_Dropped a b \<in> set (neighbour_flags x y) \<longleftrightarrow> a = x \<and> b = y \<and> rr_op b = rr_op a \<and> rr_alloc b = rr_alloc a \<and>
     rr_op b \<noteq> ''sim_throughput'' \<and> 0 < rr_p50 b \<and> 0 < rr_p50 a \<and> rr_depth a < rr_depth b \<and>
     0 < rr_ns_op b \<and> 0 < rr_ns_op a \<and> rr_ns_op b < rr_ns_op a * (80 / 100)"
  by (simp only: neighbour_flags_def flag_logic, blast)+

lemma neighbour_flags_others:
  "Clock_Floor r \<notin> set (neighbour_flags x y)" "Tail_Inverted r \<notin> set (neighbour_flags x y)"
  "Pool_Slower a b \<notin> set (neighbour_flags x y)"
  by (simp_all only: neighbour_flags_def flag_logic)

lemma row_flags_kinds:
  "Clock_Floor r \<in> set (row_flags ov x) \<longleftrightarrow>
     r = x \<and> rr_op r \<noteq> ''sim_throughput'' \<and> 0 < rr_p50 r \<and> rr_p50 r \<le> 2 * ov"
  "Tail_Inverted r \<in> set (row_flags ov x) \<longleftrightarrow>
     r = x \<and> rr_op r \<noteq> ''sim_throughput'' \<and> rr_p999 r + 1 / 1000000000 < rr_p99 r"
  by (simp only: row_flags_def flag_logic, blast)+

lemma row_flags_others:
  "P50_Dropped a b \<notin> set (row_flags ov x)" "Ns_Op_Dropped a b \<notin> set (row_flags ov x)"
  "Pool_Slower a b \<notin> set (row_flags ov x)"
  by (simp_all only: row_flags_def flag_logic)

definition slower :: "result_row \<Rightarrow> result_row \<Rightarrow> bool" where
  "slower p h \<longleftrightarrow> rr_op p = rr_op h \<and> rr_depth p = rr_depth h \<and> rr_op p \<noteq> ''sim_throughput'' \<and>
     rr_alloc p = ''pool'' \<and> rr_alloc h = ''heap'' \<and> 0 < rr_p50 p \<and> 0 < rr_p50 h \<and> rr_p50 h * 2 < rr_p50 p"

lemma pair_flags_kinds:
  "P50_Dropped a b \<notin> set (pair_flags x y)" "Ns_Op_Dropped a b \<notin> set (pair_flags x y)"
  "Clock_Floor r \<notin> set (pair_flags x y)" "Tail_Inverted r \<notin> set (pair_flags x y)"
  "Pool_Slower p h \<in> set (pair_flags x y) \<longleftrightarrow> slower p h \<and> (p = x \<and> h = y \<or> p = y \<and> h = x)"
proof -
  let ?pick = "\<lambda>name. if rr_alloc y = name then Some y else if rr_alloc x = name then Some x else None"
  have form: "pair_flags x y = (if rr_op x = rr_op y \<and> rr_depth x = rr_depth y \<and> rr_op x \<noteq> ''sim_throughput'' then
      (case ?pick ''pool'' of None \<Rightarrow> [] | Some p \<Rightarrow> (case ?pick ''heap'' of None \<Rightarrow> [] | Some h \<Rightarrow>
        if 0 < rr_p50 p \<and> 0 < rr_p50 h \<and> rr_p50 h * 2 < rr_p50 p then [Pool_Slower p h] else [])) else [])"
    unfolding pair_flags_def Let_def prod.case
    by (cases "?pick ''pool''"; cases "?pick ''heap''") (simp_all only: option.case not_le flip: not_less, simp_all add: not_le)
  have other: "z \<in> set (pair_flags x y) \<Longrightarrow> \<exists>p h. z = Pool_Slower p h" for z
    unfolding form by (cases "?pick ''pool''"; cases "?pick ''heap''") (simp_all only: option.case mem_if list.set empty_iff insert_iff simp_thms, blast)
  then show "P50_Dropped a b \<notin> set (pair_flags x y)" "Ns_Op_Dropped a b \<notin> set (pair_flags x y)"
    "Clock_Floor r \<notin> set (pair_flags x y)" "Tail_Inverted r \<notin> set (pair_flags x y)" by blast+
  show "Pool_Slower p h \<in> set (pair_flags x y) \<longleftrightarrow> slower p h \<and> (p = x \<and> h = y \<or> p = y \<and> h = x)"
  proof -
    have pick: "?pick n = Some z \<longleftrightarrow> rr_alloc y = n \<and> z = y \<or> rr_alloc y \<noteq> n \<and> rr_alloc x = n \<and> z = x" for n z
      by auto
    have mem: "Pool_Slower p h \<in> set (pair_flags x y) \<longleftrightarrow>
        rr_op x = rr_op y \<and> rr_depth x = rr_depth y \<and> rr_op x \<noteq> ''sim_throughput'' \<and>
        ?pick ''pool'' = Some p \<and> ?pick ''heap'' = Some h \<and>
        0 < rr_p50 p \<and> 0 < rr_p50 h \<and> rr_p50 h * 2 < rr_p50 p"
      unfolding form by (cases "?pick ''pool''"; cases "?pick ''heap''")
        (simp_all only: option.case mem_if list.set empty_iff insert_iff simp_thms option.inject option.distinct anomaly.inject, blast)
    have "''pool'' \<noteq> ''heap''" by simp
    then show ?thesis unfolding mem pick slower_def by metis
  qed
qed

text \<open>C37. The report flags exactly what it says. A drop of the median, or of the time per operation, by
  more than a fifth is reported if and only if the two rows are of one operation and allocator, at
  two depths with none between them; a pool row twice as slow as the heap row of the same
  operation and depth always is; and a row whose median is within twice the overhead of the
  clock always is. Throughput rows are never flagged.\<close>
theorem anomalies_exact:
  assumes "rows_inv m"
  shows "(P50_Dropped a b \<in> set (flag_anomalies ov m) \<longleftrightarrow>
      next_depth m a b \<and> rr_op a \<noteq> ''sim_throughput'' \<and> 0 < rr_p50 a \<and> 0 < rr_p50 b \<and>
      rr_p50 b < rr_p50 a * (80 / 100)) \<and>
    (Ns_Op_Dropped a b \<in> set (flag_anomalies ov m) \<longleftrightarrow>
      next_depth m a b \<and> rr_op a \<noteq> ''sim_throughput'' \<and> 0 < rr_p50 a \<and> 0 < rr_p50 b \<and>
      0 < rr_ns_op a \<and> 0 < rr_ns_op b \<and> rr_ns_op b < rr_ns_op a * (80 / 100)) \<and>
    (Pool_Slower p h \<in> set (flag_anomalies ov m) \<longleftrightarrow> p \<in> rows_of m \<and> h \<in> rows_of m \<and> slower p h) \<and>
    (Clock_Floor r \<in> set (flag_anomalies ov m) \<longleftrightarrow>
      r \<in> rows_of m \<and> rr_op r \<noteq> ''sim_throughput'' \<and> 0 < rr_p50 r \<and> rr_p50 r \<le> 2 * ov)"
proof (intro conjI)
  let ?rows = "snapshot_rows m"
  have near: "(\<exists>i. 1 \<le> i \<and> i < length ?rows \<and> a = ?rows ! (i - 1) \<and> b = ?rows ! i \<and>
      rr_op b = rr_op a \<and> rr_alloc b = rr_alloc a \<and> Q) \<longleftrightarrow> next_depth m a b \<and> Q" for Q
  proof (cases "rr_op a = rr_op b \<and> rr_alloc a = rr_alloc b")
    case True
    then show ?thesis using next_depth_iff [OF assms, of a b] by auto
  next
    case False
    then show ?thesis by (auto simp: next_depth_def)
  qed
  have deeper: "next_depth m a b \<Longrightarrow> rr_depth a < rr_depth b \<and> rr_op b = rr_op a" by (simp add: next_depth_def)
  have kind: "P50_Dropped a b \<in> set (flag_anomalies ov m) \<longleftrightarrow> (\<exists>i. 1 \<le> i \<and> i < length ?rows \<and>
      P50_Dropped a b \<in> set (neighbour_flags (?rows ! (i - 1)) (?rows ! i)))"
    unfolding flags_neighbour by (simp only: row_flags_others(1) pair_flags_kinds(1) Bex_def simp_thms)
  also have "\<dots> \<longleftrightarrow> (\<exists>i. 1 \<le> i \<and> i < length ?rows \<and> a = ?rows ! (i - 1) \<and> b = ?rows ! i \<and>
      rr_op b = rr_op a \<and> rr_alloc b = rr_alloc a \<and> rr_op b \<noteq> ''sim_throughput'' \<and> 0 < rr_p50 b \<and>
      0 < rr_p50 a \<and> rr_depth a < rr_depth b \<and> rr_p50 b < rr_p50 a * (80 / 100))"
    unfolding neighbour_flags_kinds ..
  also note near
  finally show "P50_Dropped a b \<in> set (flag_anomalies ov m) \<longleftrightarrow>
      next_depth m a b \<and> rr_op a \<noteq> ''sim_throughput'' \<and> 0 < rr_p50 a \<and> 0 < rr_p50 b \<and>
      rr_p50 b < rr_p50 a * (80 / 100)" using deeper by metis
  have "Ns_Op_Dropped a b \<in> set (flag_anomalies ov m) \<longleftrightarrow> (\<exists>i. 1 \<le> i \<and> i < length ?rows \<and>
      Ns_Op_Dropped a b \<in> set (neighbour_flags (?rows ! (i - 1)) (?rows ! i)))"
    unfolding flags_neighbour by (simp only: row_flags_others(2) pair_flags_kinds(2) Bex_def simp_thms)
  also have "\<dots> \<longleftrightarrow> (\<exists>i. 1 \<le> i \<and> i < length ?rows \<and> a = ?rows ! (i - 1) \<and> b = ?rows ! i \<and>
      rr_op b = rr_op a \<and> rr_alloc b = rr_alloc a \<and> rr_op b \<noteq> ''sim_throughput'' \<and> 0 < rr_p50 b \<and>
      0 < rr_p50 a \<and> rr_depth a < rr_depth b \<and> 0 < rr_ns_op b \<and> 0 < rr_ns_op a \<and>
      rr_ns_op b < rr_ns_op a * (80 / 100))"
    unfolding neighbour_flags_kinds ..
  also note near
  finally show "Ns_Op_Dropped a b \<in> set (flag_anomalies ov m) \<longleftrightarrow>
      next_depth m a b \<and> rr_op a \<noteq> ''sim_throughput'' \<and> 0 < rr_p50 a \<and> 0 < rr_p50 b \<and>
      0 < rr_ns_op a \<and> 0 < rr_ns_op b \<and> rr_ns_op b < rr_ns_op a * (80 / 100)" using deeper by metis
  have "Clock_Floor r \<in> set (flag_anomalies ov m) \<longleftrightarrow>
      (\<exists>x \<in> rows_of m. Clock_Floor r \<in> set (row_flags ov x))"
    unfolding flags_neighbour by (simp only: neighbour_flags_others(1) pair_flags_kinds(3) Bex_def simp_thms)
  then show "Clock_Floor r \<in> set (flag_anomalies ov m) \<longleftrightarrow>
      r \<in> rows_of m \<and> rr_op r \<noteq> ''sim_throughput'' \<and> 0 < rr_p50 r \<and> rr_p50 r \<le> 2 * ov"
    unfolding row_flags_kinds by blast
  have "Pool_Slower p h \<in> set (flag_anomalies ov m) \<longleftrightarrow> (\<exists>i j. i < j \<and> j < length ?rows \<and>
      Pool_Slower p h \<in> set (pair_flags (?rows ! i) (?rows ! j)))"
    unfolding flags_neighbour by (simp only: neighbour_flags_others(3) row_flags_others(3) Bex_def simp_thms)
  also have "\<dots> \<longleftrightarrow> (\<exists>i j. i < j \<and> j < length ?rows \<and>
      (p = ?rows ! i \<and> h = ?rows ! j \<or> p = ?rows ! j \<and> h = ?rows ! i)) \<and> slower p h"
    unfolding pair_flags_kinds by blast
  also have "\<dots> \<longleftrightarrow> (p \<in> rows_of m \<and> h \<in> rows_of m) \<and> slower p h"
  proof (cases "slower p h")
    case True
    then have ne: "p \<noteq> h" by (auto simp: slower_def)
    have "(\<exists>i j. i < j \<and> j < length ?rows \<and> (p = ?rows ! i \<and> h = ?rows ! j \<or> p = ?rows ! j \<and> h = ?rows ! i)) \<longleftrightarrow>
        p \<in> rows_of m \<and> h \<in> rows_of m"
    proof
      assume "p \<in> rows_of m \<and> h \<in> rows_of m"
      then obtain i j where ij: "i < length ?rows" "p = ?rows ! i" "j < length ?rows" "h = ?rows ! j"
        by (auto simp: snapshot_set [symmetric] in_set_conv_nth)
      with ne have "i \<noteq> j" by auto
      then consider "i < j" | "j < i" by linarith
      then show "\<exists>i j. i < j \<and> j < length ?rows \<and> (p = ?rows ! i \<and> h = ?rows ! j \<or> p = ?rows ! j \<and> h = ?rows ! i)"
        using ij by cases blast+
    qed (auto simp: snapshot_set [symmetric])
    then show ?thesis by blast
  qed blast
  finally show "Pool_Slower p h \<in> set (flag_anomalies ov m) \<longleftrightarrow> p \<in> rows_of m \<and> h \<in> rows_of m \<and> slower p h"
    by blast
qed

definition row_a :: result_row where
  "row_a = \<lparr>rr_op = ''a'', rr_depth = 10, rr_alloc = ''pool'', rr_p50 = 100, rr_p90 = 110, rr_p99 = 120,
     rr_p999 = 130, rr_ns_op = 0, rr_items = 0, rr_note = ''''\<rparr>"

theorem anomalies_exact_witness:
  "P50_Dropped row_a (row_a\<lparr>rr_depth := 50, rr_p50 := 60\<rparr>) \<in>
     set (flag_anomalies 20 [(row_key row_a, row_a), ((''a'', 50, ''pool''), row_a\<lparr>rr_depth := 50, rr_p50 := 60\<rparr>)])"
proof -
  let ?b = "row_a\<lparr>rr_depth := 50, rr_p50 := 60\<rparr>"
  let ?m = "[(row_key row_a, row_a), ((''a'', 50, ''pool''), ?b)]"
  have inv: "rows_inv ?m" by (simp add: rows_inv_def row_key_def row_a_def)
  have "next_depth ?m row_a ?b" by (simp add: next_depth_def rows_of_def row_a_def)
  then show ?thesis using anomalies_exact [OF inv, of row_a ?b 20] by (simp add: row_a_def)
qed

subsection \<open>The published rows\<close>

lemma snd_add_fold: "snd (fold (add_iteration px) ts (b, lat)) = fold record_latency ts lat"
proof (induction ts arbitrary: b lat)
  case (Cons t ts)
  obtain b1 where "add_iteration px t (b, lat) = (b1, record_latency t lat)"
    by (cases "add_limit_order Buy px 1 b") (simp add: add_iteration_def)
  with Cons show ?case by simp
qed simp

lemma snd_cancel_fold:
  "fold_opt (cancel_iteration px i) ts (b, ids, lat) = Some (b', ids', lat') \<Longrightarrow> lat' = fold record_latency ts lat"
proof (induction ts arbitrary: b ids lat)
  case (Cons t ts)
  from Cons.prems obtain b1 ids1 lat1 where one: "cancel_iteration px i t (b, ids, lat) = Some (b1, ids1, lat1)"
    "fold_opt (cancel_iteration px i) ts (b1, ids1, lat1) = Some (b', ids', lat')"
    by (auto simp: bind_eq_Some_conv)
  have "lat1 = record_latency t lat"
    using one(1) by (auto simp: cancel_iteration_def Let_def split: if_splits prod.splits)
  with Cons.IH [OF one(2)] show ?case by simp
qed simp

lemma snd_market_fold:
  "fold_opt market_iteration ts (b, lat) = Some (b', lat') \<Longrightarrow> lat' = fold record_latency ts lat"
proof (induction ts arbitrary: b lat)
  case (Cons t ts)
  from Cons.prems obtain b1 lat1 where one: "market_iteration t (b, lat) = Some (b1, lat1)"
    "fold_opt market_iteration ts (b1, lat1) = Some (b', lat')" by (auto simp: bind_eq_Some_conv)
  have "lat1 = record_latency t lat" using one(1) by (auto simp: market_iteration_def split: if_splits)
  with Cons.IH [OF one(2)] show ?case by simp
qed simp

text \<open>Whatever the book does, a benchmark that returns publishes the row of its ring.\<close>

lemma bm_rows:
  "bm_add_limit_latency depth am ts m = publish_row (latency_row ''add_limit_order'' depth am (ring_of ts)) m"
  "bm_cancel_latency depth am ts m = Some m' \<Longrightarrow>
     m' = publish_row (latency_row ''cancel_order'' depth am (ring_of ts)) m"
  "bm_market_latency depth am ts m = Some m' \<Longrightarrow>
     m' = publish_row (latency_row ''market_order'' depth am (ring_of ts)) m"
proof -
  obtain ids ids2 b where bb: "bench_book depth am = (ids, ids2, b)" by (cases "bench_book depth am")
  have "snd (add_loop depth am ts) = (k_warmup - length ts, ring_of ts)"
    by (simp add: add_loop_def bb snd_add_fold record_run)
  then show "bm_add_limit_latency depth am ts m = publish_row (latency_row ''add_limit_order'' depth am (ring_of ts)) m"
    by (cases "add_loop depth am ts") (simp add: bm_add_limit_latency_def)
  show "m' = publish_row (latency_row ''cancel_order'' depth am (ring_of ts)) m"
    if "bm_cancel_latency depth am ts m = Some m'"
  proof -
    from that obtain b' ids' skip r where c: "cancel_loop depth am ts = Some (b', ids', skip, r)"
      "m' = publish_row (latency_row ''cancel_order'' depth am r) m" by (auto simp: bm_cancel_latency_def)
    have "(skip, r) = fold record_latency ts new_latency"
      by (rule snd_cancel_fold) (use c(1) in \<open>simp add: cancel_loop_def bb\<close>)
    with c(2) show ?thesis by (simp add: record_run)
  qed
  show "m' = publish_row (latency_row ''market_order'' depth am (ring_of ts)) m"
    if "bm_market_latency depth am ts m = Some m'"
  proof -
    from that obtain b' skip r where c: "market_loop_run depth am ts = Some (b', skip, r)"
      "m' = publish_row (latency_row ''market_order'' depth am r) m" by (auto simp: bm_market_latency_def)
    have "(skip, r) = fold record_latency ts new_latency"
      by (rule snd_market_fold) (use c(1) in \<open>simp add: market_loop_run_def bb\<close>)
    with c(2) show ?thesis by (simp add: record_run)
  qed
qed

lemma pow_cap_ring: "pow_cap k_ring_n"
  unfolding pow_cap_def k_ring_n_def by (intro exI [of _ 16]) simp

text \<open>The percentiles of the ring; an empty ring has zeros.\<close>

lemma ring_percentiles:
  "percentiles (ring_of ts) =
     (if samples_of ts = [] then \<lparr>p50 = 0, p90 = 0, p99 = 0, p999 = 0\<rparr>
      else (let w = sort (drop (length (samples_of ts) - k_ring_n) (samples_of ts))
        in \<lparr>p50 = pct_at w (50 / 100), p90 = pct_at w (90 / 100), p99 = pct_at w (99 / 100),
            p999 = pct_at w (999 / 1000)\<rparr>))"
proof (cases "samples_of ts = []")
  case True
  then show ?thesis by (simp add: ring_of_def percentiles_def lr_new_def)
next
  case False
  from percentiles_recent [OF pow_cap_ring False] False show ?thesis by (simp add: Let_def ring_of_def)
qed

text \<open>The maps the program can build: benchmarks and reports in any order.\<close>

inductive rows_reach :: "'g random_source \<Rightarrow> row_map \<Rightarrow> bool" for R where
  start: "rows_reach R []"
| add: "rows_reach R m \<Longrightarrow> rows_reach R (bm_add_limit_latency depth am ts m)"
| cancel: "rows_reach R m \<Longrightarrow> bm_cancel_latency depth am ts m = Some m' \<Longrightarrow> rows_reach R m'"
| market: "rows_reach R m \<Longrightarrow> bm_market_latency depth am ts m = Some m' \<Longrightarrow> rows_reach R m'"
| sim: "rows_reach R m \<Longrightarrow> bm_sim_throughput R g depth am steps m = Some m' \<Longrightarrow> rows_reach R m'"
| report: "rows_reach R m \<Longrightarrow> rows_reach R (report_runs runs m)"

text \<open>What a row of the table may be: of one of the benchmarks and allocators, with the columns that benchmark fills.\<close>

definition row_ok :: "result_row \<Rightarrow> bool" where
  "row_ok r \<longleftrightarrow>
     rr_op r \<in> {''add_limit_order'', ''cancel_order'', ''market_order'', ''sim_throughput''} \<and>
     rr_alloc r \<in> {''pool'', ''heap''} \<and> rr_note r = '''' \<and>
     (if rr_op r = ''sim_throughput'' then rr_p50 r = 0 \<and> rr_p90 r = 0 \<and> rr_p99 r = 0 \<and> rr_p999 r = 0
      else 0 < rr_p50 r \<or> 0 < rr_p99 r)"

text \<open>A row without the columns the framework's reports fill in.\<close>

definition own_columns :: "result_row \<Rightarrow> result_row" where
  "own_columns r = r\<lparr>rr_ns_op := 0, rr_items := 0\<rparr>"

definition rows_good :: "row_map \<Rightarrow> bool" where
  "rows_good m \<longleftrightarrow> rows_inv m \<and> (\<forall>r \<in> rows_of m. row_ok r)"

lemma publish_good:
  assumes "rows_good m" and "rr_op r = ''sim_throughput'' \<or> 0 < rr_p50 r \<or> 0 < rr_p99 r \<Longrightarrow> row_ok r"
  shows "rows_good (publish_row r m)"
proof (cases "rr_op r = ''sim_throughput'' \<or> 0 < rr_p50 r \<or> 0 < rr_p99 r")
  case True
  then show ?thesis using rows_of_publish [of m r] publish_inv [of m r] assms by (auto simp: rows_good_def)
next
  case False
  then have "publish_row r m = m" by (simp add: publish_row_def not_less)
  then show ?thesis using assms(1) by simp
qed

lemma publish_latency_good:
  assumes "rows_good m" and "op \<in> {''add_limit_order'', ''cancel_order'', ''market_order''}"
  shows "rows_good (publish_row (latency_row op depth am r) m)"
  by (rule publish_good [OF assms(1)])
    (use assms(2) in \<open>auto simp: row_ok_def latency_row_def alloc_name_def Let_def\<close>)

lemma rows_put_known:
  "sorted_wrt (<) (map fst m) \<Longrightarrow> map_of m k = Some row \<Longrightarrow>
   rows_put k r m = map (\<lambda>(k', r'). if k' = k then (k, r) else (k', r')) m"
proof (induction k r m rule: rows_put.induct)
  case (2 k r k' r' m)
  show ?case
  proof (cases "k = k'")
    case True
    then have "map (\<lambda>(k', r'). if k' = k then (k, r) else (k', r')) m = m"
      using "2.prems"(1) by (intro map_idI) auto
    then show ?thesis using True by simp
  next
    case False
    then have "k \<in> fst ` set m" using "2.prems"(2) by (auto simp: rev_image_eqI dest!: map_of_SomeD)
    then have "k' < k" using "2.prems"(1) by auto
    then show ?thesis using 2 False by auto
  qed
qed simp

text \<open>A report of the framework changes two columns of one row, and adds none.\<close>

lemma report_run_good:
  assumes good: "rows_good m"
  shows "rows_good (report_run run m)" and "map own_columns (map snd (report_run run m)) = map own_columns (map snd m)"
proof -
  have put: "rows_good (rows_put k (row\<lparr>rr_ns_op := ns, rr_items := ips\<rparr>) m) \<and>
      map own_columns (map snd (rows_put k (row\<lparr>rr_ns_op := ns, rr_items := ips\<rparr>) m)) = map own_columns (map snd m)"
    if known: "map_of m k = Some row" for k row ns ips
  proof
    have inv: "rows_inv m" using good by (simp add: rows_good_def)
    then have row: "row \<in> rows_of m" "row_key row = k" using known rows_find by blast+
    let ?r = "row\<lparr>rr_ns_op := ns, rr_items := ips\<rparr>"
    have "rows_inv (rows_put k ?r m)" using inv row(2) by (intro rows_put_inv) (simp_all add: row_key_def)
    moreover have "row_ok ?r" using good row(1) by (simp add: rows_good_def row_ok_def)
    ultimately show "rows_good (rows_put k ?r m)" using rows_of_put [OF inv, of k ?r] good by (auto simp: rows_good_def)
    have sorted: "sorted_wrt (<) (map fst m)" using inv by (simp add: rows_inv_def)
    then have dist: "distinct (map fst m)" by (simp add: strict_sorted_iff)
    have "r' = row" if "(k, r') \<in> set m" for r' using map_of_is_SomeI [OF dist that] known by simp
    then show "map own_columns (map snd (rows_put k ?r m)) = map own_columns (map snd m)"
      unfolding rows_put_known [OF sorted known] by (auto simp: own_columns_def)
  qed
  then show "rows_good (report_run run m)"
    "map own_columns (map snd (report_run run m)) = map own_columns (map snd m)"
    using good by (simp_all add: report_run_def Let_def split: option.split prod.split)
qed

lemma report_runs_good:
  "rows_good m \<Longrightarrow> rows_good (report_runs runs m) \<and>
     map own_columns (map snd (report_runs runs m)) = map own_columns (map snd m)"
  unfolding report_runs_def
proof (induction runs arbitrary: m)
  case (Cons run runs)
  from Cons.IH [OF report_run_good(1) [OF Cons.prems]] report_run_good(2) [OF Cons.prems] show ?case by simp
qed simp

lemma rows_reach_good: "rows_reach R m \<Longrightarrow> rows_good m"
proof (induction rule: rows_reach.induct)
  case start
  then show ?case by (simp add: rows_good_def rows_inv_def rows_of_def)
next
  case (add m depth am ts)
  then show ?case by (simp add: bm_rows(1) publish_latency_good)
next
  case (cancel m depth am ts m')
  then show ?case by (simp add: bm_rows(2) [OF cancel.hyps(2)] publish_latency_good)
next
  case (market m depth am ts m')
  then show ?case by (simp add: bm_rows(3) [OF market.hyps(2)] publish_latency_good)
next
  case (sim m g depth am steps m')
  then show ?case
    by (auto simp: bm_sim_throughput_def row_ok_def alloc_name_def intro!: publish_good
        split: option.splits sum.splits)
next
  case (report m runs)
  then show ?case by (simp add: report_runs_good)
qed

lemma insort_columns:
  "map own_columns (insort_key report_key x xs) = insort_key report_key (own_columns x) (map own_columns xs)"
proof -
  have "report_key (own_columns r) = report_key r" for r by (simp add: own_columns_def report_key_def)
  then show ?thesis by (induction xs) simp_all
qed

lemma snapshot_columns: "map own_columns (snapshot_rows m) = sort_key report_key (map own_columns (map snd m))"
proof -
  have "map own_columns (sort_key report_key xs) = sort_key report_key (map own_columns xs)" for xs
    by (induction xs) (simp_all add: insort_columns)
  then show ?thesis by (simp add: snapshot_rows_def)
qed

text \<open>C36. Whatever benchmarks ran, and however often the framework reported, the table has one row per
  operation, depth and allocator, in strictly increasing order of operation, allocator and depth,
  and these are all the rows of the map, each filed under its own key. Every row is of one of the
  four benchmarks and one of the two allocators; a row of a latency benchmark has a positive
  median or 99th percentile, since a run without one leaves no row, and a throughput row has no
  percentiles. Further reports change nothing but the two columns that are the framework's.\<close>
theorem report_table:
  assumes "rows_reach R m"
  shows "sorted_wrt (<) (map report_key (snapshot_rows m)) \<and>
    set (snapshot_rows m) = {r. map_of m (row_key r) = Some r} \<and>
    list_all row_ok (snapshot_rows m) \<and>
    map own_columns (snapshot_rows (report_runs runs m)) = map own_columns (snapshot_rows m)"
proof (intro conjI)
  have good: "rows_good m" by (rule rows_reach_good [OF assms])
  then have inv: "rows_inv m" by (simp add: rows_good_def)
  show "sorted_wrt (<) (map report_key (snapshot_rows m))" by (rule snapshot_sorted [OF inv])
  show "set (snapshot_rows m) = {r. map_of m (row_key r) = Some r}"
    unfolding snapshot_set using rows_find [OF inv] by auto
  show "list_all row_ok (snapshot_rows m)" using good by (simp add: list_all_iff snapshot_set rows_good_def)
  show "map own_columns (snapshot_rows (report_runs runs m)) = map own_columns (snapshot_rows m)"
    using report_runs_good [OF good] by (simp add: snapshot_columns)
qed

theorem report_table_witness:
  "list_all row_ok (snapshot_rows (bm_add_limit_latency 100 1 (replicate 300 (0, 7)) []))"
proof -
  have "rows_reach demo_source (bm_add_limit_latency 100 1 (replicate 300 (0, 7)) [])"
    by (rule rows_reach.add [OF rows_reach.start])
  from report_table [OF this] show ?thesis by blast
qed

subsection \<open>What a latency benchmark publishes\<close>

text \<open>The timings after the warm-up, the last \<open>k_ring_n\<close> of them, in order of size.\<close>

definition timed :: "(u64 \<times> u64) list \<Rightarrow> u64 list" where
  "timed ts = (let s = map (\<lambda>(a, b). b - a) (drop 256 ts) in sort (drop (length s - 65536) s))"

definition latency_summary :: "string \<Rightarrow> int \<Rightarrow> int \<Rightarrow> (u64 \<times> u64) list \<Rightarrow> result_row" where
  "latency_summary op depth am ts =
     \<lparr>rr_op = op, rr_depth = depth, rr_alloc = (if am = 0 then ''pool'' else ''heap''),
      rr_p50 = pct_at (timed ts) (50 / 100), rr_p90 = pct_at (timed ts) (90 / 100),
      rr_p99 = pct_at (timed ts) (99 / 100), rr_p999 = pct_at (timed ts) (999 / 1000),
      rr_ns_op = 0, rr_items = 0, rr_note = ''''\<rparr>"

definition publishes :: "result_row \<Rightarrow> row_map \<Rightarrow> row_map \<Rightarrow> bool" where
  "publishes r m m' \<longleftrightarrow> map_of m' =
     (if 0 < rr_p50 r \<or> 0 < rr_p99 r then (map_of m)((rr_op r, rr_depth r, rr_alloc r) \<mapsto> r) else map_of m)"

lemma publish_publishes: "rr_op r \<noteq> ''sim_throughput'' \<Longrightarrow> publishes r m (publish_row r m)"
  by (simp add: publishes_def publish_row_def rows_put_map row_key_def not_le)

lemma latency_row_summary:
  assumes "256 < length ts"
  shows "latency_row op depth am (ring_of ts) = latency_summary op depth am ts"
proof -
  have s: "samples_of ts = map (\<lambda>(a, b). b - a) (drop 256 ts)"
    by (simp add: samples_of_def k_warmup_def ns_between_def)
  then have "samples_of ts \<noteq> []" using assms by simp
  moreover have "sort (drop (length (samples_of ts) - k_ring_n) (samples_of ts)) = timed ts"
    by (simp add: timed_def s k_ring_n_def Let_def)
  moreover have "alloc_name am = (if am = 0 then ''pool'' else ''heap'')" by (simp add: alloc_name_def)
  ultimately show ?thesis
    by (simp only: latency_row_def ring_percentiles latency_summary_def Let_def if_False pct.simps)
qed

text \<open>C38. The three latency benchmarks return, and each publishes the percentiles of exactly the
  timings it took after its 256 warm-up iterations, at most the last 65536 of them, under its own
  operation, depth and allocator; every other row is untouched.\<close>
theorem latency_published:
  assumes "0 < depth" and "depth < 2 ^ 31" and "256 < length ts"
  shows "publishes (latency_summary ''add_limit_order'' depth am ts) m (bm_add_limit_latency depth am ts m) \<and>
    (\<exists>m'. bm_cancel_latency depth am ts m = Some m' \<and>
       publishes (latency_summary ''cancel_order'' depth am ts) m m') \<and>
    (\<exists>m'. bm_market_latency depth am ts m = Some m' \<and>
       publishes (latency_summary ''market_order'' depth am ts) m m')"
proof (intro conjI)
  have pub: "publishes (latency_summary op depth am ts) m (publish_row (latency_row op depth am (ring_of ts)) m)"
    if "op \<noteq> ''sim_throughput''" for op
    unfolding latency_row_summary [OF assms(3)]
    by (rule publish_publishes) (use that in \<open>simp add: latency_summary_def\<close>)
  show "publishes (latency_summary ''add_limit_order'' depth am ts) m (bm_add_limit_latency depth am ts m)"
    unfolding bm_rows(1) by (rule pub) simp
  obtain c where "bm_cancel_latency depth am ts m = Some c"
    by (rule cancel_loop_run [OF assms(1,2), of am ts]) (simp add: bm_cancel_latency_def)
  moreover from bm_rows(2) [OF this] have "publishes (latency_summary ''cancel_order'' depth am ts) m c"
    using pub by simp
  ultimately show "\<exists>m'. bm_cancel_latency depth am ts m = Some m' \<and>
    publishes (latency_summary ''cancel_order'' depth am ts) m m'" by blast
  obtain c where "bm_market_latency depth am ts m = Some c"
    by (rule market_loop_runs [OF assms(1,2), of am ts]) (simp add: bm_market_latency_def)
  moreover from bm_rows(3) [OF this] have "publishes (latency_summary ''market_order'' depth am ts) m c"
    using pub by simp
  ultimately show "\<exists>m'. bm_market_latency depth am ts m = Some m' \<and>
    publishes (latency_summary ''market_order'' depth am ts) m m'" by blast
qed

theorem latency_published_witness:
  "publishes (latency_summary ''add_limit_order'' 10 1 (replicate 300 (1, 8))) []
     (bm_add_limit_latency 10 1 (replicate 300 (1, 8)) [])"
  using latency_published [of 10 "replicate 300 (1, 8)" 1 "[]"] by simp

subsection \<open>The framework's report lands on the published row\<close>

definition bench_functions :: "(string \<times> string) list" where
  "bench_functions =
     [(''BM_AddLimitLatency'', ''add_limit_order''), (''BM_CancelLatency'', ''cancel_order''),
      (''BM_MarketLatency'', ''market_order''), (''BM_SimThroughput'', ''sim_throughput'')]"

lemma has_sub_absent: "pat = c # p \<Longrightarrow> c \<notin> set s \<Longrightarrow> \<not> has_sub pat s"
proof (induction s)
  case Nil
  then show ?case by (subst has_sub.simps) simp
next
  case (Cons a s)
  then have "take (length pat) (a # s) \<noteq> pat" by auto
  moreover have "\<not> has_sub pat s" using Cons by simp
  ultimately show ?case by (subst has_sub.simps) simp
qed

lemma has_sub_here: "has_sub pat (pat @ s)"
  by (subst has_sub.simps) simp

lemma has_sub_first:
  assumes "c \<notin> set s" shows "has_sub (c # p) (c # s) \<longleftrightarrow> take (length p) s = p"
  using has_sub_absent [OF refl assms, of p] by (subst has_sub.simps) simp

lemma op_of_function:
  assumes "(fn, op) \<in> set bench_functions" and "CHR ''B'' \<notin> set s"
  shows "op_from_bm_name (fn @ s) = Some op"
proof -
  have plain: "CHR ''B'' \<notin> set (''M_AddLimitLatency'' @ s)" "CHR ''B'' \<notin> set (''M_CancelLatency'' @ s)"
    "CHR ''B'' \<notin> set (''M_MarketLatency'' @ s)" "CHR ''B'' \<notin> set (''M_SimThroughput'' @ s)"
    using assms(2) by simp_all
  note first = plain [THEN has_sub_first, of "''M_AddLimitLatency''", simplified]
    plain [THEN has_sub_first, of "''M_CancelLatency''", simplified]
    plain [THEN has_sub_first, of "''M_MarketLatency''", simplified]
    plain [THEN has_sub_first, of "''M_SimThroughput''", simplified]
  from assms(1) have "fn = ''BM_AddLimitLatency'' \<and> op = ''add_limit_order'' \<or>
      fn = ''BM_CancelLatency'' \<and> op = ''cancel_order'' \<or> fn = ''BM_MarketLatency'' \<and> op = ''market_order'' \<or>
      fn = ''BM_SimThroughput'' \<and> op = ''sim_throughput''"
    by (simp only: bench_functions_def list.set insert_iff empty_iff prod.inject simp_thms)
  then show ?thesis by (elim disjE conjE) (simp_all add: op_from_bm_name_def first)
qed

lemma parse_args_show:
  assumes "CHR ''/'' \<notin> set fn" and "no_digit rest"
  shows "parse_bm_args (fn @ ''/'' @ show_int d @ ''/'' @ show_int am @ rest) = (d, am)"
proof -
  have "dropWhile (\<lambda>c. c \<noteq> CHR ''/'') (fn @ CHR ''/'' # s) = CHR ''/'' # s" for s
    using assms(1) by (induction fn) auto
  moreover have "no_digit (CHR ''/'' # s)" "\<not> is_space CHR ''/''" for s
    by (simp_all add: no_digit_def is_digit_def is_space_def of_char_def)
  ultimately show ?thesis
    using scan_show_int [OF assms(2), of am] scan_show_int [of "CHR ''/'' # show_int am @ rest" d]
    by (simp add: parse_bm_args_def)
qed

text \<open>What the framework reports of a run lands on the row that the same benchmark published: a
  run that was not skipped, named by its function, its two arguments and whatever the framework
  appends, changes the time per operation and the rate of exactly the row of that operation,
  depth and allocator.\<close>
theorem report_run_lands:
  assumes "(fn, op) \<in> set bench_functions"
    and "run_name run = fn @ ''/'' @ show_int d @ ''/'' @ show_int am @ rest"
    and "no_digit rest" and "CHR ''B'' \<notin> set rest"
    and "\<not> run_skipped run" and "run_iteration run"
    and "map_of m (op, d, alloc_name am) = Some row"
  shows "map_of (report_run run m) = (map_of m)((op, d, alloc_name am) \<mapsto>
    row\<lparr>rr_ns_op := (if run_real_time run > 0 then run_real_time run else run_cpu_time run),
        rr_items := (case run_items_per_second run of None \<Rightarrow> 0 | Some v \<Rightarrow> v)\<rparr>)"
proof -
  have "list_all (\<lambda>(fn, op). CHR ''/'' \<notin> set fn) bench_functions" by code_simp
  then have slash: "CHR ''/'' \<notin> set fn" using assms(1) by (auto simp: list_all_iff)
  have "CHR ''B'' \<notin> set (show_nat n)" for n
    using show_nat_digits [of n] by (auto simp: is_digit_def of_char_def)
  then have "CHR ''B'' \<notin> set (''/'' @ show_int d @ ''/'' @ show_int am @ rest)"
    using assms(4) by (simp add: show_int_def)
  from op_of_function [OF assms(1) this] have "op_from_bm_name (run_name run) = Some op" by (simp only: assms(2))
  moreover have "parse_bm_args (run_name run) = (d, am)"
    unfolding assms(2) by (rule parse_args_show [OF slash assms(3)])
  ultimately show ?thesis
    using assms(5-7) by (simp add: report_run_def rows_put_map)
qed

theorem report_run_lands_witness:
  "map_of (report_run \<lparr>run_skipped = False, run_iteration = True, run_name = ''BM_CancelLatency/10/1/manual_time'',
       run_real_time = 55, run_cpu_time = 60, run_items_per_second = Some 7\<rparr>
     [((''cancel_order'', 10, ''heap''), row_a)]) (''cancel_order'', 10, ''heap'') =
     Some (row_a\<lparr>rr_ns_op := 55, rr_items := 7\<rparr>)"
proof -
  let ?run = "\<lparr>run_skipped = False, run_iteration = True, run_name = ''BM_CancelLatency/10/1/manual_time'',
       run_real_time = 55, run_cpu_time = 60, run_items_per_second = Some (7 :: real)\<rparr> :: bench_run"
  let ?m = "[((''cancel_order'', 10, ''heap''), row_a)] :: row_map"
  have shown: "show_int 10 = ''10''" "show_int 1 = ''1''" by code_simp+
  have "map_of (report_run ?run ?m) = (map_of ?m)((''cancel_order'', 10, alloc_name 1) \<mapsto>
      row_a\<lparr>rr_ns_op := (if run_real_time ?run > 0 then run_real_time ?run else run_cpu_time ?run),
        rr_items := (case run_items_per_second ?run of None \<Rightarrow> 0 | Some v \<Rightarrow> v)\<rparr>)"
    by (rule report_run_lands [where fn = "''BM_CancelLatency''" and rest = "''/manual_time''"])
      (simp_all add: bench_functions_def shown no_digit_def is_digit_def of_char_def alloc_name_def)
  then show ?thesis by (simp add: alloc_name_def)
qed

end
