(* ===== verification/Bench_Matching.thy ===== *)
theory Bench_Matching
  imports Bench_Ladder "HOL-Library.Monad_Syntax"
begin

section \<open>The matching benchmarks\<close>

text \<open>
  The two benchmarks of bench/bench_lob.cpp that match against a level and clear it again in every
  iteration: \<open>BM_ProRataMatch\<close> and \<open>BM_IcebergReplenish\<close>. They record nothing but the framework's time, so
  an iteration is its effect on the engine, with the fills of the timed market order. The fuel is that of
  \<open>submit_market\<close>.
\<close>

definition k_pool :: nat where
  "k_pool = 2 ^ 18"

definition bench_px :: price_t where
  "bench_px = 100"

text \<open>The resting orders of \<open>BM_ProRataMatch\<close>: one to four units of ten.\<close>

definition rest_unit :: qty_t where
  "rest_unit = 10"

definition rest_order :: "nat \<Rightarrow> engine \<Rightarrow> engine" where
  "rest_order i e = snd (submit_limit Sell bench_px (rest_unit * of_nat (1 + i mod 4)) 0 e)"

definition pro_rata_iteration :: "nat \<Rightarrow> int \<Rightarrow> engine \<Rightarrow> (fill list \<times> engine) option" where
  "pro_rata_iteration fuel n e =
     (let unit = rest_unit; incoming = of_int n * unit div 2;
          e1 = fold rest_order [0..<nat n] e
      in do {
        (fills, e2) \<leftarrow> submit_market fuel (policy_match (ProRataPolicy 1)) Buy incoming e1;
        (swept, e3) \<leftarrow> submit_market fuel (policy_match (ProRataPolicy 1)) Buy (of_int n * unit * 4) e2;
        Some (fills, e3)
      })"

definition iceberg_iteration :: "nat \<Rightarrow> int \<Rightarrow> engine \<Rightarrow> (fill list \<times> engine) option" where
  "iceberg_iteration fuel n e =
     (let display = of_int n; total = display * 9;
          e1 = snd (submit_limit Sell bench_px total display e);
          e2 = snd (submit_limit Sell bench_px 50 0 e1)
      in do {
        (fills, e3) \<leftarrow> submit_market fuel (policy_match FIFOStack) Buy display e2;
        (swept, e4) \<leftarrow> submit_market fuel (policy_match FIFOStack) Buy (total + 50) e3;
        Some (fills, e4)
      })"

text \<open>The loop over \<open>state\<close>: a number of iterations, and the fills of each.\<close>

primrec bench_iterations ::
    "('e \<Rightarrow> (fill list \<times> 'e) option) \<Rightarrow> nat \<Rightarrow> 'e \<Rightarrow> (fill list list \<times> 'e) option" where
  "bench_iterations f 0 e = Some ([], e)"
| "bench_iterations f (Suc k) e =
     do { (fills, e1) \<leftarrow> f e; (rest, e2) \<leftarrow> bench_iterations f k e1; Some (fills # rest, e2) }"

definition bm_pro_rata_match :: "nat \<Rightarrow> int \<Rightarrow> nat \<Rightarrow> (fill list list \<times> engine) option" where
  "bm_pro_rata_match fuel n k =
     bench_iterations (pro_rata_iteration fuel n) k (new_engine (new_book k_pool Pool))"

definition bm_iceberg_replenish :: "nat \<Rightarrow> int \<Rightarrow> nat \<Rightarrow> (fill list list \<times> engine) option" where
  "bm_iceberg_replenish fuel n k =
     bench_iterations (iceberg_iteration fuel n) k (new_engine (new_book k_pool Pool))"

text \<open>The depths and allocators \<open>DepthAllocArgs\<close> registers for the other four benchmarks.\<close>

definition depth_alloc_args :: "(int \<times> int) list" where
  "depth_alloc_args = concat (map (\<lambda>depth. [(depth, 0), (depth, 1)]) [10, 100, 1000, 10000])"

text \<open>The bounds the loops of \<open>Bench_Ladder\<close> need.\<close>

lemma depth_alloc_args_ok:
  "(depth, am) \<in> set depth_alloc_args \<Longrightarrow> 0 < depth \<and> depth < 2 ^ 31 \<and> am \<in> {0, 1}"
  by (auto simp: depth_alloc_args_def)

subsection \<open>One level of plain orders\<close>

text \<open>
  At most one level, at one price, of orders that hide nothing and each show between one unit and \<open>c\<close>.
\<close>

definition flat_level :: "price_t \<Rightarrow> nat \<Rightarrow> aside \<Rightarrow> bool" where
  "flat_level p c ls \<longleftrightarrow>
     (\<exists>xs. ls = with_level p xs \<and> (\<forall>x \<in> set xs. ao_hid x = 0 \<and> 0 < ao_vis x \<and> ao_vis x \<le> c))"

lemma flat_level_empty [simp]: "flat_level p c []"
  unfolding flat_level_def by (intro exI [of _ "[]"]) simp

lemma flat_level_cases:
  assumes "flat_level p c ls"
  obtains "ls = []" | xs where "ls = [(p, xs)]" "xs \<noteq> []"
    "\<forall>x \<in> set xs. ao_hid x = 0 \<and> 0 < ao_vis x \<and> ao_vis x \<le> c" "liquidity ls = sum_list (map ao_vis xs)"
proof -
  from assms obtain xs where xs: "ls = with_level p xs" "\<forall>x \<in> set xs. ao_hid x = 0 \<and> 0 < ao_vis x \<and> ao_vis x \<le> c"
    unfolding flat_level_def by blast
  have "map order_liq xs = map ao_vis xs" using xs(2) by (simp add: order_liq_def)
  then have "liquidity [(p, xs)] = sum_list (map ao_vis xs)"
    by (simp only: liquidity_simps add_0_right)
  with xs show thesis by (cases "xs = []") (auto intro: that)
qed

lemma flat_level_add:
  assumes "flat_level p c ls" and "0 < unat q" and "unat q \<le> c"
  shows "flat_level p c (sp_add cmp p (new_aorder i q) ls)"
  using assms(1)
proof (cases rule: flat_level_cases)
  case 1
  then show ?thesis unfolding flat_level_def
    by (intro exI [of _ "[new_aorder i q]"]) (use assms in \<open>simp add: new_aorder_def\<close>)
next
  case (2 xs)
  then show ?thesis unfolding flat_level_def
    by (intro exI [of _ "xs @ [new_aorder i q]"]) (use assms in \<open>auto simp: new_aorder_def\<close>)
qed

lemma fill_queue_flat:
  assumes "\<forall>x \<in> set xs. ao_hid x = 0 \<and> 0 < ao_vis x \<and> ao_vis x \<le> c"
  shows "\<forall>x \<in> set (fill_queue i t xs). ao_hid x = 0 \<and> 0 < ao_vis x \<and> ao_vis x \<le> c"
  using assms unfolding fill_queue_def
  by (auto simp: after_fill_def Let_def split: option.splits dest!: extract_SomeE)

lemma flat_level_fill:
  assumes "flat_level p c ls"
  shows "flat_level p c (sp_fill i t ls)"
  using assms
proof (cases rule: flat_level_cases)
  case 1
  then show ?thesis by (simp add: sp_fill_def)
next
  case (2 xs)
  then show ?thesis unfolding flat_level_def
    by (intro exI [of _ "fill_queue i t xs"]) (use fill_queue_flat [OF 2(3)] in \<open>simp add: sp_fill_def\<close>)
qed

lemma flat_level_fills: "flat_level p c ls \<Longrightarrow> flat_level p c (fills_view gs ls)"
  unfolding fills_view_def by (induction gs arbitrary: ls) (simp_all add: flat_level_fill)

lemma flat_level_liq: "flat_level p c ls \<Longrightarrow> liquidity ls = 0 \<longleftrightarrow> ls = []"
  by (erule flat_level_cases) (auto simp: sum_list_eq_0_iff neq_Nil_conv)

subsection \<open>A pro-rata order on one level\<close>

lemma fills_view_nil [simp]: "fills_view gs [] = []"
  unfolding fills_view_def by (induction gs) (simp_all add: sp_fill_def)

text \<open>It takes what is asked for, or all there is.\<close>

lemma pro_rata_flat:
  assumes inv: "book_inv [] b" and flat: "flat_level px c (book_view b (opposite s))" and other: "book_view b s = []"
    and small: "liquidity (book_view b (opposite s)) < 2 ^ 63" and prod: "c * unat q < 2 ^ 64"
  obtains gs b' where "pro_rata_match 1 s q b = Some (gs, b')" "book_inv [] b'" "book_frame [] b b'"
    "fills_total gs = min (unat q) (liquidity (book_view b (opposite s)))"
    "book_view b' s = []" "flat_level px c (book_view b' (opposite s))"
    "liquidity (book_view b' (opposite s)) + fills_total gs = liquidity (book_view b (opposite s))"
  using flat
proof (cases rule: flat_level_cases)
  case 1
  from inv obtain L where rel: "book_rel L [] b" by (auto simp: book_inv_iff)
  have "best (opposite s) b = None" by (simp add: best_view [OF rel] 1)
  then have "pro_rata_match 1 s q b = Some ([], b)"
    by (cases s) (simp_all add: pro_rata_match_def best_sides)
  then show thesis using that inv other 1 by (simp add: book_frame_refl fills_total_def)
next
  case (2 xs)
  have liq: "book_liq b < 2 ^ 63" using small other by (simp add: book_liq_side [of b s])
  have pos: "0 < sum_list (map ao_vis xs)" using 2(2,3) by (cases xs) auto
  obtain as b' where r: "pro_rata_match 1 s q b = Some (pro_rata_taken 1 q px as b, b')" "book_inv [] b'"
    "book_frame [] b b'" "book_liq b' + fills_total (pro_rata_taken 1 q px as b) = book_liq b"
    "(\<forall>x \<in> set xs. 0 < ao_vis x) \<longrightarrow> (\<forall>t. book_view b' t = fills_view (pro_rata_taken 1 q px as b) (book_view b t))"
    by (rule pro_rata_best [OF inv liq 2(1) pos, of 1 q]) blast
  have view: "book_view b' t = fills_view (pro_rata_taken 1 q px as b) (book_view b t)" for t
    using r(5) 2(3) by blast
  have prods: "\<forall>x \<in> set xs. ao_vis x * unat q < 2 ^ 64"
  proof
    fix x assume "x \<in> set xs"
    then have "ao_vis x \<le> c" using 2(3) by blast
    then have "ao_vis x * unat q \<le> c * unat q" by (rule mult_right_mono) simp
    then show "ao_vis x * unat q < 2 ^ 64" using prod by (rule le_less_trans)
  qed
  have "fills_total (pro_rata_taken 1 q px as b) = min (unat q) (sum_list (map ao_vis xs))"
    unfolding fills_total_def by (rule pro_rata_fill_best(1) [OF inv liq _ 2(1) _ prods r(1)]) (use 2(3) in auto)
  moreover have "book_view b' s = []" by (simp add: view other)
  moreover have "flat_level px c (book_view b' (opposite s))"
    unfolding view using flat by (rule flat_level_fills)
  ultimately show thesis using that [OF r(1-3)] r(4) 2(4) other by (simp add: book_liq_side [of _ s])
qed

subsection \<open>Between iterations\<close>

definition idle_engine :: "engine \<Rightarrow> bool" where
  "idle_engine e \<longleftrightarrow> engine_plain e \<and> capacity (pool (book e)) = k_pool \<and> (\<forall>s. book_view (book e) s = [])"

text \<open>\<open>k\<close> orders rest on one level, with ten to forty units each.\<close>

definition resting_engine :: "nat \<Rightarrow> engine \<Rightarrow> bool" where
  "resting_engine k e \<longleftrightarrow> engine_plain e \<and> capacity (pool (book e)) = k_pool \<and> book_view (book e) Buy = [] \<and>
     flat_level bench_px 40 (book_view (book e) Sell) \<and> length (side_ids (book_view (book e) Sell)) = k \<and>
     liquidity (book_view (book e) Sell) \<in> {10 * k..40 * k}"

lemma idle_start: "idle_engine (new_engine (new_book k_pool Pool))"
  by (simp add: idle_engine_def engine_plain_def plain_book_def new_engine_def new_book_inv new_book_view)
    (simp add: new_book_def new_pool_def)

lemma idle_resting: "idle_engine e \<Longrightarrow> resting_engine 0 e"
  by (simp add: idle_engine_def resting_engine_def)

lemma side_ids_add: "length (side_ids (sp_add cmp p x ls)) = Suc (length (side_ids ls))"
  by (induction ls) auto

lemma rest_quantity: "unat (rest_unit * of_nat (1 + i mod 4)) = 10 * (1 + i mod 4)"
proof -
  have "i mod 4 < 4" by simp
  then consider "i mod 4 = 0" | "i mod 4 = 1" | "i mod 4 = 2" | "i mod 4 = 3" by linarith
  then show ?thesis by cases (simp_all add: rest_unit_def)
qed

lemma rest_order_ok:
  assumes rest: "resting_engine k e" and room: "k < k_pool"
  shows "resting_engine (Suc k) (rest_order i e)"
proof -
  let ?q = "rest_unit * of_nat (1 + i mod 4)" and ?b = "book e"
  note r = rest [unfolded resting_engine_def]
  have plain: "plain_book ?b" using r by (simp add: engine_plain_def)
  have q: "10 \<le> unat ?q" "unat ?q \<le> 40" unfolding rest_quantity by simp_all
  have "book_liq ?b \<le> 40 * k" using r by (simp add: book_liq_def)
  then have liq: "book_liq ?b + unat ?q < 2 ^ 63" using room q(2) by (simp add: k_pool_def)
  have "ex_count (abs_book ?b) \<noteq> ex_cap (abs_book ?b)" using r room by (simp add: ex_count_def abs_book_def)
  with apply_limit_ok [OF plain liq, of Sell bench_px] have b': "plain_book (snd (add_limit_order Sell bench_px ?q ?b))"
    "abs_book (snd (add_limit_order Sell bench_px ?q ?b)) = (abs_book ?b)\<lparr>ex_view := (book_view ?b)(Sell :=
       sp_add (side_cmp Sell) bench_px (new_aorder (next_order_id ?b) ?q) (book_view ?b Sell)), ex_next := next_order_id ?b + 1\<rparr>"
    by (simp_all add: Let_def)
  then have "resting_engine (Suc k) (e\<lparr>book := snd (add_limit_order Sell bench_px ?q ?b)\<rparr>)"
    using r q by (auto simp: resting_engine_def engine_plain_def abs_book_def side_ids_add liquidity_add
        order_liq_def new_aorder_def intro!: flat_level_add [unfolded new_aorder_def])
  then show ?thesis by (simp add: rest_order_def submit_limit_plain)
qed

lemma rest_orders_ok:
  "resting_engine k e \<Longrightarrow> k + length is \<le> k_pool \<Longrightarrow> resting_engine (k + length is) (fold rest_order is e)"
proof (induction "is" arbitrary: k e)
  case (Cons i "is")
  from Cons.prems have "resting_engine (Suc k) (rest_order i e)" by (intro rest_order_ok) simp_all
  from Cons.IH [OF this] Cons.prems(2) show ?case by simp
qed simp

subsection \<open>The pro-rata benchmark\<close>

lemma submit_pro_rata:
  assumes eng: "engine_plain e" and fuel: "0 < fuel" and other: "book_view (book e) Buy = []"
    and flat: "flat_level bench_px 40 (book_view (book e) Sell)"
    and small: "liquidity (book_view (book e) Sell) < 2 ^ 63" and q: "unat q < 2 ^ 58"
  obtains gs e' where "submit_market fuel (policy_match (ProRataPolicy 1)) Buy q e = Some (gs, e')" "engine_plain e'"
    "capacity (pool (book e')) = capacity (pool (book e))" "book_view (book e') Buy = []"
    "flat_level bench_px 40 (book_view (book e') Sell)"
    "fills_total gs = min (unat q) (liquidity (book_view (book e) Sell))"
    "liquidity (book_view (book e') Sell) + fills_total gs = liquidity (book_view (book e) Sell)"
proof -
  have inv: "book_inv [] (book e)" and plain: "plain_book (book e)"
    using eng by (simp_all add: engine_plain_def plain_book_def)
  obtain gs b where b: "pro_rata_match 1 Buy q (book e) = Some (gs, b)" "book_inv [] b" "book_frame [] (book e) b"
    "fills_total gs = min (unat q) (liquidity (book_view (book e) (opposite Buy)))"
    "book_view b Buy = []" "flat_level bench_px 40 (book_view b (opposite Buy))"
    "liquidity (book_view b (opposite Buy)) + fills_total gs = liquidity (book_view (book e) (opposite Buy))"
    by (rule pro_rata_flat [OF inv, of bench_px 40 Buy q]) (use flat other small q in simp_all)
  note frame = frame_plain [OF b(3,2) plain]
  have "submit_market fuel (policy_match (ProRataPolicy 1)) Buy q e = Some (gs, e\<lparr>book := b\<rparr>)"
    using frame by (intro submit_policy_plain [OF eng fuel]) (simp_all add: policy_match_def b(1))
  then show thesis
    by (rule that) (use b(4-7) frame eng in \<open>simp_all add: engine_plain_def\<close>)
qed

lemma pro_rata_iteration_ok:
  assumes idle: "idle_engine e" and fuel: "0 < fuel" and n: "0 < n" "n \<le> 2 ^ 18"
  shows "\<exists>fills e'. pro_rata_iteration fuel n e = Some (fills, e') \<and> fills_total fills = 5 * nat n \<and> idle_engine e'"
proof -
  define m where "m = nat n"
  have nm: "n = int m" "0 < m" "m \<le> 2 ^ 18" using n by (simp_all add: m_def)
  define e1 where "e1 = fold rest_order [0..<m] e"
  have "resting_engine (0 + length [0..<m]) e1" unfolding e1_def
    using idle nm(3) by (intro rest_orders_ok idle_resting) (simp_all add: k_pool_def)
  then have r: "engine_plain e1" "capacity (pool (book e1)) = k_pool" "book_view (book e1) Buy = []"
    "flat_level bench_px 40 (book_view (book e1) Sell)" "10 * m \<le> liquidity (book_view (book e1) Sell)"
    "liquidity (book_view (book e1) Sell) \<le> 40 * m"
    by (simp_all add: resting_engine_def)
  have "(of_int n :: u64) = of_nat m" by (simp add: nm)
  moreover have m64: "unat (of_nat m :: u64) = m" using nm(3) by (simp add: unat_of_nat)
  ultimately have q: "unat (of_int n * rest_unit :: u64) = 10 * m" "unat (of_int n * rest_unit * 4 :: u64) = 40 * m"
    using nm(3) by (simp_all add: rest_unit_def unat_word_ariths)
  then have half: "unat (of_int n * rest_unit div 2 :: u64) = 5 * m" by (simp add: unat_div)
  obtain gs e2 where one: "submit_market fuel (policy_match (ProRataPolicy 1)) Buy (of_int n * rest_unit div 2) e1 = Some (gs, e2)"
    "engine_plain e2" "capacity (pool (book e2)) = k_pool" "book_view (book e2) Buy = []"
    "flat_level bench_px 40 (book_view (book e2) Sell)" "fills_total gs = min (5 * m) (liquidity (book_view (book e1) Sell))"
    "liquidity (book_view (book e2) Sell) + fills_total gs = liquidity (book_view (book e1) Sell)"
    using nm(3) r(6) by (rule_tac submit_pro_rata [OF r(1) fuel r(3,4), of "of_int n * rest_unit div 2"])
      (simp_all add: half r(2))
  obtain hs e3 where two: "submit_market fuel (policy_match (ProRataPolicy 1)) Buy (of_int n * rest_unit * 4) e2 = Some (hs, e3)"
    "engine_plain e3" "capacity (pool (book e3)) = k_pool" "book_view (book e3) Buy = []"
    "flat_level bench_px 40 (book_view (book e3) Sell)" "fills_total hs = min (40 * m) (liquidity (book_view (book e2) Sell))"
    "liquidity (book_view (book e3) Sell) + fills_total hs = liquidity (book_view (book e2) Sell)"
    using nm(3) r(6) one(7) by (rule_tac submit_pro_rata [OF one(2) fuel one(4,5), of "of_int n * rest_unit * 4"])
      (simp_all add: q one(3))
  have "liquidity (book_view (book e3) Sell) = 0" using two(6,7) one(7) r(6) by simp
  then have "book_view (book e3) Sell = []" using flat_level_liq [OF two(5)] by simp
  then have "book_view (book e3) s = []" for s using two(4) by (cases s) simp_all
  then have "idle_engine e3" using two(2,3) by (simp add: idle_engine_def)
  moreover have "pro_rata_iteration fuel n e = Some (gs, e3)"
    using one(1) two(1) by (simp add: pro_rata_iteration_def Let_def e1_def [symmetric] m_def [symmetric])
  moreover have "fills_total gs = 5 * nat n" using one(6) r(5) by (simp add: m_def [symmetric])
  ultimately show ?thesis by blast
qed

subsection \<open>The iceberg benchmark\<close>

text \<open>Matching leaves no order that shows nothing, if there was none.\<close>

definition side_shown :: "aside \<Rightarrow> bool" where
  "side_shown ls \<longleftrightarrow> (\<forall>(p, xs) \<in> set ls. \<forall>x \<in> set xs. 0 < ao_vis x)"

lemma side_shown_match: "sp_match q ls = (fs, r) \<Longrightarrow> side_shown ls \<Longrightarrow> side_shown r"
proof (induction rule: sp_match_induct)
  case (take q p x xs ls fs r t)
  from take.prems have "side_shown (sp_consume t p x xs ls)"
    by (auto simp: side_shown_def sp_consume_def Let_def)
  then show ?case by (rule take.IH)
qed (simp_all add: side_shown_def)

lemma shown_empty:
  assumes "side_shown ls" and "side_full ls" and "liquidity ls = 0"
  shows "ls = []"
proof (cases ls)
  case (Cons l ls')
  obtain p xs where l: "l = (p, xs)" by (cases l)
  with Cons assms(2) obtain x ys where "xs = x # ys" by (cases xs) auto
  with assms(1,3) show ?thesis by (simp add: Cons l side_shown_def order_liq_def)
qed

lemma plain_engine_rel: "engine_plain e \<Longrightarrow> book_liq (book e) < 2 ^ 63 \<Longrightarrow> engine_rel [] {} e"
  by (simp add: engine_plain_def plain_book_def engine_rel_def stop_qty_def)

text \<open>A limit order on a plain engine with room, iceberg or not.\<close>

lemma limit_on_plain:
  assumes eng: "engine_plain e" and room: "ex_count (abs_book (book e)) < capacity (pool (book e))"
    and small: "book_liq (book e) + 2 * unat q < 2 ^ 63"
  shows "let e' = snd (submit_limit s px q d e)
    in engine_plain e' \<and> capacity (pool (book e')) = capacity (pool (book e)) \<and>
       book_view (book e') = limit_view s px q d (book e)"
proof -
  have plain: "plain_book (book e)" using eng by (simp add: engine_plain_def)
  have rel: "engine_rel [] {} e" using small by (intro plain_engine_rel [OF eng]) simp
  have free: "\<not> pool_full (book e)" using pool_full_count [OF plain] room by (simp add: abs_book_def)
  have room': "book_liq (book e) + 2 * stop_qty [] (book e) + 2 * unat q < 2 ^ 63"
    using small by (simp add: stop_qty_def)
  obtain e' where e': "submit_limit s px q d e = (next_order_id (book e), e')" "engine_rel [] {} e'"
    "pending_stops e' = pending_stops e" "book_view (book e') = limit_view s px q d (book e)"
    "book_frame [] (book e) (book e')"
    by (rule submit_limit_ok [OF rel free room']) blast
  show ?thesis
    using frame_plain [OF e'(5) engine_relD(1) [OF e'(2)] plain] e'(1,3,4) eng by (simp add: engine_plain_def)
qed

lemma submit_fifo:
  assumes eng: "engine_plain e" and fuel: "0 < fuel"
    and sp: "sp_match (unat q) (book_view (book e) (opposite s)) = (fs, r)"
  obtains gs e' where "submit_market fuel (policy_match FIFOStack) s q e = Some (gs, e')" "engine_plain e'"
    "capacity (pool (book e')) = capacity (pool (book e))" "map abs_fill gs = fs"
    "book_view (book e') = (book_view (book e))(opposite s := r)"
proof -
  have inv: "book_inv [] (book e)" and plain: "plain_book (book e)"
    using eng by (simp_all add: engine_plain_def plain_book_def)
  obtain gs b where b: "market_order s q (book e) = Some (gs, b)" "map abs_fill gs = fs" "book_inv [] b"
    "book_view b = (book_view (book e))(opposite s := r)" "book_frame [] (book e) b"
    by (rule market_order_spec [OF inv sp])
  note frame = frame_plain [OF b(5,3) plain]
  have "submit_market fuel (policy_match FIFOStack) s q e = Some (gs, e\<lparr>book := b\<rparr>)"
    using frame b(1) by (simp add: policy_match_def submit_market_plain [OF eng fuel])
  then show thesis
    by (rule that) (use b(2,4) frame eng in \<open>simp_all add: engine_plain_def\<close>)
qed

text \<open>
  The level of an iteration: the iceberg before the other order, and after its first slice is gone, behind it.
\<close>

definition iceberg_order :: "nat \<Rightarrow> order_id_t \<Rightarrow> nat \<Rightarrow> aorder" where
  "iceberg_order d i hidden = \<lparr>ao_id = i, ao_qty = 9 * d, ao_vis = d, ao_disp = d, ao_hid = hidden\<rparr>"

lemma iceberg_first_slice:
  assumes "0 < d"
  shows "sp_match d [(p, [iceberg_order d i (8 * d), x])] = ([(i, p, d)], [(p, [x, iceberg_order d i (7 * d)])])"
  using assms by (simp add: iceberg_order_def sp_consume_def Let_def)

lemma iceberg_iteration_ok:
  assumes idle: "idle_engine e" and fuel: "0 < fuel" and n: "0 < n" "n < 2 ^ 32"
  shows "\<exists>fills e'. iceberg_iteration fuel n e = Some (fills, e') \<and>
    map abs_fill fills = [(next_order_id (book e), bench_px, nat n)] \<and> idle_engine e'"
proof -
  define d where "d = nat n"
  have d: "0 < d" "d < 2 ^ 32" using n by (simp_all add: d_def nat_less_iff)
  have word: "(of_int n :: u64) = of_nat d" using n(1) by (simp add: d_def)
  have q: "unat (of_int n :: u64) = d" "unat (of_int n * 9 :: u64) = 9 * d" "unat (of_int n * 9 + 50 :: u64) = 9 * d + 50"
    using d(2) by (simp_all add: word unat_of_nat unat_word_ariths)
  have i: "engine_plain e" "capacity (pool (book e)) = k_pool" "book_view (book e) s = []" for s
    using idle by (simp_all add: idle_engine_def)
  let ?i = "next_order_id (book e)"
  define e1 where "e1 = snd (submit_limit Sell bench_px (of_int n * 9) (of_int n) e)"
  define e2 where "e2 = snd (submit_limit Sell bench_px 50 0 e1)"
  have nz: "(of_int n :: u64) \<noteq> 0" using q(1) d(1) by auto
  have ice: "ice d (new_aorder ?i (of_int n * 9)) = iceberg_order d ?i (8 * d)"
    by (simp add: ice_def new_aorder_def q iceberg_order_def)
  have "engine_plain e1 \<and> capacity (pool (book e1)) = k_pool \<and>
      book_view (book e1) = limit_view Sell bench_px (of_int n * 9) (of_int n) (book e)"
    unfolding e1_def i(2) [symmetric]
    by (rule limit_on_plain [OF i(1), unfolded Let_def])
      (use d(2) in \<open>simp_all add: i ex_count_def abs_book_def book_liq_def q k_pool_def\<close>)
  then have e1: "engine_plain e1" "capacity (pool (book e1)) = k_pool" "book_view (book e1) Buy = []"
    "book_view (book e1) Sell = [(bench_px, [iceberg_order d ?i (8 * d)])]"
    by (simp_all add: limit_view_def nz i(3) sp_update_def q(1) ice) (simp_all add: new_aorder_def)
  have "engine_plain e2 \<and> capacity (pool (book e2)) = capacity (pool (book e1)) \<and>
      book_view (book e2) = limit_view Sell bench_px 50 0 (book e1)"
    unfolding e2_def
    by (rule limit_on_plain [OF e1(1), unfolded Let_def])
      (use d(2) in \<open>simp_all add: e1 ex_count_def abs_book_def book_liq_def k_pool_def order_liq_def iceberg_order_def\<close>)
  then obtain x where e2: "engine_plain e2" "capacity (pool (book e2)) = k_pool" "book_view (book e2) Buy = []"
    "book_view (book e2) Sell = [(bench_px, [iceberg_order d ?i (8 * d), x])]" "order_liq x = 50" "ao_vis x = 50"
    by (simp add: limit_view_def e1 order_liq_def) (simp add: new_aorder_def)
  have sp1: "sp_match (unat (of_int n :: u64)) (book_view (book e2) (opposite Buy)) =
      ([(?i, bench_px, d)], [(bench_px, [x, iceberg_order d ?i (7 * d)])])"
    using iceberg_first_slice [OF d(1)] by (simp add: q(1) e2(4))
  obtain gs e3 where one: "submit_market fuel (policy_match FIFOStack) Buy (of_int n) e2 = Some (gs, e3)"
    "engine_plain e3" "capacity (pool (book e3)) = k_pool" "map abs_fill gs = [(?i, bench_px, d)]"
    "book_view (book e3) = (book_view (book e2))(opposite Buy := [(bench_px, [x, iceberg_order d ?i (7 * d)])])"
    by (rule submit_fifo [OF e2(1) fuel sp1]) (simp add: e2(2))
  obtain fs r where sp2: "sp_match (unat (of_int n * 9 + 50 :: u64)) (book_view (book e3) (opposite Buy)) = (fs, r)"
    by (cases "sp_match (unat (of_int n * 9 + 50 :: u64)) (book_view (book e3) (opposite Buy))")
  obtain hs e4 where two: "submit_market fuel (policy_match FIFOStack) Buy (of_int n * 9 + 50) e3 = Some (hs, e4)"
    "engine_plain e4" "capacity (pool (book e4)) = k_pool" "book_view (book e4) = (book_view (book e3))(opposite Buy := r)"
    by (rule submit_fifo [OF one(2) fuel sp2]) (simp add: one(3))
  have inv: "book_inv [] (book e3)" "book_inv [] (book e4)"
    using one(2) two(2) by (simp_all add: engine_plain_def plain_book_def)
  have shown: "side_shown (book_view (book e3) (opposite Buy))"
    using d(1) e2(6) by (simp add: one(5) side_shown_def iceberg_order_def)
  have "liquidity (book_view (book e3) (opposite Buy)) = 8 * d + 50"
    by (simp add: one(5) e2(5)) (simp add: order_liq_def iceberg_order_def)
  then have "liquidity r = 0"
    using sp_match_filled(1,2) [OF sp2 book_inv_view(1) [OF inv(1)]] by (simp add: q(3))
  moreover have "side_full r" using book_inv_view(2) [OF inv(2), of Sell] by (simp add: two(4))
  ultimately have "r = []" using side_shown_match [OF sp2 shown] by (intro shown_empty)
  then have "book_view (book e4) s = []" for s by (cases s) (simp_all add: two(4) one(5) e2(3))
  then have "idle_engine e4" using two(2,3) by (simp add: idle_engine_def)
  moreover have "iceberg_iteration fuel n e = Some (gs, e4)"
    using one(1) two(1) by (simp add: iceberg_iteration_def Let_def e1_def [symmetric] e2_def [symmetric])
  ultimately show ?thesis using one(4) by (auto simp: d_def)
qed

subsection \<open>The runs\<close>

lemma bench_iterations_ok:
  assumes "\<And>e. idle_engine e \<Longrightarrow> \<exists>fills e'. f e = Some (fills, e') \<and> P fills \<and> idle_engine e'"
  shows "idle_engine e \<Longrightarrow> \<exists>fs e'. bench_iterations f k e = Some (fs, e') \<and> length fs = k \<and>
    (\<forall>fills \<in> set fs. P fills) \<and> idle_engine e'"
proof (induction k arbitrary: e)
  case (Suc k)
  from assms [OF Suc.prems] obtain fills e1 where f: "f e = Some (fills, e1)" "P fills" "idle_engine e1" by blast
  from Suc.IH [OF f(3)] obtain fs e2 where "bench_iterations f k e1 = Some (fs, e2)" "length fs = k"
    "\<forall>fills \<in> set fs. P fills" "idle_engine e2" by blast
  with f(1,2) show ?case by auto
qed simp

text \<open>
  However many iterations ran, every timed pro-rata order was filled completely, every timed order of the
  other benchmark took the iceberg's first slice and nothing else, and the book is empty again.
\<close>

theorem pro_rata_bench_steady:
  assumes "0 < n" and "n \<le> 2 ^ 18" and "0 < fuel"
  shows "\<exists>fs e. bm_pro_rata_match fuel n k = Some (fs, e) \<and> length fs = k \<and>
    (\<forall>fills \<in> set fs. fills_total fills = 5 * nat n) \<and> idle_engine e"
  unfolding bm_pro_rata_match_def
  by (rule bench_iterations_ok [OF pro_rata_iteration_ok [OF _ assms(3,1,2)] idle_start])

theorem iceberg_bench_steady:
  assumes "0 < n" and "n < 2 ^ 32" and "0 < fuel"
  shows "\<exists>fs e. bm_iceberg_replenish fuel n k = Some (fs, e) \<and> length fs = k \<and>
    (\<forall>fills \<in> set fs. \<exists>i. map abs_fill fills = [(i, bench_px, nat n)]) \<and> idle_engine e"
proof -
  have "\<exists>fills e'. iceberg_iteration fuel n e = Some (fills, e') \<and>
      (\<exists>i. map abs_fill fills = [(i, bench_px, nat n)]) \<and> idle_engine e'" if "idle_engine e" for e
    using iceberg_iteration_ok [OF that assms(3,1,2)] by (elim exE conjE) (intro exI conjI)
  from bench_iterations_ok [where f = "iceberg_iteration fuel n", OF this idle_start] show ?thesis
    unfolding bm_iceberg_replenish_def .
qed

end
