(* ===== verification/Profile_Structures.thy ===== *)
theory Profile_Structures
  imports Price_Ladder Order_Pool Complex_Main "HOL-Library.Monad_Syntax" "HOL-Library.Multiset"
begin

section \<open>The structure benchmarks of the profiler\<close>

text \<open>
  bench/profile_pipeline.cpp, the functions that time a lookup, a walk and an allocation in
  isolation. What they compute is modelled, not how long it takes: the value they add up in
  their \<open>sink\<close>, and what they leave of the pools and of the heap. The draws of
  \<open>uniform_int_distribution\<close> are arguments. \<open>None\<close> is undefined behaviour: an \<open>int\<close> that
  overflows, a null pointer that is followed, an empty vector's front, a block freed twice.
\<close>

subsection \<open>Accumulated times\<close>

record acc =
  ac_n :: u64
  ac_sum :: u64

definition new_acc :: acc where
  "new_acc = \<lparr>ac_n = 0, ac_sum = 0\<rparr>"

definition acc_mean :: "acc \<Rightarrow> real" where
  "acc_mean a = (if ac_n a \<noteq> 0 then real (unat (ac_sum a)) / real (unat (ac_n a)) else 0)"

subsection \<open>A tree and a sorted vector\<close>

definition bid_gt :: "i64 \<Rightarrow> i64 \<Rightarrow> bool" where
  "bid_gt a b \<longleftrightarrow> b <s a"

text \<open>\<open>std::map\<close> as the list of its elements in order; \<open>emplace\<close> keeps an element that is there.\<close>

fun tree_emplace :: "('k \<Rightarrow> 'k \<Rightarrow> bool) \<Rightarrow> 'k \<Rightarrow> 'v \<Rightarrow> ('k \<times> 'v) list \<Rightarrow> ('k \<times> 'v) list" where
  "tree_emplace lt k v [] = [(k, v)]"
| "tree_emplace lt k v ((k', v') # m) =
     (if lt k' k then (k', v') # tree_emplace lt k v m
      else if lt k k' then (k, v) # (k', v') # m
      else (k', v') # m)"

fun tree_find :: "('k \<Rightarrow> 'k \<Rightarrow> bool) \<Rightarrow> 'k \<Rightarrow> ('k \<times> 'v) list \<Rightarrow> 'v option" where
  "tree_find lt k [] = None"
| "tree_find lt k ((k', v') # m) =
     (if lt k' k then tree_find lt k m else if lt k k' then None else Some v')"

text \<open>\<open>std::lower_bound\<close> on the vector.\<close>

definition vec_lower :: "('k \<Rightarrow> 'k \<Rightarrow> bool) \<Rightarrow> 'k list \<Rightarrow> 'k \<Rightarrow> nat" where
  "vec_lower lt v k = length (takeWhile (\<lambda>x. lt x k) v)"

definition level_px :: "nat \<Rightarrow> i64" where
  "level_px i = 10000 - of_nat i"

definition lookup_tree :: "nat \<Rightarrow> (i64 \<times> int) list" where
  "lookup_tree depth = fold (\<lambda>i. tree_emplace bid_gt (level_px i) (int i)) [0..<depth] []"

definition lookup_vec :: "nat \<Rightarrow> i64 list" where
  "lookup_vec depth = fold (\<lambda>i v. v @ [level_px i]) [0..<depth] []"

definition lookup_keys :: "nat list \<Rightarrow> i64 list" where
  "lookup_keys draws = map level_px draws"

text \<open>\<open>sink += x\<close> on a 32-bit \<open>int\<close>.\<close>

definition sink_add :: "int \<Rightarrow> int \<Rightarrow> int option" where
  "sink_add x s = (if - (2 ^ 31) \<le> s + x \<and> s + x < 2 ^ 31 then Some (s + x) else None)"

definition tree_lookup :: "(i64 \<times> int) list \<Rightarrow> i64 \<Rightarrow> int \<Rightarrow> int option" where
  "tree_lookup tree k s = (case tree_find bid_gt k tree of None \<Rightarrow> Some s | Some i \<Rightarrow> sink_add i s)"

definition vec_lookup :: "i64 list \<Rightarrow> i64 \<Rightarrow> int \<Rightarrow> int option" where
  "vec_lookup vec k s =
     (let i = vec_lower bid_gt vec k
      in if i \<noteq> length vec \<and> vec ! i = k then sink_add (sint (ucast (vec ! i) :: 32 word)) s else Some s)"

fun lookups :: "('k \<Rightarrow> int \<Rightarrow> int option) \<Rightarrow> 'k list \<Rightarrow> int \<Rightarrow> int option" where
  "lookups f [] s = Some s"
| "lookups f (k # ks) s = f k s \<bind> lookups f ks"

definition bench_map_vs_vector :: "nat \<Rightarrow> nat list \<Rightarrow> int option" where
  "bench_map_vs_vector depth draws =
     (let keys = lookup_keys draws
      in lookups (tree_lookup (lookup_tree depth)) keys 0 \<bind>
         lookups (vec_lookup (lookup_vec depth)) keys)"

subsection \<open>Walking a chain of orders\<close>

text \<open>A pool with its memory, the previous pointer and the vector of the addresses.\<close>

record order_chain =
  oc_pool :: order_pool
  oc_mem :: store
  oc_prev :: ptr
  oc_list :: "addr list"

definition new_chain :: "nat \<Rightarrow> alloc_mode \<Rightarrow> store \<Rightarrow> order_chain" where
  "new_chain n m h = \<lparr>oc_pool = new_pool (n + 8) m, oc_mem = h, oc_prev = None, oc_list = []\<rparr>"

definition link_order :: "order_chain \<Rightarrow> order_chain option" where
  "link_order c =
     (case allocate (oc_pool c) (oc_mem c) of
        (None, p, h) \<Rightarrow> None
      | (Some a, p, h) \<Rightarrow>
          (let h1 = h(a := (h a)\<lparr>remaining_qty := 1, nxt := None\<rparr>);
               h2 = (case oc_prev c of None \<Rightarrow> h1 | Some q \<Rightarrow> h1(q := (h1 q)\<lparr>nxt := Some a\<rparr>))
           in Some \<lparr>oc_pool = p, oc_mem = h2, oc_prev = Some a, oc_list = oc_list c @ [a]\<rparr>))"

text \<open>The loop builds both chains in step.\<close>

primrec link_orders :: "nat \<Rightarrow> order_chain \<times> order_chain \<Rightarrow> (order_chain \<times> order_chain) option" where
  "link_orders 0 s = Some s"
| "link_orders (Suc n) s =
     do { p \<leftarrow> link_order (fst s); h \<leftarrow> link_order (snd s); link_orders n (p, h) }"

partial_function (option) sum_chain :: "store \<Rightarrow> ptr \<Rightarrow> u64 \<Rightarrow> u64 option" where
  "sum_chain h p s =
     (case p of None \<Rightarrow> Some s | Some a \<Rightarrow> sum_chain h (nxt (h a)) (s + remaining_qty (h a)))"

declare sum_chain.simps [code]

primrec walk_chain :: "nat \<Rightarrow> store \<Rightarrow> ptr \<Rightarrow> u64 \<Rightarrow> u64 option" where
  "walk_chain 0 h p s = Some s"
| "walk_chain (Suc w) h p s = sum_chain h p s \<bind> walk_chain w h p"

definition front :: "'a list \<Rightarrow> 'a option" where
  "front xs = (case xs of [] \<Rightarrow> None | x # _ \<Rightarrow> Some x)"

text \<open>The memory of the two pools before the first order is whatever it is.\<close>

definition bench_order_walk :: "store \<Rightarrow> store \<Rightarrow> nat \<Rightarrow> nat \<Rightarrow> u64 option" where
  "bench_order_walk h1 h2 n walks =
     do {
       (p, h) \<leftarrow> link_orders n (new_chain n Pool h1, new_chain n Heap h2);
       a \<leftarrow> front (oc_list p);
       s \<leftarrow> walk_chain walks (oc_mem p) (Some a) 0;
       c \<leftarrow> front (oc_list h);
       t \<leftarrow> walk_chain walks (oc_mem h) (Some c) 0;
       Some (0 + s + t)
     }"

subsection \<open>The same walk over \<open>std::list\<close>\<close>

text \<open>The heap: the next address and the blocks in use.\<close>

record raw_heap =
  rh_brk :: nat
  rh_used :: "nat list"

definition operator_new :: "raw_heap \<Rightarrow> nat \<times> raw_heap" where
  "operator_new r = (rh_brk r, r\<lparr>rh_brk := Suc (rh_brk r), rh_used := rh_brk r # rh_used r\<rparr>)"

definition operator_delete :: "nat \<Rightarrow> raw_heap \<Rightarrow> raw_heap option" where
  "operator_delete a r = (if a \<in> set (rh_used r) then Some (r\<lparr>rh_used := remove1 a (rh_used r)\<rparr>) else None)"

record std_node =
  sn_qty :: u64
  sn_pad :: "u64 list"

definition std_node_init :: std_node where
  "std_node_init = \<lparr>sn_qty = 1, sn_pad = replicate 15 0\<rparr>"

text \<open>A list element and the block that holds it; \<open>push_back\<close> and \<open>clear\<close> of \<open>std::list\<close>.\<close>

type_synonym 'a std_list = "(nat \<times> 'a) list"

definition list_push_back :: "'a \<Rightarrow> 'a std_list \<times> raw_heap \<Rightarrow> 'a std_list \<times> raw_heap" where
  "list_push_back x = (\<lambda>(l, r). let (a, r1) = operator_new r in (l @ [(a, x)], r1))"

primrec free_blocks :: "nat list \<Rightarrow> raw_heap \<Rightarrow> raw_heap option" where
  "free_blocks [] r = Some r"
| "free_blocks (a # as) r = operator_delete a r \<bind> free_blocks as"

definition list_clear :: "'a std_list \<Rightarrow> raw_heap \<Rightarrow> raw_heap option" where
  "list_clear l r = free_blocks (map fst l) r"

text \<open>One round of the second loop: three blocks of junk, then an element.\<close>

definition scatter :: "nat list \<times> std_node std_list \<times> raw_heap \<Rightarrow> nat list \<times> std_node std_list \<times> raw_heap" where
  "scatter = (\<lambda>(junk, l, r).
     (let (a, r1) = operator_new r; (b, r2) = operator_new r1; (c, r3) = operator_new r2;
          (l1, r4) = list_push_back std_node_init (l, r3)
      in (junk @ [a, b, c], l1, r4)))"

definition sum_nodes :: "std_node std_list \<Rightarrow> u64 \<Rightarrow> u64" where
  "sum_nodes l s = fold (\<lambda>(a, x) s. s + sn_qty x) l s"

definition walk_list :: "nat \<Rightarrow> std_node std_list \<Rightarrow> u64" where
  "walk_list walks l = (sum_nodes l ^^ walks) 0"

text \<open>The sum, and the heap after the junk and then the two lists are released.\<close>

definition bench_naive_list :: "nat \<Rightarrow> nat \<Rightarrow> raw_heap \<Rightarrow> (u64 \<times> raw_heap) option" where
  "bench_naive_list n walks r =
     (let (sequential, r1) = (list_push_back std_node_init ^^ n) ([], r);
          (junk, scattered, r2) = (scatter ^^ n) ([], [], r1);
          s = 0 + walk_list walks sequential + walk_list walks scattered
      in do {
           r3 \<leftarrow> free_blocks junk r2;
           r4 \<leftarrow> list_clear scattered r3;
           r5 \<leftarrow> list_clear sequential r4;
           Some (s, r5)
         })"

subsection \<open>Allocating and freeing\<close>

text \<open>
  Filling the vector and freeing its elements in order. \<open>deallocate\<close> asserts that its argument is not
  null.
\<close>

primrec hold_orders :: "nat \<Rightarrow> order_pool \<times> store \<Rightarrow> ptr list \<times> order_pool \<times> store" where
  "hold_orders 0 s = ([], s)"
| "hold_orders (Suc n) s =
     (let (a, p, h) = allocate (fst s) (snd s); (as, s1) = hold_orders n (p, h) in (a # as, s1))"

primrec release_orders :: "ptr list \<Rightarrow> order_pool \<Rightarrow> order_pool option" where
  "release_orders [] p = Some p"
| "release_orders (a # as) p = (case a of None \<Rightarrow> None | Some x \<Rightarrow> release_orders as (deallocate p x))"

definition churn :: "nat \<Rightarrow> alloc_mode \<Rightarrow> store \<Rightarrow> (ptr list \<times> order_pool) option" where
  "churn n m h =
     (let (hold, p, h1) = hold_orders n (new_pool (n + 8) m, h)
      in map_option (\<lambda>p1. (hold, p1)) (release_orders hold p))"

definition churn_list :: "nat \<Rightarrow> raw_heap \<Rightarrow> raw_heap option" where
  "churn_list n r = (let (l, r1) = (list_push_back zero_order ^^ n) ([], r) in list_clear l r1)"

definition bench_alloc_churn ::
    "nat \<Rightarrow> store \<Rightarrow> raw_heap \<Rightarrow> ((ptr list \<times> order_pool) \<times> (ptr list \<times> order_pool) \<times> raw_heap) option" where
  "bench_alloc_churn n h r =
     do { p \<leftarrow> churn n Pool h; q \<leftarrow> churn n Heap h; r1 \<leftarrow> churn_list n r; Some (p, q, r1) }"

subsection \<open>What the lookups add up\<close>

lemma level_px_sint: "i \<le> 10000 \<Longrightarrow> sint (level_px i) = 10000 - int i"
proof -
  assume "i \<le> 10000"
  then have "level_px i = of_nat (10000 - i)" by (simp add: level_px_def of_nat_diff)
  then have "sint (level_px i) = int (10000 - i)"
    by (simp only: signed_of_nat) (simp add: signed_take_bit_int_eq_self)
  with \<open>i \<le> 10000\<close> show ?thesis by simp
qed

lemma level_px_int: "i \<le> 10000 \<Longrightarrow> sint (ucast (level_px i) :: 32 word) = 10000 - int i"
proof -
  assume "i \<le> 10000"
  then have "level_px i = of_nat (10000 - i)" by (simp add: level_px_def of_nat_diff)
  then have "sint (ucast (level_px i) :: 32 word) = sint (of_nat (10000 - i) :: 32 word)"
    by (simp only: unsigned_of_nat) (simp add: take_bit_nat_eq_self)
  also have "\<dots> = int (10000 - i)" by (simp only: signed_of_nat) (simp add: signed_take_bit_int_eq_self)
  finally show ?thesis using \<open>i \<le> 10000\<close> by simp
qed

lemma bid_gt_level: "i \<le> 10000 \<Longrightarrow> j \<le> 10000 \<Longrightarrow> bid_gt (level_px i) (level_px j) \<longleftrightarrow> i < j"
  by (simp add: bid_gt_def word_sless_alt level_px_sint)

lemma tree_emplace_last: "\<forall>(k', v') \<in> set m. lt k' k \<Longrightarrow> tree_emplace lt k v m = m @ [(k, v)]"
  by (induction lt k v m rule: tree_emplace.induct) auto

lemma lookup_tree_eq: "depth \<le> 10001 \<Longrightarrow> lookup_tree depth = map (\<lambda>i. (level_px i, int i)) [0..<depth]"
proof (induction depth)
  case (Suc d)
  then have "lookup_tree (Suc d) = tree_emplace bid_gt (level_px d) (int d) (map (\<lambda>i. (level_px i, int i)) [0..<d])"
    by (simp add: lookup_tree_def)
  also have "\<dots> = map (\<lambda>i. (level_px i, int i)) [0..<d] @ [(level_px d, int d)]"
    by (rule tree_emplace_last) (use Suc.prems in \<open>auto simp: bid_gt_level\<close>)
  finally show ?case by simp
qed (simp add: lookup_tree_def)

lemma lookup_vec_eq: "lookup_vec depth = map level_px [0..<depth]"
  by (induction depth) (simp_all add: lookup_vec_def)

lemma tree_find_skip: "\<forall>(k', v') \<in> set m. lt k' k \<Longrightarrow> tree_find lt k (m @ m') = tree_find lt k m'"
  by (induction m) auto

lemma upt_at: "d < n \<Longrightarrow> [0..<n] = [0..<d] @ d # [Suc d..<n]"
  using upt_add_eq_append [of 0 d "n - d"] by (simp add: upt_conv_Cons)

lemma tree_lookup_level:
  assumes "d < depth" and "depth \<le> 10001"
  shows "tree_lookup (lookup_tree depth) (level_px d) s = sink_add (int d) s"
proof -
  let ?f = "\<lambda>i. (level_px i, int i)"
  have "lookup_tree depth = map ?f [0..<d] @ ?f d # map ?f [Suc d..<depth]"
    unfolding lookup_tree_eq [OF assms(2)] upt_at [OF assms(1)] by simp
  moreover have "\<forall>(k', v') \<in> set (map ?f [0..<d]). bid_gt k' (level_px d)"
    using assms by (auto simp: bid_gt_level)
  ultimately have "tree_find bid_gt (level_px d) (lookup_tree depth) = Some (int d)"
    using assms by (simp add: tree_find_skip bid_gt_level)
  then show ?thesis by (simp add: tree_lookup_def)
qed

lemma vec_lookup_level:
  assumes "d < depth" and "depth \<le> 10001"
  shows "vec_lookup (lookup_vec depth) (level_px d) s = sink_add (10000 - int d) s"
proof -
  let ?P = "\<lambda>x. bid_gt x (level_px d)"
  have split: "lookup_vec depth = map level_px [0..<d] @ level_px d # map level_px [Suc d..<depth]"
    unfolding lookup_vec_eq upt_at [OF assms(1)] by simp
  have "\<forall>x \<in> set (map level_px [0..<d]). ?P x" using assms by (auto simp: bid_gt_level)
  moreover have "\<not> ?P (level_px d)" using assms by (simp add: bid_gt_level)
  ultimately have "takeWhile ?P (lookup_vec depth) = map level_px [0..<d]"
    unfolding split takeWhile_tail [where P = ?P, OF \<open>\<not> ?P (level_px d)\<close>] by (simp only: takeWhile_eq_all_conv)
  then have "vec_lower bid_gt (lookup_vec depth) (level_px d) = d" by (simp add: vec_lower_def)
  moreover have "lookup_vec depth ! d = level_px d" "length (lookup_vec depth) = depth"
    using assms(1) by (simp_all add: lookup_vec_eq)
  ultimately show ?thesis using assms by (simp add: vec_lookup_def level_px_int)
qed

text \<open>Terms that are not negative overflow if and only if their sum does.\<close>

lemma lookups_sum:
  assumes "\<And>k s. k \<in> set ks \<Longrightarrow> f k s = sink_add (g k) s" and "\<And>k. k \<in> set ks \<Longrightarrow> 0 \<le> g k"
    and "0 \<le> s" and "s < 2 ^ 31"
  shows "lookups f ks s = (if s + sum_list (map g ks) < 2 ^ 31 then Some (s + sum_list (map g ks)) else None)"
  using assms
proof (induction ks arbitrary: s)
  case (Cons k ks)
  have one: "f k s = sink_add (g k) s" "0 \<le> g k" using Cons.prems(1) [of k s] Cons.prems(2) [of k] by simp_all
  have rest: "0 \<le> sum_list (map g ks)" using Cons.prems(2) by (intro sum_list_nonneg) auto
  show ?case
  proof (cases "s + g k < 2 ^ 31")
    case True
    have "lookups f ks (s + g k) = (if s + g k + sum_list (map g ks) < 2 ^ 31
        then Some (s + g k + sum_list (map g ks)) else None)"
      by (rule Cons.IH) (use Cons.prems one True in simp_all)
    then show ?thesis using True one Cons.prems(3) by (simp add: sink_add_def add.assoc)
  next
    case False
    then show ?thesis using one rest by (simp add: sink_add_def)
  qed
qed simp

lemma sum_levels: "sum_list (map int ds) + sum_list (map (\<lambda>d. 10000 - int d) ds) = 10000 * int (length ds)"
  by (induction ds) simp_all

lemma lookups_map: "lookups f (map h ds) = lookups (\<lambda>d. f (h d)) ds"
proof (induction ds)
  case (Cons d ds)
  show ?case by (rule ext) (simp add: Cons.IH)
qed (simp add: fun_eq_iff)

lemma lookup_sink_value:
  assumes "depth \<le> 10001" and "\<forall>d \<in> set draws. d < depth"
  shows "bench_map_vs_vector depth draws =
    (if length draws \<le> 214748 then Some (10000 * int (length draws)) else None)"
proof -
  let ?t = "sum_list (map int draws)" and ?v = "sum_list (map (\<lambda>d. 10000 - int d) draws)"
  have small: "d \<le> 10000" if "d \<in> set draws" for d using assms that by fastforce
  have nonneg: "0 \<le> ?t" "0 \<le> ?v" using small by (auto intro!: sum_list_nonneg)
  have tree: "lookups (tree_lookup (lookup_tree depth)) (lookup_keys draws) 0 =
      (if 0 + ?t < 2 ^ 31 then Some (0 + ?t) else None)"
    unfolding lookup_keys_def lookups_map
    by (rule lookups_sum) (use assms in \<open>simp_all add: tree_lookup_level\<close>)
  have vec: "lookups (vec_lookup (lookup_vec depth)) (lookup_keys draws) ?t =
      (if ?t + ?v < 2 ^ 31 then Some (?t + ?v) else None)" if "?t < 2 ^ 31"
    unfolding lookup_keys_def lookups_map
    by (rule lookups_sum) (use assms small nonneg that in \<open>simp_all add: vec_lookup_level\<close>)
  have sum: "?t + ?v = 10000 * int (length draws)" by (rule sum_levels)
  show ?thesis
  proof (cases "length draws \<le> 214748")
    case True
    then have "?t + ?v < 2 ^ 31" using sum by simp
    then show ?thesis using True tree vec nonneg sum by (simp add: bench_map_vs_vector_def Let_def)
  next
    case False
    then have "\<not> ?t + ?v < 2 ^ 31" using sum by simp
    then show ?thesis using False tree vec by (simp add: bench_map_vs_vector_def Let_def)
  qed
qed

text \<open>C40. Every lookup of the profiler finds its key, in the tree and in the sorted vector, and what the two
  loops add up is 10000 for each key, whatever the draws. The sum is kept in an \<open>int\<close>, so the benchmark
  returns it exactly when it is below \<open>2 ^ 31\<close>, and from 214749 keys on it overflows; the program asks
  for 400000.\<close>
theorem lookup_sink:
  assumes "depth \<le> 10001" and "\<forall>d \<in> set draws. d < depth"
  shows "bench_map_vs_vector depth draws =
    (if length draws \<le> 214748 then Some (10000 * int (length draws)) else None)"
  by (rule lookup_sink_value [OF assms])

theorem lookup_sink_witness:
  "bench_map_vs_vector 8 [3, 0, 7] = Some 30000 \<and> bench_map_vs_vector 512 (replicate 400000 511) = None"
  using lookup_sink [of 8 "[3, 0, 7]"] lookup_sink [of 512 "replicate 400000 511"] by simp

subsection \<open>Chains of orders\<close>

text \<open>From each order the next one is reached, the last one points to \<open>q\<close>, and each has one unit.\<close>

primrec nlinks :: "store \<Rightarrow> addr list \<Rightarrow> ptr \<Rightarrow> bool" where
  "nlinks h [] q = True"
| "nlinks h (a # as) q = (nxt (h a) = first_or as q \<and> remaining_qty (h a) = 1 \<and> nlinks h as q)"

lemma nlinks_append: "nlinks h (xs @ ys) q \<longleftrightarrow> nlinks h xs (first_or ys q) \<and> nlinks h ys q"
  by (induction xs) auto

lemma nlinks_cong: "(\<And>a. a \<in> set as \<Longrightarrow> h' a = h a) \<Longrightarrow> nlinks h' as q = nlinks h as q"
  by (induction as) auto

definition chain_ok :: "nat \<Rightarrow> order_chain \<Rightarrow> bool" where
  "chain_ok n c \<longleftrightarrow> oc_prev c = last_or (oc_list c) None \<and> distinct (oc_list c) \<and>
     pool_inv (oc_pool c) (set (oc_list c)) \<and> capacity (oc_pool c) = n + 8 \<and>
     nlinks (oc_mem c) (oc_list c) None"

lemma new_chain_ok: "chain_ok n (new_chain n m h)"
  using pool_inv_new [of "n + 8" m] by (simp add: chain_ok_def new_chain_def) (simp add: new_pool_def)

lemma link_order_ok:
  assumes "chain_ok n c" and "length (oc_list c) < n"
  shows "\<exists>c'. link_order c = Some c' \<and> chain_ok n c' \<and> length (oc_list c') = Suc (length (oc_list c))"
proof -
  let ?as = "oc_list c" and ?h = "oc_mem c"
  have ok: "oc_prev c = last_or ?as None" "distinct ?as" "pool_inv (oc_pool c) (set ?as)"
    "capacity (oc_pool c) = n + 8" "nlinks ?h ?as None" using assms(1) by (simp_all add: chain_ok_def)
  have "fst (allocate (oc_pool c) ?h) \<noteq> None"
  proof
    assume "fst (allocate (oc_pool c) ?h) = None"
    then have full: "mode (oc_pool c) = Pool" "freelist (oc_pool c) = []"
      by (cases rule: allocate_cases [of "oc_pool c" ?h]; simp)+
    from pool_inv_count [OF ok(3) full(1)] full(2) ok(2,4) assms(2) show False
      by (simp add: free_count_def distinct_card)
  qed
  then obtain a p h where alloc: "allocate (oc_pool c) ?h = (Some a, p, h)"
    by (cases "allocate (oc_pool c) ?h") auto
  note fresh = allocate_Some [OF alloc ok(3)]
  define h1 where "h1 = h(a := (h a)\<lparr>remaining_qty := 1, nxt := None\<rparr>)"
  define h2 where "h2 = (case oc_prev c of None \<Rightarrow> h1 | Some q \<Rightarrow> h1(q := (h1 q)\<lparr>nxt := Some a\<rparr>))"
  have run: "link_order c = Some \<lparr>oc_pool = p, oc_mem = h2, oc_prev = Some a, oc_list = ?as @ [a]\<rparr>"
    unfolding link_order_def alloc h1_def h2_def Let_def by simp
  have "nlinks h2 (?as @ [a]) None"
  proof (cases ?as rule: rev_cases)
    case Nil
    then show ?thesis by (simp add: h2_def ok(1) h1_def)
  next
    case (snoc ys q)
    then have h2: "h2 = h1(q := (h1 q)\<lparr>nxt := Some a\<rparr>)" by (simp add: h2_def ok(1))
    have ne: "a \<noteq> q" "a \<notin> set ys" "q \<notin> set ys" using fresh(1) ok(2) snoc by auto
    have "nlinks h2 ys (Some q) = nlinks ?h ys (Some q)"
      by (rule nlinks_cong) (use ne in \<open>auto simp: h2 h1_def fresh(3)\<close>)
    then show ?thesis using ok(5) ne by (simp add: snoc nlinks_append h2 h1_def fresh(3))
  qed
  then have "chain_ok n \<lparr>oc_pool = p, oc_mem = h2, oc_prev = Some a, oc_list = ?as @ [a]\<rparr>"
    using ok fresh by (simp add: chain_ok_def)
  with run show ?thesis by simp
qed

lemma link_orders_ok:
  assumes "chain_ok n p" and "chain_ok n h" and "length (oc_list p) = i" and "length (oc_list h) = i" and "i + k = n"
  shows "\<exists>p' h'. link_orders k (p, h) = Some (p', h') \<and> chain_ok n p' \<and> chain_ok n h' \<and>
    length (oc_list p') = n \<and> length (oc_list h') = n"
  using assms
proof (induction k arbitrary: p h i)
  case (Suc k)
  obtain p1 where p1: "link_order p = Some p1" "chain_ok n p1" "length (oc_list p1) = Suc i"
    using link_order_ok [OF Suc.prems(1)] Suc.prems(3,5) by auto
  obtain h1 where h1: "link_order h = Some h1" "chain_ok n h1" "length (oc_list h1) = Suc i"
    using link_order_ok [OF Suc.prems(2)] Suc.prems(4,5) by auto
  from Suc.IH [OF p1(2) h1(2) p1(3) h1(3)] Suc.prems(5) p1(1) h1(1) show ?case by simp
qed simp

lemma sum_chain_links: "nlinks h as None \<Longrightarrow> sum_chain h (first_or as None) s = Some (s + of_nat (length as))"
proof (induction as arbitrary: s)
  case Nil
  show ?case by (simp add: sum_chain.simps)
next
  case (Cons a as)
  then show ?case by (subst sum_chain.simps) (simp add: add.assoc)
qed

lemma walk_chain_links:
  assumes "nlinks h as None"
  shows "walk_chain w h (first_or as None) s = Some (s + of_nat (w * length as))"
  by (induction w arbitrary: s) (simp_all add: sum_chain_links [OF assms] add.assoc)

lemma order_walk_sum:
  assumes "0 < n"
  shows "bench_order_walk h1 h2 n walks = Some (of_nat (2 * n * walks))"
proof -
  obtain p h where ph: "link_orders n (new_chain n Pool h1, new_chain n Heap h2) = Some (p, h)"
    "chain_ok n p" "chain_ok n h" "length (oc_list p) = n" "length (oc_list h) = n"
    using link_orders_ok [OF new_chain_ok [of n Pool h1] new_chain_ok [of n Heap h2], of 0 n] by (auto simp: new_chain_def)
  have one: "\<exists>a. front (oc_list c) = Some a \<and> walk_chain walks (oc_mem c) (Some a) 0 = Some (of_nat (walks * n))"
    if "chain_ok n c" "length (oc_list c) = n" for c
  proof -
    from that(2) assms obtain a as where "oc_list c = a # as" by (cases "oc_list c") auto
    then show ?thesis
      using walk_chain_links [of "oc_mem c" "oc_list c" walks 0] that(1)
      unfolding chain_ok_def front_def that(2) by simp
  qed
  from one [OF ph(2,4)] one [OF ph(3,5)] show ?thesis
    by (auto simp: bench_order_walk_def ph(1) algebra_simps)
qed

subsection \<open>Lists on the heap\<close>

lemma list_push_back_eq:
  "list_push_back x (l, r) = (l @ [(rh_brk r, x)], r\<lparr>rh_brk := Suc (rh_brk r), rh_used := rh_brk r # rh_used r\<rparr>)"
  by (simp add: list_push_back_def operator_new_def)

lemma scatter_eq:
  "scatter (junk, l, r) = (let b = rh_brk r in (junk @ [b, Suc b, Suc (Suc b)], l @ [(Suc (Suc (Suc b)), std_node_init)],
     r\<lparr>rh_brk := Suc (Suc (Suc (Suc b))),
       rh_used := Suc (Suc (Suc b)) # Suc (Suc b) # Suc b # b # rh_used r\<rparr>))"
  by (simp add: scatter_def operator_new_def list_push_back_eq Let_def)

lemma push_back_run:
  "\<exists>as r'. (list_push_back x ^^ n) ([], r) = (map (\<lambda>a. (a, x)) as, r') \<and> length as = n \<and>
     mset (rh_used r') = mset as + mset (rh_used r)"
proof (induction n)
  case (Suc n)
  then obtain as r' where one: "(list_push_back x ^^ n) ([], r) = (map (\<lambda>a. (a, x)) as, r')" "length as = n"
    "mset (rh_used r') = mset as + mset (rh_used r)" by blast
  show ?case
    by (rule exI [of _ "as @ [rh_brk r']"]) (simp add: one list_push_back_eq)
qed simp

lemma scatter_run:
  "\<exists>junk as r'. (scatter ^^ n) ([], [], r) = (junk, map (\<lambda>a. (a, std_node_init)) as, r') \<and> length as = n \<and>
     mset (rh_used r') = mset junk + mset as + mset (rh_used r)"
proof (induction n)
  case (Suc n)
  then obtain junk as r' where one: "(scatter ^^ n) ([], [], r) = (junk, map (\<lambda>a. (a, std_node_init)) as, r')"
    "length as = n" "mset (rh_used r') = mset junk + mset as + mset (rh_used r)" by blast
  let ?b = "rh_brk r'"
  show ?case
    by (rule exI [of _ "junk @ [?b, Suc ?b, Suc (Suc ?b)]"], rule exI [of _ "as @ [Suc (Suc (Suc ?b))]"])
      (simp add: one scatter_eq Let_def)
qed simp

lemma free_blocks_ok:
  "mset (rh_used r) = mset as + M \<Longrightarrow> \<exists>r'. free_blocks as r = Some r' \<and> mset (rh_used r') = M"
proof (induction as arbitrary: r)
  case (Cons a as)
  then have "a \<in># mset (rh_used r)" by simp
  then have "a \<in> set (rh_used r)" by simp
  moreover have "mset (remove1 a (rh_used r)) = mset as + M" using Cons.prems by simp
  ultimately show ?case using Cons.IH [of "r\<lparr>rh_used := remove1 a (rh_used r)\<rparr>"]
    by (simp add: operator_delete_def)
qed simp

lemma sum_nodes_init: "sum_nodes (map (\<lambda>a. (a, std_node_init)) as) s = s + of_nat (length as)"
  unfolding sum_nodes_def by (induction as arbitrary: s) (simp_all add: std_node_init_def add.assoc)

lemma walk_list_init: "walk_list w (map (\<lambda>a. (a, std_node_init)) as) = of_nat (w * length as)"
  unfolding walk_list_def by (induction w) (simp_all add: sum_nodes_init)

lemma list_clear_ok:
  "mset (rh_used r) = mset as + M \<Longrightarrow> \<exists>r'. list_clear (map (\<lambda>a. (a, x)) as) r = Some r' \<and> mset (rh_used r') = M"
  using free_blocks_ok [of r as M] by (simp add: list_clear_def comp_def)

lemma naive_list_sum:
  "\<exists>r'. bench_naive_list n walks r = Some (of_nat (2 * n * walks), r') \<and> mset (rh_used r') = mset (rh_used r)"
proof -
  obtain as r1 where seq: "(list_push_back std_node_init ^^ n) ([], r) = (map (\<lambda>a. (a, std_node_init)) as, r1)"
    "length as = n" "mset (rh_used r1) = mset as + mset (rh_used r)"
    using push_back_run [of n std_node_init r] by (elim exE conjE) simp
  obtain junk bs r2 where scat: "(scatter ^^ n) ([], [], r1) = (junk, map (\<lambda>a. (a, std_node_init)) bs, r2)"
    "length bs = n" "mset (rh_used r2) = mset junk + mset bs + mset (rh_used r1)" 
    using scatter_run [of n r1] by (elim exE conjE) simp
  have "mset (rh_used r2) = mset junk + (mset bs + mset (rh_used r1))" using scat(3) by (simp only: add.assoc)
  from free_blocks_ok [OF this] obtain r3 where
    r3: "free_blocks junk r2 = Some r3" "mset (rh_used r3) = mset bs + mset (rh_used r1)" by blast
  from list_clear_ok [OF r3(2), of std_node_init] obtain r4 where
    r4: "list_clear (map (\<lambda>a. (a, std_node_init)) bs) r3 = Some r4" "mset (rh_used r4) = mset (rh_used r1)" by blast
  have "mset (rh_used r4) = mset as + mset (rh_used r)" by (simp only: r4(2) seq(3))
  from list_clear_ok [OF this, of std_node_init] obtain r5 where
    r5: "list_clear (map (\<lambda>a. (a, std_node_init)) as) r4 = Some r5" "mset (rh_used r5) = mset (rh_used r)" by blast
  have "0 + of_nat (walks * n) + of_nat (walks * n) = (of_nat (2 * n * walks) :: u64)"
    by (simp add: mult.commute)
  then have "bench_naive_list n walks r = Some (of_nat (2 * n * walks), r5)"
    by (simp only: bench_naive_list_def seq(1,2) scat(1,2) Let_def prod.case walk_list_init r3(1) r4(1) r5(1)
        bind.bind_lunit option.case)
  then show ?thesis using r5(2) by blast
qed

text \<open>The two ways of walking the profiler compares do the same work: the chain of orders linked in a
  slab, the one linked on the heap and the two \<open>std::list\<close>s add up the same number, one unit for
  each order, list and walk; no allocation fails, every walk ends, and the lists and the junk between their
  elements are all given back to the heap.\<close>
theorem walks_agree:
  assumes "0 < n"
  shows "\<exists>s r'. bench_order_walk h1 h2 n walks = Some s \<and> bench_naive_list n walks r = Some (s, r') \<and>
    s = of_nat (2 * n * walks) \<and> mset (rh_used r') = mset (rh_used r)"
  using order_walk_sum [OF assms, of h1 h2 walks] naive_list_sum [of n walks r] by blast

theorem walks_agree_witness:
  "\<exists>s r'. bench_order_walk (\<lambda>_. zero_order) (\<lambda>_. zero_order) 64 20000 = Some s \<and>
     bench_naive_list 64 20000 \<lparr>rh_brk = 0, rh_used = []\<rparr> = Some (s, r') \<and> s = 2560000 \<and> rh_used r' = []"
  using walks_agree [of 64 "\<lambda>_. zero_order" "\<lambda>_. zero_order" 20000 "\<lparr>rh_brk = 0, rh_used = []\<rparr>"] by simp

subsection \<open>Allocating and freeing\<close>

lemma hold_pool:
  assumes "mode p = Pool"
  shows "freelist p = xs @ ys \<Longrightarrow> length ys = n \<Longrightarrow>
    \<exists>h'. hold_orders n (p, h) = (map Some (rev ys), p\<lparr>freelist := xs\<rparr>, h')"
  using assms
proof (induction n arbitrary: p ys h)
  case (Suc n)
  then obtain zs y where ys: "ys = zs @ [y]" by (cases ys rule: rev_cases) auto
  have alloc: "allocate p h = (Some y, p\<lparr>freelist := xs @ zs\<rparr>, h(y := zero_order))"
    using Suc.prems by (simp add: allocate_def ys butlast_append)
  have "\<exists>h'. hold_orders n (p\<lparr>freelist := xs @ zs\<rparr>, h(y := zero_order)) =
      (map Some (rev zs), p\<lparr>freelist := xs\<rparr>, h')"
    using Suc.IH [of "p\<lparr>freelist := xs @ zs\<rparr>" zs "h(y := zero_order)"] Suc.prems ys
    by (simp del: fun_upd_apply)
  then obtain h' where "hold_orders n (p\<lparr>freelist := xs @ zs\<rparr>, h(y := zero_order)) =
      (map Some (rev zs), p\<lparr>freelist := xs\<rparr>, h')" ..
  then show ?case by (simp add: alloc ys)
qed simp

lemma hold_heap:
  assumes "mode p = Heap"
  shows "\<exists>h'. hold_orders n (p, h) = (map Some [heap_brk p..<heap_brk p + n], p\<lparr>heap_brk := heap_brk p + n\<rparr>, h')"
  using assms
proof (induction n arbitrary: p h)
  case (Suc n)
  let ?p = "p\<lparr>heap_brk := Suc (heap_brk p)\<rparr>"
  have alloc: "allocate p h = (Some (heap_brk p), ?p, h(heap_brk p := zero_order))"
    using Suc.prems by (simp add: allocate_def Let_def)
  have "\<exists>h'. hold_orders n (?p, h(heap_brk p := zero_order)) = (map Some [heap_brk ?p..<heap_brk ?p + n],
      ?p\<lparr>heap_brk := heap_brk ?p + n\<rparr>, h')"
    by (rule Suc.IH) (use Suc.prems in simp)
  then obtain h' where "hold_orders n (?p, h(heap_brk p := zero_order)) = (map Some [heap_brk ?p..<heap_brk ?p + n],
      ?p\<lparr>heap_brk := heap_brk ?p + n\<rparr>, h')" ..
  moreover have "[heap_brk p..<heap_brk p + Suc n] = heap_brk p # [Suc (heap_brk p)..<Suc (heap_brk p) + n]"
    by (subst upt_conv_Cons) simp_all
  ultimately show ?case by (simp add: alloc del: upt_Suc)
qed simp

lemma release_pool:
  "mode p = Pool \<Longrightarrow> release_orders (map Some as) p = Some (p\<lparr>freelist := freelist p @ as\<rparr>)"
  by (induction as arbitrary: p) (simp_all add: deallocate_def)

lemma release_heap: "mode p = Heap \<Longrightarrow> release_orders (map Some as) p = Some p"
  by (induction as arbitrary: p) (simp_all add: deallocate_def)

lemma churn_pool:
  "churn n Pool h = Some (map Some (rev [8..<n + 8]), (new_pool (n + 8) Pool)\<lparr>freelist := [0..<8] @ rev [8..<n + 8]\<rparr>)"
proof -
  let ?p = "new_pool (n + 8) Pool"
  have "[0..<n + 8] = [0..<8] @ [8..<n + 8]" using upt_add_eq_append [of 0 8 n] by (simp add: add.commute)
  then have p: "mode ?p = Pool" "freelist ?p = [0..<8] @ [8..<n + 8]" by (simp_all add: new_pool_def)
  obtain h' where "hold_orders n (?p, h) = (map Some (rev [8..<n + 8]), ?p\<lparr>freelist := [0..<8]\<rparr>, h')"
    using hold_pool [OF p, of n h] by auto
  then show ?thesis using p(1) by (simp add: churn_def release_pool)
qed

lemma churn_heap: "churn n Heap h = Some (map Some [0..<n], (new_pool (n + 8) Heap)\<lparr>heap_brk := n\<rparr>)"
proof -
  let ?p = "new_pool (n + 8) Heap"
  have p: "mode ?p = Heap" "heap_brk ?p = 0" by (simp_all add: new_pool_def)
  obtain h' where "hold_orders n (?p, h) = (map Some [0..<n], ?p\<lparr>heap_brk := n\<rparr>, h')"
    using hold_heap [OF p(1), of n h] p(2) by auto
  then show ?thesis using p(1) by (simp add: churn_def release_heap)
qed

text \<open>The allocation benchmark never runs out and gives everything back: the pool hands out its slots
  from the last down, no two the same, and after they are freed in that order all of its slots are
  free again, the eight spare ones first and the others reversed; the heap hands out a new
  address each time, and the list leaves the heap with the blocks it had.\<close>
theorem alloc_churn_balanced:
  "\<exists>r'. bench_alloc_churn n h r = Some
     ((map Some (rev [8..<n + 8]), (new_pool (n + 8) Pool)\<lparr>freelist := [0..<8] @ rev [8..<n + 8]\<rparr>),
      (map Some [0..<n], (new_pool (n + 8) Heap)\<lparr>heap_brk := n\<rparr>), r') \<and>
     mset (rh_used r') = mset (rh_used r)"
proof -
  obtain as r1 where l: "(list_push_back zero_order ^^ n) ([], r) = (map (\<lambda>a. (a, zero_order)) as, r1)"
    "mset (rh_used r1) = mset as + mset (rh_used r)" 
    using push_back_run [of n zero_order r] by (elim exE conjE) simp
  obtain r2 where "list_clear (map (\<lambda>a. (a, zero_order)) as) r1 = Some r2" "mset (rh_used r2) = mset (rh_used r)"
    using list_clear_ok [OF l(2), of zero_order] by (elim exE conjE) simp
  then show ?thesis
    by (simp add: bench_alloc_churn_def churn_pool churn_heap churn_list_def l(1) del: upt_Suc)
qed

end
