(* ===== verification/Profile_Run.thy ===== *)
theory Profile_Run
  imports Simulator Md_Sockets Text_Format Profile_Structures
begin

section \<open>The pipeline run of the profiler\<close>

text \<open>
  bench/profile_pipeline.cpp, \<open>run_pipeline\<close> and the arguments of \<open>main\<close>: a book is warmed up by the
  simulator, then a mix of orders goes through the matching engine, with a publisher attached or
  without. The random generator, the clock and what the publisher's thread does to the
  publisher between two calls are parameters; the clock and the thread answer by a count of the calls made.
\<close>

record 'g profile_env =
  pe_random :: "'g random_source"
  pe_clock :: "nat \<Rightarrow> u64"
  pe_thread :: "nat \<Rightarrow> publisher \<Rightarrow> publisher"

record 'g profiler =
  pf_engine :: engine
  pf_pub :: "publisher option"
  pf_rng :: 'g
  pf_live :: "order_id_t list"
  pf_ticks :: nat
  pf_limit :: acc
  pf_mkt :: acc
  pf_cxl :: acc
  pf_enq :: acc
  pf_all :: acc

definition new_profiler :: "'g \<Rightarrow> publisher option \<Rightarrow> order_book \<Rightarrow> 'g profiler" where
  "new_profiler g pub b = \<lparr>pf_engine = new_engine b, pf_pub = pub, pf_rng = g, pf_live = [], pf_ticks = 0,
     pf_limit = new_acc, pf_mkt = new_acc, pf_cxl = new_acc, pf_enq = new_acc, pf_all = new_acc\<rparr>"

definition profile_config :: sim_config where
  "profile_config = default_config\<lparr>target_depth_per_side := 100, tick_span := 128\<rparr>"

definition profile_pub_config :: pub_config where
  "profile_pub_config = \<lparr>pc_group = ''239.1.2.3'', pc_port = 19011, pc_pin_cpu = 1, pc_ttl = 1, pc_loopback = True\<rparr>"

subsection \<open>The clock, the draws and the accumulators\<close>

definition ns_now :: "'g profile_env \<Rightarrow> 'g profiler \<Rightarrow> u64 \<times> 'g profiler" where
  "ns_now E s = (pe_clock E (pf_ticks s), s\<lparr>pf_ticks := pf_ticks s + 1\<rparr>)"

definition pf_u01 :: "'g profile_env \<Rightarrow> 'g profiler \<Rightarrow> real \<times> 'g profiler" where
  "pf_u01 E s = (let (u, g) = rn_u01 (pe_random E) (pf_rng s) in (u, s\<lparr>pf_rng := g\<rparr>))"

definition pf_next :: "'g profile_env \<Rightarrow> 'g profiler \<Rightarrow> u64 \<times> 'g profiler" where
  "pf_next E s = (let (r, g) = rn_next (pe_random E) (pf_rng s) in (r, s\<lparr>pf_rng := g\<rparr>))"

text \<open>\<open>a.n++; a.ns_sum += d;\<close>\<close>

definition acc_add :: "u64 \<Rightarrow> acc \<Rightarrow> acc" where
  "acc_add d a = \<lparr>ac_n = ac_n a + 1, ac_sum = ac_sum a + d\<rparr>"

subsection \<open>Publishing\<close>

text \<open>A call to the publisher; its thread has run since the last one.\<close>

definition publish_call :: "'g profile_env \<Rightarrow> (publisher \<Rightarrow> bool \<times> publisher) \<Rightarrow> 'g profiler \<Rightarrow> 'g profiler" where
  "publish_call E f s =
     s\<lparr>pf_pub := map_option (\<lambda>p. snd (f (pe_thread E (pf_ticks s) p))) (pf_pub s), pf_ticks := pf_ticks s + 1\<rparr>"

text \<open>A block \<open>if (pub) { ... }\<close>: the calls are given the clock's reading at its start.\<close>

definition publish_block :: "'g profile_env \<Rightarrow> (u64 \<Rightarrow> 'g profiler \<Rightarrow> 'g profiler) \<Rightarrow> 'g profiler \<Rightarrow> 'g profiler" where
  "publish_block E calls s =
     (case pf_pub s of
        None \<Rightarrow> s
      | Some _ \<Rightarrow>
          (let (p0, s1) = ns_now E s; s2 = calls p0 s1; (p1, s3) = ns_now E s2
           in s3\<lparr>pf_enq := acc_add (p1 - p0) (pf_enq s3)\<rparr>))"

subsection \<open>The three events\<close>

definition profile_limit :: "'g profile_env \<Rightarrow> sim_config \<Rightarrow> 'g profiler \<Rightarrow> 'g profiler" where
  "profile_limit E cfg s =
     (let span = max 1 (tick_span cfg);
          (u1, s1) = pf_u01 E s;
          (u2, s2) = pf_u01 E s1;
          mag = 1 + \<lfloor>u1 * u2 * of_int span\<rfloor>;
          (u3, s3) = pf_u01 E s2;
          buy = u3 < 1 / 2; sd = (if buy then Buy else Sell);
          px = (if buy then mid cfg - of_int mag else mid cfg + of_int mag);
          (t0, s4) = ns_now E s3;
          (oid, e) = submit_limit sd px (default_qty cfg) 0 (pf_engine s4);
          (t1, s5) = ns_now E (s4\<lparr>pf_engine := e\<rparr>);
          s6 = s5\<lparr>pf_limit := acc_add (t1 - t0) (pf_limit s5)\<rparr>
      in if oid = 0 then s6
         else publish_block E
           (\<lambda>p0. publish_call E (try_publish_add (of_nat oid) sd px (default_qty cfg) p0))
           (s6\<lparr>pf_live := pf_live s6 @ [oid]\<rparr>))"

text \<open>\<open>fuel\<close> is that of \<open>submit_market\<close>.\<close>

definition profile_market :: "nat \<Rightarrow> 'g profile_env \<Rightarrow> 'g profiler \<Rightarrow> 'g profiler option" where
  "profile_market fuel E s =
     (let (u, s1) = pf_u01 E s; sd = (if u < 1 / 2 then Buy else Sell);
          (r, s2) = pf_next E s1; q = 1 + r mod 4;
          (t0, s3) = ns_now E s2
      in case submit_market fuel fifo_match sd q (pf_engine s3) of
           None \<Rightarrow> None
         | Some (fills, e) \<Rightarrow>
             (let (t1, s4) = ns_now E (s3\<lparr>pf_engine := e\<rparr>);
                  s5 = s4\<lparr>pf_mkt := acc_add (t1 - t0) (pf_mkt s4)\<rparr>
              in Some (publish_block E
                   (\<lambda>p0 s. publish_call E (try_publish_snapshot (book (pf_engine s)) p0)
                      (fold (\<lambda>f. publish_call E (try_publish_execute (of_nat (resting_order_id f))
                           (fill_price f) (fill_qty f) p0)) fills s))
                   s5)))"

text \<open>
  With no live order a cancel adds one, and its time counts from the start of the event; that order
  is not published.
\<close>

definition profile_cancel :: "'g profile_env \<Rightarrow> sim_config \<Rightarrow> u64 \<Rightarrow> 'g profiler \<Rightarrow> 'g profiler" where
  "profile_cancel E cfg t_all0 s =
     (if pf_live s = [] then
        (let (oid, e) = submit_limit Buy (mid cfg - 1) 1 0 (pf_engine s);
             (t1, s1) = ns_now E (s\<lparr>pf_engine := e\<rparr>);
             s2 = s1\<lparr>pf_limit := acc_add (t1 - t_all0) (pf_limit s1)\<rparr>
         in if oid = 0 then s2 else s2\<lparr>pf_live := pf_live s2 @ [oid]\<rparr>)
      else
        (let (r, s1) = pf_next E s; idx = unat r mod length (pf_live s1); oid = pf_live s1 ! idx;
             s2 = s1\<lparr>pf_live := butlast ((pf_live s1)[idx := last (pf_live s1)])\<rparr>;
             (t0, s3) = ns_now E s2;
             (ok, b) = cancel_order oid (book (pf_engine s3));
             (t1, s4) = ns_now E (s3\<lparr>pf_engine := (pf_engine s3)\<lparr>book := b\<rparr>\<rparr>);
             s5 = s4\<lparr>pf_cxl := acc_add (t1 - t0) (pf_cxl s4)\<rparr>
         in if ok then publish_block E (\<lambda>p0. publish_call E (try_publish_cancel (of_nat oid) p0)) s5
            else s5))"

subsection \<open>The run\<close>

definition profile_event :: "nat \<Rightarrow> 'g profile_env \<Rightarrow> sim_config \<Rightarrow> 'g profiler \<Rightarrow> 'g profiler option" where
  "profile_event fuel E cfg s =
     (let z = lambda_limit cfg + lambda_market cfg + lambda_cancel cfg;
          (t_all0, s1) = ns_now E s;
          (v, s2) = pf_u01 E s1; u = v * z
      in map_option (\<lambda>s3. let (t1, s4) = ns_now E s3 in s4\<lparr>pf_all := acc_add (t1 - t_all0) (pf_all s4)\<rparr>)
           (if u < lambda_limit cfg then Some (profile_limit E cfg s2)
            else if u < lambda_limit cfg + lambda_market cfg then profile_market fuel E s2
            else Some (profile_cancel E cfg t_all0 s2)))"

primrec profile_events :: "nat \<Rightarrow> nat \<Rightarrow> 'g profile_env \<Rightarrow> sim_config \<Rightarrow> 'g profiler \<Rightarrow> 'g profiler option" where
  "profile_events 0 fuel E cfg s = Some s"
| "profile_events (Suc n) fuel E cfg s = profile_event fuel E cfg s \<bind> profile_events n fuel E cfg"

text \<open>
  A run ends with the profiler, exits because the publisher did not start, or divides by zero in the
  warm-up; \<open>None\<close> does not return. The publisher is stopped at the end of the run, and its destructor
  finds it stopped.
\<close>

datatype 'g run_end = Run_Done "'g profiler" trace | Run_Exit trace | Run_Fault

definition run_pipeline ::
    "nat \<Rightarrow> 'g profile_env \<Rightarrow> os \<Rightarrow> 'g \<Rightarrow> 'g \<Rightarrow> nat \<Rightarrow> bool \<Rightarrow> trace \<Rightarrow> 'g run_end option" where
  "run_pipeline fuel E os g42 g7 events with_md tr =
     (let b = new_book (2 ^ 16) Pool; cfg = profile_config;
          (ok, p, tr1) = (if with_md then pub_start os profile_pub_config (new_publisher k_queue) tr
                          else (True, new_publisher k_queue, tr))
      in if \<not> ok then Some (Run_Exit tr1)
         else
           (case sim_steps 20000 (pe_random E) (new_sim g42 cfg b) of
              None \<Rightarrow> None
            | Some (Inl _) \<Rightarrow> Some Run_Fault
            | Some (Inr (_, s)) \<Rightarrow>
                map_option
                  (\<lambda>s1. case pf_pub s1 of
                     None \<Rightarrow> Run_Done s1 tr1
                   | Some p1 \<Rightarrow> (let (p2, tr2) = pub_stop p1 tr1 in Run_Done (s1\<lparr>pf_pub := Some p2\<rparr>) tr2))
                  (profile_events events fuel E cfg
                     (new_profiler g7 (if with_md then Some p else None) (sm_book s)))))"

subsection \<open>The arguments of \<open>main\<close>\<close>

text \<open>\<open>strtoull\<close> of what follows: no digits is zero, too much saturates, a minus sign negates modulo \<open>2 ^ 64\<close>.\<close>

definition scan_ull :: "string \<Rightarrow> u64" where
  "scan_ull s =
     (case scan_int s of
        None \<Rightarrow> 0
      | Some (v, _) \<Rightarrow> if 2 ^ 64 \<le> \<bar>v\<bar> then - 1 else of_int v)"

record profile_args =
  pa_events :: u64
  pa_md :: bool
  pa_hold :: bool

definition profile_arg :: "string \<Rightarrow> profile_args \<Rightarrow> profile_args" where
  "profile_arg arg a =
     (if take 9 arg = ''--events='' then a\<lparr>pa_events := scan_ull (drop 9 arg)\<rparr>
      else if arg = ''--no-md'' then a\<lparr>pa_md := False\<rparr>
      else if arg = ''--hold'' then a\<lparr>pa_hold := True\<rparr>
      else a)"

definition parse_profile_args :: "string list \<Rightarrow> profile_args" where
  "parse_profile_args argv = fold profile_arg argv \<lparr>pa_events = 400000, pa_md = True, pa_hold = False\<rparr>"

end
