(* ===== verification/Profile_Stream.thy ===== *)
theory Profile_Stream
  imports Profile_Run Pipeline
begin

section \<open>What the pipeline run publishes\<close>

text \<open>
  The stream of events a sequence of commands should give, as a function of the abstract exchange, and
  the steps of the profiler that offer events to the publisher and change nothing else.
\<close>

subsection \<open>What a command should publish\<close>

definition untimed :: "event \<Rightarrow> event" where
  "untimed e = e\<lparr>ev_ns := 0\<rparr>"

definition ex_snapshot :: "exchange \<Rightarrow> event" where
  "ex_snapshot x =
     (let q = ex_quote x
      in new_event\<lparr>ev_type := Snapshot,
           ev_snap_flags := (if q_has_bid q then 1 else 0) OR (if q_has_ask q then 2 else 0),
           ev_bid := q_bid q, ev_bid_qty := q_bid_qty q, ev_ask := q_ask q, ev_ask_qty := q_ask_qty q\<rparr>)"

definition cmd_stream :: "ingress_cmd \<Rightarrow> exchange \<Rightarrow> event list" where
  "cmd_stream c x =
     (case ic_type c of
        LimitCmd \<Rightarrow>
          (if ex_count x = ex_cap x then []
           else [add_event (of_nat (ex_next x)) (ic_side c) (ic_price c) (ic_qty c) 0])
      | MarketCmd \<Rightarrow>
          map (\<lambda>(i, p, n). execute_event (of_nat i) p (of_nat n) 0)
            (fst (sp_match (unat (ic_qty c)) (ex_view x (opposite (ic_side c))))) @ [ex_snapshot (ex_apply c x)]
      | CancelCmd \<Rightarrow>
          (if ic_cancel_id c \<in> ex_ids x then [cancel_event (of_nat (ic_cancel_id c)) 0] else []))"

text \<open>A command and whether it is published.\<close>

fun stream_of :: "(bool \<times> ingress_cmd) list \<Rightarrow> exchange \<Rightarrow> event list" where
  "stream_of [] x = []"
| "stream_of ((shown, c) # cs) x = (if shown then cmd_stream c x else []) @ stream_of cs (ex_apply c x)"

text \<open>Events offered to the publisher, each when its thread has answered a call.\<close>

definition offer :: "'g profile_env \<Rightarrow> (nat \<times> event) list \<Rightarrow> publisher \<Rightarrow> publisher" where
  "offer E tes p = fold (\<lambda>(n, e) p. snd (enqueue e (pe_thread E n p))) tes p"

lemma offer_simps: "offer E [] p = p" "offer E (te # tes) p = offer E tes (snd (enqueue (snd te) (pe_thread E (fst te) p)))"
  "offer E (tes @ tes') p = offer E tes' (offer E tes p)"
  by (simp_all add: offer_def split_beta)

lemma untimed_events [simp]:
  "untimed (add_event i s px q ns) = add_event i s px q 0" "untimed (cancel_event i ns) = cancel_event i 0"
  "untimed (execute_event i px q ns) = execute_event i px q 0"
  by (simp_all add: untimed_def add_event_def cancel_event_def execute_event_def)

lemma untimed_snapshot:
  assumes "plain_book b"
  shows "untimed (snapshot_event b ns) = ex_snapshot (abs_book b)"
  unfolding ex_snapshot_def book_quote_ok [OF assms, symmetric]
  by (cases "best_bid b"; cases "best_ask b")
    (simp_all add: untimed_def snapshot_event_def book_quote_def Let_def new_event_def empty_quote_def)

subsection \<open>Publishing\<close>

text \<open>A change of the profiler that offers events and advances the clock, and nothing else but the time spent.\<close>

definition offered :: "'g profile_env \<Rightarrow> event list \<Rightarrow> 'g profiler \<Rightarrow> 'g profiler \<Rightarrow> bool" where
  "offered E es s s' \<longleftrightarrow> (\<exists>tes k a. map (untimed \<circ> snd) tes = es \<and>
     s' = s\<lparr>pf_pub := map_option (offer E tes) (pf_pub s), pf_ticks := k, pf_enq := a\<rparr>)"

lemma offered_refl: "offered E [] s s"
proof -
  have "map_option (offer E []) (pf_pub s) = pf_pub s" by (cases "pf_pub s") (simp_all add: offer_simps)
  then show ?thesis unfolding offered_def
    by (intro exI [of _ "[]"] exI [of _ "pf_ticks s"] exI [of _ "pf_enq s"]) simp
qed

lemma offered_trans: "offered E es s s1 \<Longrightarrow> offered E fs s1 s2 \<Longrightarrow> offered E (es @ fs) s s2"
proof -
  assume "offered E es s s1" "offered E fs s1 s2"
  then obtain t k a t' k' a' where one: "map (untimed \<circ> snd) t = es" "map (untimed \<circ> snd) t' = fs"
    "s1 = s\<lparr>pf_pub := map_option (offer E t) (pf_pub s), pf_ticks := k, pf_enq := a\<rparr>"
    "s2 = s1\<lparr>pf_pub := map_option (offer E t') (pf_pub s1), pf_ticks := k', pf_enq := a'\<rparr>"
    unfolding offered_def by blast
  have "map_option (offer E t') (map_option (offer E t) (pf_pub s)) = map_option (offer E (t @ t')) (pf_pub s)"
    by (cases "pf_pub s") (simp_all add: offer_simps)
  then show ?thesis unfolding offered_def
    by (intro exI [of _ "t @ t'"] exI [of _ k'] exI [of _ a']) (simp add: one)
qed

lemma offered_call:
  assumes "\<And>p. f p = enqueue e p"
  shows "offered E [untimed e] s (publish_call E f s)"
proof -
  have "map_option (\<lambda>p. snd (f (pe_thread E (pf_ticks s) p))) (pf_pub s) =
      map_option (offer E [(pf_ticks s, e)]) (pf_pub s)"
    by (cases "pf_pub s") (simp_all add: offer_simps assms)
  then show ?thesis unfolding offered_def publish_call_def
    by (intro exI [of _ "[(pf_ticks s, e)]"] exI [of _ "pf_ticks s + 1"] exI [of _ "pf_enq s"]) simp
qed

lemma offered_fold:
  assumes "\<And>x p. f x p = enqueue (g x) p"
  shows "offered E (map (untimed \<circ> g) xs) s (fold (\<lambda>x. publish_call E (f x)) xs s)"
proof (induction xs arbitrary: s)
  case (Cons x xs)
  have "offered E [untimed (g x)] s (publish_call E (f x) s)" by (rule offered_call) (rule assms)
  from offered_trans [OF this Cons.IH] show ?case by simp
qed (simp add: offered_refl)

lemma offered_clock: "offered E [] s (snd (ns_now E s))" "offered E [] s (s\<lparr>pf_enq := a\<rparr>)"
proof -
  have pub: "map_option (offer E []) (pf_pub s) = pf_pub s" by (cases "pf_pub s") (simp_all add: offer_simps)
  show "offered E [] s (snd (ns_now E s))" unfolding offered_def ns_now_def
    by (intro exI [of _ "[]"] exI [of _ "pf_ticks s + 1"] exI [of _ "pf_enq s"]) (simp add: pub)
  show "offered E [] s (s\<lparr>pf_enq := a\<rparr>)" unfolding offered_def
    by (intro exI [of _ "[]"] exI [of _ "pf_ticks s"] exI [of _ a]) (simp add: pub)
qed

lemma offered_frame:
  assumes "offered E es s s'"
  shows "pf_engine s' = pf_engine s" "pf_live s' = pf_live s" "pf_limit s' = pf_limit s" "pf_mkt s' = pf_mkt s"
    "pf_cxl s' = pf_cxl s" "pf_all s' = pf_all s"
  using assms by (auto simp: offered_def)

text \<open>The block does its calls if there is a publisher; without one there is nothing to be offered to.\<close>

lemma offered_block:
  assumes "\<And>p0 s1. pf_engine s1 = pf_engine s \<Longrightarrow> offered E es s1 (calls p0 s1)"
  shows "offered E es s (publish_block E calls s)"
proof (cases "pf_pub s")
  case None
  obtain tes :: "(nat \<times> event) list" where "map (untimed \<circ> snd) tes = es"
    using assms [of s 0, OF refl] unfolding offered_def by blast
  then show ?thesis unfolding offered_def publish_block_def using None
    by (intro exI [of _ tes] exI [of _ "pf_ticks s"] exI [of _ "pf_enq s"]) simp
next
  case (Some p)
  define s1 where "s1 = snd (ns_now E s)"
  define s2 where "s2 = calls (fst (ns_now E s)) s1"
  define s3 where "s3 = snd (ns_now E s2)"
  have run: "publish_block E calls s = s3\<lparr>pf_enq := acc_add (fst (ns_now E s2) - fst (ns_now E s)) (pf_enq s3)\<rparr>"
    using Some by (simp add: publish_block_def s1_def s2_def s3_def split_beta Let_def)
  have "offered E [] s s1" unfolding s1_def by (rule offered_clock)
  moreover have "offered E es s1 s2" unfolding s2_def
    by (rule assms) (use offered_frame [OF calculation] in simp)
  moreover have "offered E [] s2 s3" unfolding s3_def by (rule offered_clock)
  moreover have "offered E [] s3 (publish_block E calls s)" unfolding run by (rule offered_clock)
  ultimately have "offered E ([] @ es @ [] @ []) s (publish_block E calls s)" by (blast intro: offered_trans)
  then show ?thesis by simp
qed

end
