(* ===== verification/Profile_Properties.thy ===== *)
theory Profile_Properties
  imports Profile_Stream
begin

section \<open>The pipeline run of the profiler\<close>

text \<open>
  Each event of the run is a command to the abstract exchange, and what it offers the publisher is the
  stream of that command; the run is the events one after the other.
\<close>

subsection \<open>One event\<close>

definition pf_book :: "'g profiler \<Rightarrow> order_book" where
  "pf_book s = book (pf_engine s)"

definition pf_done :: "'g profiler \<Rightarrow> u64" where
  "pf_done s = ac_n (pf_limit s) + ac_n (pf_mkt s) + ac_n (pf_cxl s)"

definition profiler_inv :: "'g profiler \<Rightarrow> bool" where
  "profiler_inv s \<longleftrightarrow> engine_plain (pf_engine s) \<and> distinct (pf_live s) \<and>
     (\<forall>i \<in> set (pf_live s). i < next_order_id (pf_book s))"

text \<open>The commands of a run: those of the simulator, published; and one bid, that is not.\<close>

definition profile_cmd :: "sim_config \<Rightarrow> bool \<times> ingress_cmd \<Rightarrow> bool" where
  "profile_cmd cfg = (\<lambda>(shown, c).
     if shown then sim_cmd cfg c
     else ic_type c = LimitCmd \<and> ic_side c = Buy \<and> ic_price c = mid cfg - 1 \<and> ic_qty c = 1)"

definition event_done :: "'g profile_env \<Rightarrow> sim_config \<Rightarrow> 'g profiler \<Rightarrow> 'g profiler \<Rightarrow> bool" where
  "event_done E cfg s s' \<longleftrightarrow>
     profiler_inv s' \<and> pf_done s' = pf_done s + 1 \<and> pf_all s' = pf_all s \<and>
     (\<exists>shown c tes. profile_cmd cfg (shown, c) \<and> abs_book (pf_book s') = ex_apply c (abs_book (pf_book s)) \<and>
        book_liq (pf_book s') \<le> book_liq (pf_book s) + cmd_qty c \<and>
        map (untimed \<circ> snd) tes = (if shown then cmd_stream c (abs_book (pf_book s)) else []) \<and>
        pf_pub s' = map_option (offer E tes) (pf_pub s))"

lemma event_doneI:
  assumes "pf_pub m = pf_pub s" and "pf_all m = pf_all s" and "pf_done m = pf_done s + 1" and "profiler_inv m"
    and "profile_cmd cfg (shown, c)" and "abs_book (pf_book m) = ex_apply c (abs_book (pf_book s))"
    and "book_liq (pf_book m) \<le> book_liq (pf_book s) + cmd_qty c"
    and "offered E (if shown then cmd_stream c (abs_book (pf_book s)) else []) m s'"
  shows "event_done E cfg s s'"
proof -
  note frame = offered_frame [OF assms(8)]
  from assms(8) obtain tes :: "(nat \<times> event) list" where
    "map (untimed \<circ> snd) tes = (if shown then cmd_stream c (abs_book (pf_book s)) else [])"
    "pf_pub s' = map_option (offer E tes) (pf_pub m)" unfolding offered_def by auto
  moreover have "pf_book s' = pf_book m" by (simp add: pf_book_def frame)
  moreover have "profiler_inv s'" using assms(4) by (simp add: profiler_inv_def pf_book_def frame)
  moreover have "pf_done s' = pf_done s + 1" using assms(3) by (simp add: pf_done_def frame)
  ultimately show ?thesis
    unfolding event_done_def using assms(1,2,5,6,7) frame(6) by metis
qed

text \<open>Adding an order, as both kinds of limit orders do.\<close>

lemma add_order_plain:
  assumes "profiler_inv s" and "book_liq (pf_book s) + unat q < 2 ^ 63"
    and add: "add_limit_order sd px q (pf_book s) = (oid, b)"
    and m: "pf_engine m = (pf_engine s)\<lparr>book := b\<rparr>" "pf_live m = (if oid = 0 then pf_live s else pf_live s @ [oid])"
    and c: "ic_type c = LimitCmd" "ic_side c = sd" "ic_price c = px" "ic_qty c = q"
  shows "profiler_inv m" and "abs_book (pf_book m) = ex_apply c (abs_book (pf_book s))"
    and "book_liq (pf_book m) \<le> book_liq (pf_book s) + cmd_qty c"
    and "cmd_stream c (abs_book (pf_book s)) = (if oid = 0 then [] else [add_event (of_nat oid) sd px q 0])"
proof -
  have plain: "plain_book (pf_book s)" using assms(1) by (simp add: profiler_inv_def engine_plain_def pf_book_def)
  have room: "book_liq (pf_book s) + cmd_qty c < 2 ^ 63" using assms(2) by (simp add: cmd_qty_def c)
  from apply_cmd_ok [OF plain room] have new: "plain_book b" "abs_book b = ex_apply c (abs_book (pf_book s))"
    "book_liq b \<le> book_liq (pf_book s) + cmd_qty c" using add by (auto simp: apply_cmd_def c)
  have b: "pf_book m = b" by (simp add: pf_book_def m)
  let ?full = "ex_count (abs_book (pf_book s)) = ex_cap (abs_book (pf_book s))"
  have oid: "oid = (if ?full then 0 else next_order_id (pf_book s))"
    using add_limit_id [OF plain, of sd px q] add by simp
  have next_id: "next_order_id b = next_order_id (pf_book s) + (if ?full then 0 else 1)"
    using next_id_apply [OF new(2)] by (simp add: c)
  show "abs_book (pf_book m) = ex_apply c (abs_book (pf_book s))"
    "book_liq (pf_book m) \<le> book_liq (pf_book s) + cmd_qty c" using new(2,3) by (simp_all add: b)
  have "ex_next (abs_book (pf_book s)) = next_order_id (pf_book s)" by (simp add: abs_book_def)
  then show "cmd_stream c (abs_book (pf_book s)) = (if oid = 0 then [] else [add_event (of_nat oid) sd px q 0])"
    using next_id_pos [OF plain] by (simp add: cmd_stream_def c oid)
  have "engine_plain (pf_engine m)" using assms(1) new(1) by (simp add: m profiler_inv_def engine_plain_def)
  moreover have "distinct (pf_live m) \<and> (\<forall>i \<in> set (pf_live m). i < next_order_id b)"
    using assms(1) next_id_pos [OF plain] unfolding m(2) oid next_id profiler_inv_def by (auto simp: less_SucI)
  ultimately show "profiler_inv m" by (simp add: profiler_inv_def b)
qed

lemma profile_limit_done:
  assumes inv: "profiler_inv s" and room: "book_liq (pf_book s) + unat (default_qty cfg) < 2 ^ 63"
    and range: "u01_range (pe_random E)"
  shows "event_done E cfg s (profile_limit E cfg s)"
proof -
  let ?R = "pe_random E" and ?q = "default_qty cfg"
  obtain u1 g1 where d1: "rn_u01 ?R (pf_rng s) = (u1, g1)" by (cases "rn_u01 ?R (pf_rng s)")
  obtain u2 g2 where d2: "rn_u01 ?R g1 = (u2, g2)" by (cases "rn_u01 ?R g1")
  obtain u3 g3 where d3: "rn_u01 ?R g2 = (u3, g3)" by (cases "rn_u01 ?R g2")
  define k where "k = 1 + \<lfloor>u1 * u2 * of_int (max 1 (tick_span cfg))\<rfloor>"
  define sd where "sd = (if u3 < 1 / 2 then Buy else Sell)"
  define px where "px = (if u3 < 1 / 2 then mid cfg - of_int k else mid cfg + of_int k)"
  define c where "c = new_cmd\<lparr>ic_side := sd, ic_price := px, ic_qty := ?q\<rparr>"
  have c: "ic_type c = LimitCmd" "ic_side c = sd" "ic_price c = px" "ic_qty c = ?q" by (simp_all add: c_def new_cmd_def)
  have unit: "0 \<le> u1" "u1 < 1" "0 \<le> u2" "u2 < 1"
    using range [unfolded u01_range_def, rule_format, of "pf_rng s"]
      range [unfolded u01_range_def, rule_format, of g1] d1 d2 by simp_all
  have cmd: "profile_cmd cfg (True, c)"
    unfolding profile_cmd_def sim_cmd_def c prod.case using tick_distance [OF unit, of "max 1 (tick_span cfg)"]
    by (auto simp: sd_def px_def k_def c intro!: exI [of _ k])
  obtain oid b where add: "add_limit_order sd px ?q (pf_book s) = (oid, b)"
    by (cases "add_limit_order sd px ?q (pf_book s)")
  define m where "m = s\<lparr>pf_rng := g3, pf_engine := (pf_engine s)\<lparr>book := b\<rparr>, pf_ticks := pf_ticks s + 1 + 1,
    pf_limit := acc_add (pe_clock E (pf_ticks s + 1) - pe_clock E (pf_ticks s)) (pf_limit s),
    pf_live := (if oid = 0 then pf_live s else pf_live s @ [oid])\<rparr>"
  have run: "profile_limit E cfg s = (if oid = 0 then m
      else publish_block E (\<lambda>p0. publish_call E (try_publish_add (of_nat oid) sd px ?q p0)) m)"
    using add [unfolded pf_book_def] unfolding m_def sd_def px_def k_def
    by (cases "u3 < 1 / 2"; cases "oid = 0")
      (simp_all add: profile_limit_def pf_u01_def d1 d2 d3 ns_now_def submit_limit_plain Let_def)
  have same: "pf_engine m = (pf_engine s)\<lparr>book := b\<rparr>" "pf_live m = (if oid = 0 then pf_live s else pf_live s @ [oid])"
    "pf_pub m = pf_pub s" "pf_all m = pf_all s" "pf_done m = pf_done s + 1"
    by (simp_all add: m_def pf_done_def acc_add_def)
  note new = add_order_plain [OF inv room add same(1,2) c]
  have "offered E (if True then cmd_stream c (abs_book (pf_book s)) else []) m (profile_limit E cfg s)"
  proof (cases "oid = 0")
    case True
    then show ?thesis by (simp add: run new(4) offered_refl)
  next
    case False
    have "offered E [untimed (add_event (of_nat oid) sd px ?q p0)] s1
        (publish_call E (try_publish_add (of_nat oid) sd px ?q p0) s1)" for p0 s1
      by (rule offered_call) (simp add: try_publish_add_def)
    then have "offered E [add_event (of_nat oid) sd px ?q 0] m
        (publish_block E (\<lambda>p0. publish_call E (try_publish_add (of_nat oid) sd px ?q p0)) m)"
      by (intro offered_block) simp
    then show ?thesis using False by (simp add: run new(4))
  qed
  from event_doneI [OF same(3-5) new(1) cmd new(2,3) this] show ?thesis .
qed

lemma profile_market_done:
  assumes inv: "profiler_inv s" and "0 < fuel"
  shows "\<exists>s'. profile_market fuel E s = Some s' \<and> event_done E cfg s s'"
proof -
  let ?R = "pe_random E" and ?b = "pf_book s"
  obtain u g1 where d1: "rn_u01 ?R (pf_rng s) = (u, g1)" by (cases "rn_u01 ?R (pf_rng s)")
  obtain r g2 where d2: "rn_next ?R g1 = (r, g2)" by (cases "rn_next ?R g1")
  define sd where "sd = (if u < 1 / 2 then Buy else Sell)"
  define c where "c = new_cmd\<lparr>ic_type := MarketCmd, ic_side := sd, ic_qty := 1 + r mod 4\<rparr>"
  have c: "ic_type c = MarketCmd" "ic_side c = sd" "ic_qty c = 1 + r mod 4" by (simp_all add: c_def new_cmd_def)
  have "unat (r mod 4) < 4" by (simp add: unat_mod)
  then have "unat (1 + r mod 4) = 1 + unat (r mod 4)" by (subst unat_add_lem [THEN iffD1]) simp_all
  with \<open>unat (r mod 4) < 4\<close> have cmd: "profile_cmd cfg (True, c)"
    by (simp add: profile_cmd_def sim_cmd_def c word_le_nat_alt)
  have eng: "engine_plain (pf_engine s)" and plain: "plain_book ?b"
    using inv by (simp_all add: profiler_inv_def engine_plain_def pf_book_def)
  from apply_market_ok [OF plain, of sd "1 + r mod 4"] obtain fs b where
    b: "market_order sd (1 + r mod 4) ?b = Some (fs, b)" "plain_book b" "book_liq b \<le> book_liq ?b"
      "map abs_fill fs = fst (sp_match (unat (1 + r mod 4)) (book_view ?b (opposite sd)))"
      "abs_book b = ex_apply c (abs_book ?b)"
    by (auto simp: ex_apply_def c abs_book_def Let_def)
  define m where "m = s\<lparr>pf_rng := g2, pf_engine := (pf_engine s)\<lparr>book := b\<rparr>, pf_ticks := pf_ticks s + 1 + 1,
    pf_mkt := acc_add (pe_clock E (pf_ticks s + 1) - pe_clock E (pf_ticks s)) (pf_mkt s)\<rparr>"
  let ?calls = "\<lambda>p0 s. publish_call E (try_publish_snapshot (book (pf_engine s)) p0)
     (fold (\<lambda>f. publish_call E (try_publish_execute (of_nat (resting_order_id f)) (fill_price f) (fill_qty f) p0)) fs s)"
  have sub: "submit_market fuel fifo_match sd (1 + r mod 4) (pf_engine s) = Some (fs, (pf_engine s)\<lparr>book := b\<rparr>)"
    by (rule submit_market_plain [OF eng assms(2) _ b(2)]) (use b(1) in \<open>simp add: pf_book_def\<close>)
  have run: "profile_market fuel E s = Some (publish_block E ?calls m)"
    using sub unfolding sd_def m_def
    by (simp add: profile_market_def pf_u01_def pf_next_def d1 d2 ns_now_def Let_def)
  have same: "pf_pub m = pf_pub s" "pf_all m = pf_all s" "pf_done m = pf_done s + 1" "pf_book m = b"
    "pf_engine m = (pf_engine s)\<lparr>book := b\<rparr>" "pf_live m = pf_live s"
    by (simp_all add: m_def pf_done_def acc_add_def pf_book_def)
  have next_id: "next_order_id b = next_order_id ?b" using next_id_apply [OF b(5)] by (simp add: c)
  have inv': "profiler_inv m"
    using inv b(2) next_id by (simp add: profiler_inv_def engine_plain_def same)
  have stream: "cmd_stream c (abs_book ?b) =
      map (untimed \<circ> (\<lambda>f. execute_event (of_nat (resting_order_id f)) (fill_price f) (fill_qty f) 0)) fs @
      [ex_snapshot (abs_book b)]"
  proof -
    have "cmd_stream c (abs_book ?b) = map (\<lambda>(i, p, n). execute_event (of_nat i) p (of_nat n) 0) (map abs_fill fs) @
        [ex_snapshot (abs_book b)]"
      unfolding b(4,5) by (simp add: cmd_stream_def c) (simp add: abs_book_def)
    then show ?thesis by (simp add: comp_def abs_fill_def)
  qed
  have "offered E (cmd_stream c (abs_book ?b)) s1 (?calls p0 s1)" if e: "pf_engine s1 = pf_engine m" for p0 s1
  proof -
    let ?f = "\<lambda>f. execute_event (of_nat (resting_order_id f)) (fill_price f) (fill_qty f) p0"
    define s2 where "s2 = fold (\<lambda>f. publish_call E
      (try_publish_execute (of_nat (resting_order_id f)) (fill_price f) (fill_qty f) p0)) fs s1"
    have one: "offered E (map (untimed \<circ> ?f) fs) s1 s2"
      unfolding s2_def by (rule offered_fold) (simp add: try_publish_execute_def)
    have "offered E [untimed (snapshot_event (book (pf_engine s1)) p0)] s2
        (publish_call E (try_publish_snapshot (book (pf_engine s1)) p0) s2)"
      by (rule offered_call) (simp add: try_publish_snapshot_def)
    moreover have "untimed (snapshot_event (book (pf_engine s1)) p0) = ex_snapshot (abs_book b)"
      using untimed_snapshot [OF b(2)] by (simp add: e same)
    ultimately have "offered E (map (untimed \<circ> ?f) fs @ [ex_snapshot (abs_book b)]) s1
        (publish_call E (try_publish_snapshot (book (pf_engine s1)) p0) s2)"
      using offered_trans [OF one] by simp
    then show ?thesis by (simp add: stream s2_def comp_def)
  qed
  then have "offered E (if True then cmd_stream c (abs_book ?b) else []) m (publish_block E ?calls m)"
    unfolding if_True by (rule offered_block)
  from event_doneI [OF same(1-3) inv' cmd _ _ this] b(3,5) run show ?thesis by (simp add: same)
qed

lemma profile_cancel_done:
  assumes inv: "profiler_inv s" and room: "book_liq (pf_book s) + 1 < 2 ^ 63"
  shows "event_done E cfg s (profile_cancel E cfg t0 s)"
proof (cases "pf_live s = []")
  case True
  define c where "c = new_cmd\<lparr>ic_price := mid cfg - 1\<rparr>"
  have c: "ic_type c = LimitCmd" "ic_side c = Buy" "ic_price c = mid cfg - 1" "ic_qty c = 1"
    by (simp_all add: c_def new_cmd_def)
  then have cmd: "profile_cmd cfg (False, c)" by (simp add: profile_cmd_def)
  obtain oid b where add: "add_limit_order Buy (mid cfg - 1) 1 (pf_book s) = (oid, b)"
    by (cases "add_limit_order Buy (mid cfg - 1) 1 (pf_book s)")
  define m where "m = s\<lparr>pf_engine := (pf_engine s)\<lparr>book := b\<rparr>, pf_ticks := pf_ticks s + 1,
    pf_limit := acc_add (pe_clock E (pf_ticks s) - t0) (pf_limit s),
    pf_live := (if oid = 0 then pf_live s else pf_live s @ [oid])\<rparr>"
  have run: "profile_cancel E cfg t0 s = m"
    using add [unfolded pf_book_def] True unfolding m_def
    by (cases "oid = 0") (simp_all add: profile_cancel_def ns_now_def submit_limit_plain Let_def)
  have same: "pf_engine m = (pf_engine s)\<lparr>book := b\<rparr>" "pf_live m = (if oid = 0 then pf_live s else pf_live s @ [oid])"
    "pf_pub m = pf_pub s" "pf_all m = pf_all s" "pf_done m = pf_done s + 1"
    by (simp_all add: m_def pf_done_def acc_add_def)
  have "book_liq (pf_book s) + unat (1 :: u64) < 2 ^ 63" using room by simp
  note new = add_order_plain [OF inv this add same(1,2) c]
  have "offered E (if False then cmd_stream c (abs_book (pf_book s)) else []) m (profile_cancel E cfg t0 s)"
    by (simp add: run offered_refl)
  from event_doneI [OF same(3-5) new(1) cmd new(2,3) this] show ?thesis .
next
  case False
  let ?live = "pf_live s" and ?b = "pf_book s"
  obtain r g where d: "rn_next (pe_random E) (pf_rng s) = (r, g)" by (cases "rn_next (pe_random E) (pf_rng s)")
  define i where "i = unat r mod length ?live"
  have i: "i < length ?live" using False by (simp add: i_def)
  define c where "c = new_cmd\<lparr>ic_type := CancelCmd, ic_cancel_id := ?live ! i\<rparr>"
  have c: "ic_type c = CancelCmd" "ic_cancel_id c = ?live ! i" by (simp_all add: c_def new_cmd_def)
  then have cmd: "profile_cmd cfg (True, c)" by (simp add: profile_cmd_def sim_cmd_def)
  obtain ok b where cn: "cancel_order (?live ! i) ?b = (ok, b)" by (cases "cancel_order (?live ! i) ?b")
  define m where "m = s\<lparr>pf_rng := g, pf_live := butlast (?live[i := last ?live]),
    pf_engine := (pf_engine s)\<lparr>book := b\<rparr>, pf_ticks := pf_ticks s + 1 + 1,
    pf_cxl := acc_add (pe_clock E (pf_ticks s + 1) - pe_clock E (pf_ticks s)) (pf_cxl s)\<rparr>"
  have run: "profile_cancel E cfg t0 s =
      (if ok then publish_block E (\<lambda>p0. publish_call E (try_publish_cancel (of_nat (?live ! i)) p0)) m else m)"
    using cn [unfolded pf_book_def] False unfolding m_def i_def
    by (cases ok) (simp_all add: profile_cancel_def pf_next_def d ns_now_def Let_def)
  have same: "pf_pub m = pf_pub s" "pf_all m = pf_all s" "pf_done m = pf_done s + 1" "pf_book m = b"
    "pf_engine m = (pf_engine s)\<lparr>book := b\<rparr>" "pf_live m = butlast (?live[i := last ?live])"
    by (simp_all add: m_def pf_done_def acc_add_def pf_book_def)
  have plain: "plain_book ?b" using inv by (simp add: profiler_inv_def engine_plain_def pf_book_def)
  have new: "plain_book b" "book_liq b \<le> book_liq ?b + cmd_qty c" "abs_book b = ex_apply c (abs_book ?b)"
    using apply_cancel_ok [OF plain, of "?live ! i"] cn
    by (simp_all add: ex_apply_def c cmd_qty_def Let_def) (simp add: abs_book_def)
  have next_id: "next_order_id b = next_order_id ?b" using next_id_apply [OF new(3)] by (simp add: c)
  have "distinct ?live" using inv by (simp add: profiler_inv_def)
  note live = distinct_swap_remove [OF this i]
  have inv': "profiler_inv m"
    using inv new(1) next_id live by (auto simp: profiler_inv_def engine_plain_def same)
  have found: "ok \<longleftrightarrow> ?live ! i \<in> ex_ids (abs_book ?b)"
    using cancel_found [of "?live ! i" ?b] found_ids [OF plain] cn by simp
  have "offered E (if True then cmd_stream c (abs_book ?b) else []) m (profile_cancel E cfg t0 s)"
  proof (cases ok)
    case True
    have "offered E [untimed (cancel_event (of_nat (?live ! i)) p0)] s1
        (publish_call E (try_publish_cancel (of_nat (?live ! i)) p0) s1)" for p0 s1
      by (rule offered_call) (simp add: try_publish_cancel_def)
    then have "offered E [cancel_event (of_nat (?live ! i)) 0] m
        (publish_block E (\<lambda>p0. publish_call E (try_publish_cancel (of_nat (?live ! i)) p0)) m)"
      by (intro offered_block) simp
    then show ?thesis using True found by (simp add: run cmd_stream_def c)
  next
    case False
    then show ?thesis using found by (simp add: run cmd_stream_def c offered_refl)
  qed
  from event_doneI [OF same(1-3) inv' cmd _ _ this] new(2,3) show ?thesis by (simp add: same)
qed

subsection \<open>The run\<close>

definition order_unit :: "sim_config \<Rightarrow> nat" where
  "order_unit cfg = max 1 (unat (default_qty cfg))"

lemma profile_cmd_qty: "profile_cmd cfg (shown, c) \<Longrightarrow> cmd_qty c \<le> order_unit cfg"
  by (cases "ic_type c") (auto simp: profile_cmd_def sim_cmd_def cmd_qty_def order_unit_def split: if_splits)

lemma profile_event_done:
  assumes inv: "profiler_inv s" and room: "book_liq (pf_book s) + order_unit cfg < 2 ^ 63"
    and range: "u01_range (pe_random E)" and fuel: "0 < fuel"
  shows "\<exists>s' shown c tes. profile_event fuel E cfg s = Some s' \<and> profiler_inv s' \<and> pf_done s' = pf_done s + 1 \<and>
    ac_n (pf_all s') = ac_n (pf_all s) + 1 \<and> profile_cmd cfg (shown, c) \<and>
    abs_book (pf_book s') = ex_apply c (abs_book (pf_book s)) \<and>
    book_liq (pf_book s') \<le> book_liq (pf_book s) + order_unit cfg \<and>
    map (untimed \<circ> snd) tes = (if shown then cmd_stream c (abs_book (pf_book s)) else []) \<and>
    pf_pub s' = map_option (offer E tes) (pf_pub s)"
proof -
  obtain v g where d: "rn_u01 (pe_random E) (pf_rng s) = (v, g)" by (cases "rn_u01 (pe_random E) (pf_rng s)")
  let ?z = "lambda_limit cfg + lambda_market cfg + lambda_cancel cfg" and ?t = "pe_clock E (pf_ticks s)"
  define s2 where "s2 = s\<lparr>pf_ticks := pf_ticks s + 1, pf_rng := g\<rparr>"
  have same: "pf_book s2 = pf_book s" "pf_pub s2 = pf_pub s" "pf_done s2 = pf_done s" "pf_all s2 = pf_all s"
    "profiler_inv s2" using inv by (simp_all add: s2_def pf_book_def pf_done_def profiler_inv_def)
  define res where "res = (if v * ?z < lambda_limit cfg then Some (profile_limit E cfg s2)
    else if v * ?z < lambda_limit cfg + lambda_market cfg then profile_market fuel E s2
    else Some (profile_cancel E cfg ?t s2))"
  have "book_liq (pf_book s2) + unat (default_qty cfg) < 2 ^ 63" "book_liq (pf_book s2) + 1 < 2 ^ 63"
    using room unfolding same order_unit_def by linarith+
  note ev = profile_limit_done [OF same(5) this(1) range] profile_market_done [OF same(5) fuel]
    profile_cancel_done [OF same(5) this(2)]
  have "\<exists>s3. res = Some s3 \<and> event_done E cfg s2 s3"
    using ev(1) ev(2) [of E cfg] ev(3) [of E cfg ?t] unfolding res_def by (simp split: if_split)
  then obtain s3 where s3: "res = Some s3" "event_done E cfg s2 s3" by blast
  define s4 where "s4 = s3\<lparr>pf_ticks := pf_ticks s3 + 1,
    pf_all := acc_add (pe_clock E (pf_ticks s3) - ?t) (pf_all s3)\<rparr>"
  have "profile_event fuel E cfg s = map_option (\<lambda>s3. let (t1, s4) = ns_now E s3
      in s4\<lparr>pf_all := acc_add (t1 - ?t) (pf_all s4)\<rparr>) res"
    unfolding res_def s2_def by (simp add: profile_event_def ns_now_def pf_u01_def d Let_def)
  then have run: "profile_event fuel E cfg s = Some s4" by (simp add: s3(1) ns_now_def s4_def)
  have tail: "pf_book s4 = pf_book s3" "pf_pub s4 = pf_pub s3" "pf_done s4 = pf_done s3"
    "ac_n (pf_all s4) = ac_n (pf_all s3) + 1" "profiler_inv s4 \<longleftrightarrow> profiler_inv s3"
    by (simp_all add: s4_def pf_book_def pf_done_def acc_add_def profiler_inv_def)
  from s3(2) obtain shown c tes where c: "profile_cmd cfg (shown, c)"
    "abs_book (pf_book s3) = ex_apply c (abs_book (pf_book s))"
    "book_liq (pf_book s3) \<le> book_liq (pf_book s) + cmd_qty c"
    "map (untimed \<circ> snd) tes = (if shown then cmd_stream c (abs_book (pf_book s)) else [])"
    "pf_pub s3 = map_option (offer E tes) (pf_pub s)" unfolding event_done_def same by blast
  have "profiler_inv s3" "pf_done s3 = pf_done s + 1" "pf_all s3 = pf_all s"
    using s3(2) unfolding event_done_def same by blast+
  then show ?thesis
    using run tail c profile_cmd_qty [OF c(1)]
    by (intro exI [of _ s4] exI [of _ shown] exI [of _ c] exI [of _ tes]) simp
qed

lemma profile_events_done:
  assumes "profiler_inv s" and "book_liq (pf_book s) + n * order_unit cfg < 2 ^ 63"
    and "u01_range (pe_random E)" and "0 < fuel"
  shows "\<exists>s' cs tes. profile_events n fuel E cfg s = Some s' \<and> profiler_inv s' \<and> pf_done s' = pf_done s + of_nat n \<and>
    ac_n (pf_all s') = ac_n (pf_all s) + of_nat n \<and> length cs = n \<and> list_all (profile_cmd cfg) cs \<and>
    abs_book (pf_book s') = fold (ex_apply \<circ> snd) cs (abs_book (pf_book s)) \<and>
    map (untimed \<circ> snd) tes = stream_of cs (abs_book (pf_book s)) \<and>
    pf_pub s' = map_option (offer E tes) (pf_pub s)"
  using assms(1,2)
proof (induction n arbitrary: s)
  case 0
  have "map_option (offer E []) (pf_pub s) = pf_pub s" by (cases "pf_pub s") (simp_all add: offer_simps)
  with 0 show ?case
    by (intro exI [of _ s] exI [of _ "[]"] exI [of _ "[]"]) simp
next
  case (Suc n)
  have "book_liq (pf_book s) + order_unit cfg < 2 ^ 63" using Suc.prems(2) by simp
  from profile_event_done [OF Suc.prems(1) this assms(3,4)] obtain s1 shown c tes where
    one: "profile_event fuel E cfg s = Some s1" "profiler_inv s1" "pf_done s1 = pf_done s + 1"
      "ac_n (pf_all s1) = ac_n (pf_all s) + 1" "profile_cmd cfg (shown, c)"
      "abs_book (pf_book s1) = ex_apply c (abs_book (pf_book s))"
      "book_liq (pf_book s1) \<le> book_liq (pf_book s) + order_unit cfg"
      "map (untimed \<circ> snd) tes = (if shown then cmd_stream c (abs_book (pf_book s)) else [])"
      "pf_pub s1 = map_option (offer E tes) (pf_pub s)" by blast
  have "book_liq (pf_book s1) + n * order_unit cfg < 2 ^ 63" using Suc.prems(2) one(7) by simp
  from Suc.IH [OF one(2) this] obtain s' cs tes' where
    rest: "profile_events n fuel E cfg s1 = Some s'" "profiler_inv s'" "pf_done s' = pf_done s1 + of_nat n"
      "ac_n (pf_all s') = ac_n (pf_all s1) + of_nat n" "length cs = n" "list_all (profile_cmd cfg) cs"
      "abs_book (pf_book s') = fold (ex_apply \<circ> snd) cs (abs_book (pf_book s1))"
      "map (untimed \<circ> snd) tes' = stream_of cs (abs_book (pf_book s1))"
      "pf_pub s' = map_option (offer E tes') (pf_pub s1)" by blast
  have pub: "pf_pub s' = map_option (offer E (tes @ tes')) (pf_pub s)"
    unfolding rest(9) one(9) by (cases "pf_pub s") (simp_all add: offer_simps)
  have stream: "map (untimed \<circ> snd) (tes @ tes') = stream_of ((shown, c) # cs) (abs_book (pf_book s))"
    unfolding map_append rest(8) one(8) one(6) by simp
  show ?case
    by (intro exI [of _ s'] exI [of _ "(shown, c) # cs"] exI [of _ "tes @ tes'"] conjI pub stream)
      (simp_all add: one rest comp_def)
qed

subsection \<open>The whole run\<close>

lemma pub_stop_queue: "pq (fst (pub_stop p tr)) = pq p"
  by (simp add: pub_stop_def pub_close_def Let_def)

text \<open>A run that is over: its commands, from the warmed-up book, and the events it has offered.\<close>

definition profile_result ::
    "'g profile_env \<Rightarrow> nat \<Rightarrow> order_book \<Rightarrow> publisher option \<Rightarrow> 'g profiler \<Rightarrow> bool" where
  "profile_result E n b pub s \<longleftrightarrow>
     (\<exists>cs tes. length cs = n \<and> list_all (profile_cmd profile_config) cs \<and>
        abs_book (pf_book s) = fold (ex_apply \<circ> snd) cs (abs_book b) \<and>
        map (untimed \<circ> snd) tes = stream_of cs (abs_book b) \<and>
        map_option pq (pf_pub s) = map_option (pq \<circ> offer E tes) pub)"

lemma profile_run_ok:
  assumes "u01_range (pe_random E)" and "0 < fuel" and "n < 2 ^ 62"
  shows "\<exists>r. run_pipeline fuel E os g42 g7 n with_md tr = Some r \<and>
    (let start = pub_start os profile_pub_config (new_publisher k_queue) tr;
         warm = sim_steps 20000 (pe_random E) (new_sim g42 profile_config (new_book (2 ^ 16) Pool))
     in case r of
          Run_Exit tr' \<Rightarrow> with_md \<and> os tr Sys_Socket < 0
        | Run_Fault \<Rightarrow> \<not> (with_md \<and> os tr Sys_Socket < 0) \<and> (\<exists>e. warm = Some (Inl e))
        | Run_Done s tr' \<Rightarrow>
            \<not> (with_md \<and> os tr Sys_Socket < 0) \<and>
            (\<exists>ok w. warm = Some (Inr (ok, w)) \<and> profiler_inv s \<and>
               pf_done s = of_nat n \<and> ac_n (pf_all s) = of_nat n \<and>
               profile_result E n (sm_book w) (if with_md then Some (fst (snd start)) else None) s))"
proof -
  let ?b = "new_book (2 ^ 16) Pool"
  let ?w = "new_sim g42 profile_config ?b"
  define start where "start = (if with_md then pub_start os profile_pub_config (new_publisher k_queue) tr
    else (True, new_publisher k_queue, tr))"
  obtain ok p tr1 where st: "start = (ok, p, tr1)" by (cases start)
  have ok: "ok \<longleftrightarrow> \<not> (with_md \<and> os tr Sys_Socket < 0)"
    using st by (auto simp: start_def pub_start_def new_publisher_def sys_def Let_def split: if_splits)
  have p: "with_md \<Longrightarrow> fst (snd (pub_start os profile_pub_config (new_publisher k_queue) tr)) = p"
    using st by (simp add: start_def)
  have plain: "plain_book ?b"
    by (simp add: plain_book_def new_book_inv) (simp add: new_book_def new_pool_def)
  have empty: "ex_ids (abs_book ?b) = {}" "book_liq ?b = 0"
    by (simp_all add: ex_ids_def abs_book_def book_liq_def new_book_view)
  have cfg: "default_qty profile_config = 1" "live_cap profile_config = 264" "order_unit profile_config = 1"
    by (simp_all add: profile_config_def default_config_def live_cap_def order_unit_def)
  have winv: "sim_inv ?w" by (rule new_sim_inv [OF plain empty(1)])
  have fields: "sm_book ?w = ?b" "sm_cfg ?w = profile_config" by (simp_all only: new_sim_def sim.simps)
  have room: "book_liq (sm_book ?w) + 20000 * unat (default_qty (sm_cfg ?w)) < 2 ^ 63"
    unfolding fields empty cfg by simp
  have cap: "live_cap (sm_cfg ?w) \<noteq> 0" unfolding fields cfg by simp
  from sim_steps_ok [OF winv room assms(1) cap, unfolded fields empty cfg] obtain res where
    warm: "sim_steps 20000 (pe_random E) ?w = Some res"
      "\<forall>ok s'. res = Inr (ok, s') \<longrightarrow> plain_book (sm_book s') \<and> book_liq (sm_book s') \<le> 0 + 20000 * unat (1 :: u64)"
    by blast
  show ?thesis
  proof (cases "ok \<and> (\<exists>w. res = Inr w)")
    case False
    have "run_pipeline fuel E os g42 g7 n with_md tr = Some (if ok then Run_Fault else Run_Exit tr1)"
      using False warm(1) st [unfolded start_def]
      by (cases res) (auto simp: run_pipeline_def Let_def simp del: sim_steps.simps)
    moreover have "\<not> ok \<or> (\<exists>e. res = Inl e)" using False by (cases res) auto
    ultimately show ?thesis using ok warm(1) by (cases ok) (auto simp: Let_def simp del: sim_steps.simps)
  next
    case True
    then obtain b w where w: "ok" "res = Inr (b, w)" by auto
    define s0 where "s0 = new_profiler g7 (if with_md then Some p else None) (sm_book w)"
    have s0: "pf_book s0 = sm_book w" "pf_pub s0 = (if with_md then Some p else None)" "pf_done s0 = 0"
      "ac_n (pf_all s0) = 0" by (simp_all add: s0_def new_profiler_def pf_book_def new_engine_def pf_done_def new_acc_def)
    have wb: "plain_book (sm_book w)" "book_liq (sm_book w) \<le> 0 + 20000 * unat (1 :: u64)"
      using warm(2) w(2) by blast+
    have "profiler_inv s0"
      using wb(1) by (simp add: s0_def new_profiler_def profiler_inv_def engine_plain_def new_engine_def)
    moreover have "book_liq (pf_book s0) + n * order_unit profile_config < 2 ^ 63"
      using wb(2) assms(3) by (simp add: s0(1) cfg)
    ultimately obtain s' cs tes where run: "profile_events n fuel E profile_config s0 = Some s'" "profiler_inv s'"
      "pf_done s' = pf_done s0 + of_nat n" "ac_n (pf_all s') = ac_n (pf_all s0) + of_nat n" "length cs = n"
      "list_all (profile_cmd profile_config) cs"
      "abs_book (pf_book s') = fold (ex_apply \<circ> snd) cs (abs_book (pf_book s0))"
      "map (untimed \<circ> snd) tes = stream_of cs (abs_book (pf_book s0))"
      "pf_pub s' = map_option (offer E tes) (pf_pub s0)"
      using profile_events_done [of s0 n profile_config E fuel] assms(1,2) by blast
    define s where "s = s'\<lparr>pf_pub := map_option (\<lambda>p. fst (pub_stop p tr1)) (pf_pub s')\<rparr>"
    obtain tr' where r: "run_pipeline fuel E os g42 g7 n with_md tr = Some (Run_Done s tr')"
    proof (cases "pf_pub s'")
      case None
      then have "s = s'" by (simp add: s_def)
      then show thesis using that [of tr1] None w warm(1) st [unfolded start_def] run(1) [unfolded s0_def]
        by (simp add: run_pipeline_def Let_def del: sim_steps.simps profile_events.simps)
    next
      case (Some p')
      obtain p2 tr2 where stop: "pub_stop p' tr1 = (p2, tr2)" by (cases "pub_stop p' tr1")
      then have "s = s'\<lparr>pf_pub := Some p2\<rparr>" by (simp add: s_def Some)
      then show thesis using that [of tr2] Some stop w warm(1) st [unfolded start_def] run(1) [unfolded s0_def]
        by (simp add: run_pipeline_def Let_def del: sim_steps.simps profile_events.simps)
    qed
    have same: "pf_book s = pf_book s'" "pf_done s = pf_done s'" "pf_all s = pf_all s'"
      "profiler_inv s \<longleftrightarrow> profiler_inv s'" by (simp_all add: s_def pf_book_def pf_done_def profiler_inv_def)
    have "map_option pq (pf_pub s) = map_option (pq \<circ> offer E tes) (if with_md then Some p else None)"
      by (simp add: s_def run(9) s0(2) pub_stop_queue)
    then have "profile_result E n (sm_book w) (if with_md then Some p else None) s"
      unfolding profile_result_def
      by (intro exI [of _ cs] exI [of _ tes]) (simp add: run(5-8) s0(1) same)
    then show ?thesis
      using r ok w warm(1) p run(2-4) s0(3,4) same by (auto simp: Let_def simp del: sim_steps.simps)
  qed
qed

text \<open>C39. A run of the profiler's pipeline returns, whatever the generator, the clock and the system
  answer. It exits early exactly when the publisher was asked for and got no socket, and it faults
  exactly when the warm-up divides by zero. Otherwise the engine's book is well formed and without
  stops, the exchange has changed by as many commands as there were events, each counted once, all of the
  simulator's kinds but for single bids below the mid price, and the publisher has been offered, in
  order, exactly what those commands did: an add, an execution for every fill and the quotes after
  it, or a cancellation; for the single bids nothing.\<close>
theorem profile_run:
  assumes "u01_range (pe_random E)" and "0 < fuel" and "n < 2 ^ 62"
  shows "\<exists>r. run_pipeline fuel E os g42 g7 n with_md tr = Some r \<and>
    (let start = pub_start os profile_pub_config (new_publisher k_queue) tr;
         warm = sim_steps 20000 (pe_random E) (new_sim g42 profile_config (new_book (2 ^ 16) Pool))
     in case r of
          Run_Exit tr' \<Rightarrow> with_md \<and> os tr Sys_Socket < 0
        | Run_Fault \<Rightarrow> \<not> (with_md \<and> os tr Sys_Socket < 0) \<and> (\<exists>e. warm = Some (Inl e))
        | Run_Done s tr' \<Rightarrow>
            \<not> (with_md \<and> os tr Sys_Socket < 0) \<and>
            (\<exists>ok w. warm = Some (Inr (ok, w)) \<and> profiler_inv s \<and>
               pf_done s = of_nat n \<and> ac_n (pf_all s) = of_nat n \<and>
               profile_result E n (sm_book w) (if with_md then Some (fst (snd start)) else None) s))"
  by (rule profile_run_ok [OF assms])

text \<open>The warm-up from the ninth draw on only places orders and cancels resting ones: the run is done.\<close>

lemma demo_warm_up:
  "\<exists>r. sim_steps 20000 demo_source (new_sim 8 profile_config (new_book (2 ^ 16) Pool)) = Some (Inr r)"
proof -
  let ?b = "new_book (2 ^ 16) Pool"
  let ?w = "new_sim (8 :: nat) profile_config ?b"
  have plain: "plain_book ?b"
    by (simp add: plain_book_def new_book_inv) (simp add: new_book_def new_pool_def)
  have empty: "ex_ids (abs_book ?b) = {}" "book_liq ?b = 0"
    by (simp_all add: ex_ids_def abs_book_def book_liq_def new_book_view)
  have cfg: "lambda_limit profile_config = 7 / 10" "8 \<le> unat (live_cap profile_config)"
    "default_qty profile_config = 1" by (simp_all add: profile_config_def default_config_def live_cap_def)
  have fields: "sm_book ?w = ?b" "sm_cfg ?w = profile_config" "sm_rng ?w = 8" by (simp_all only: new_sim_def sim.simps)
  have winv: "sim_inv ?w" by (rule new_sim_inv [OF plain empty(1)])
  have rng: "8 \<le> sm_rng ?w" unfolding fields by (rule order_refl)
  have room: "book_liq (sm_book ?w) + 20000 * unat (default_qty profile_config) < 2 ^ 63"
    unfolding fields empty cfg by simp
  show ?thesis by (rule demo_steps_return [OF cfg(1,2) winv fields(2) rng room])
qed

theorem profile_run_witness:
  "\<exists>s tr w ok. run_pipeline 1 \<lparr>pe_random = demo_source, pe_clock = of_nat, pe_thread = (\<lambda>n p. p)\<rparr> counting_os 8 0 1000 True [] =
     Some (Run_Done s tr) \<and>
     sim_steps 20000 demo_source (new_sim 8 profile_config (new_book (2 ^ 16) Pool)) = Some (Inr (ok, w)) \<and>
     pf_done s = 1000 \<and>
     profile_result \<lparr>pe_random = demo_source, pe_clock = of_nat, pe_thread = (\<lambda>n p. p)\<rparr> 1000 (sm_book w)
       (Some (fst (snd (pub_start counting_os profile_pub_config (new_publisher k_queue) [])))) s"
proof -
  let ?E = "\<lparr>pe_random = demo_source, pe_clock = of_nat, pe_thread = (\<lambda>n p. p)\<rparr> :: nat profile_env"
  have range: "u01_range (pe_random ?E)" by (simp add: u01_range_def demo_source_def)
  have num: "(0 :: nat) < 1" "(1000 :: nat) < 2 ^ 62" by simp_all
  have socket: "\<not> counting_os [] Sys_Socket < 0" by (simp add: counting_os_def)
  obtain ok w where warm: "sim_steps 20000 demo_source (new_sim 8 profile_config (new_book (2 ^ 16) Pool)) = Some (Inr (ok, w))"
    using demo_warm_up by (metis surj_pair)
  have source: "pe_random ?E = demo_source" by simp
  note run = profile_run [OF range num, of counting_os 8 0 True "[]", unfolded source warm Let_def]
  from run obtain r where r: "run_pipeline 1 ?E counting_os 8 0 1000 True [] = Some r" by blast
  have "\<exists>s tr. r = Run_Done s tr \<and> pf_done s = of_nat 1000 \<and> profile_result ?E 1000 (sm_book w)
      (Some (fst (snd (pub_start counting_os profile_pub_config (new_publisher k_queue) [])))) s"
    using run socket unfolding r by (cases r) simp_all
  with r warm show ?thesis by auto
qed

subsection \<open>The program\<close>

primrec all_results :: "('a \<Rightarrow> 'b option) \<Rightarrow> 'a list \<Rightarrow> 'b list option" where
  "all_results f [] = Some []"
| "all_results f (x # xs) = do { y \<leftarrow> f x; ys \<leftarrow> all_results f xs; Some (y # ys) }"

primrec naive_lists :: "(nat \<times> nat) list \<Rightarrow> raw_heap \<Rightarrow> (u64 list \<times> raw_heap) option" where
  "naive_lists [] r = Some ([], r)"
| "naive_lists (x # xs) r =
     do { (s, r1) \<leftarrow> bench_naive_list (fst x) (snd x) r; (ss, r2) \<leftarrow> naive_lists xs r1; Some (s # ss, r2) }"

definition walk_sizes :: "(nat \<times> nat) list" where
  "walk_sizes = [(64, 20000), (256, 8000), (2048, 2000), (8192, 400)]"

text \<open>The draws are given for each depth, the memory of the pools and the heap at the start.\<close>

definition structure_benches ::
    "(nat \<Rightarrow> nat list) \<Rightarrow> store \<Rightarrow> store \<Rightarrow> raw_heap \<Rightarrow> (int list \<times> u64 list \<times> u64 list \<times> raw_heap) option" where
  "structure_benches draws h1 h2 r =
     do {
       sinks \<leftarrow> all_results (\<lambda>d. bench_map_vs_vector d (draws d)) [8, 32, 64, 128, 256, 512];
       walks \<leftarrow> all_results (\<lambda>(n, w). bench_order_walk h1 h2 n w) walk_sizes;
       (naive, r1) \<leftarrow> naive_lists walk_sizes r;
       (p, q, r2) \<leftarrow> bench_alloc_churn 200000 h1 r1;
       Some (sinks, walks, naive, r2)
     }"

text \<open>The runs of \<open>main\<close> after them: a second one with \<open>--hold\<close>.\<close>

definition profile_runs ::
    "nat \<Rightarrow> 'g profile_env \<times> 'g profile_env \<Rightarrow> os \<Rightarrow> 'g \<Rightarrow> 'g \<Rightarrow> profile_args \<Rightarrow> trace \<Rightarrow> 'g run_end list option" where
  "profile_runs fuel E os g42 g7 a tr =
     do {
       r1 \<leftarrow> run_pipeline fuel (fst E) os g42 g7 (unat (pa_events a)) (pa_md a) tr;
       case r1 of
         Run_Done s tr1 \<Rightarrow>
           if pa_hold a
           then do { r2 \<leftarrow> run_pipeline fuel (snd E) os g42 g7 (unat (pa_events a)) (pa_md a) tr1; Some [r1, r2] }
           else Some [r1]
       | _ \<Rightarrow> Some [r1]
     }"

definition profile_main ::
    "(nat \<Rightarrow> nat list) \<Rightarrow> store \<Rightarrow> store \<Rightarrow> raw_heap \<Rightarrow> nat \<Rightarrow> 'g profile_env \<times> 'g profile_env \<Rightarrow> os \<Rightarrow> 'g \<Rightarrow> 'g \<Rightarrow>
     string list \<Rightarrow> 'g run_end list option" where
  "profile_main draws h1 h2 r fuel E os g42 g7 argv =
     do { x \<leftarrow> structure_benches draws h1 h2 r; profile_runs fuel E os g42 g7 (parse_profile_args argv) [] }"

text \<open>
  With the lookups \<open>main\<close> asks for, its first call already overflows: the behaviour of the whole
  program is undefined, whatever its arguments.
\<close>

theorem profile_main_undefined:
  assumes "length (draws 8) = 400000" and "\<forall>d \<in> set (draws 8). d < 8"
  shows "profile_main draws h1 h2 r fuel E os g42 g7 argv = None"
  using lookup_sink_value [of 8 "draws 8"] assms by (simp add: profile_main_def structure_benches_def)

text \<open>The runs themselves return, once or twice.\<close>

lemma profile_runs_return:
  assumes "u01_range (pe_random (fst E))" and "u01_range (pe_random (snd E))" and "0 < fuel"
    and "unat (pa_events a) < 2 ^ 62"
  shows "\<exists>rs. profile_runs fuel E os g42 g7 a tr = Some rs \<and> (length rs = 1 \<or> length rs = 2 \<and> pa_hold a)"
proof -
  have one: "\<exists>r. run_pipeline fuel E' os g42 g7 (unat (pa_events a)) (pa_md a) tr' = Some r"
    if "u01_range (pe_random E')" for E' tr'
    using profile_run_ok [OF that assms(3,4)] by blast
  obtain r1 where r1: "run_pipeline fuel (fst E) os g42 g7 (unat (pa_events a)) (pa_md a) tr = Some r1"
    using one [OF assms(1)] by blast
  show ?thesis
  proof (cases r1)
    case (Run_Done s tr1)
    then show ?thesis using r1 one [OF assms(2), of tr1] by (auto simp: profile_runs_def)
  qed (use r1 in \<open>simp_all add: profile_runs_def\<close>)
qed

end
