(* ===== verification/Spec2Isabelle.thy ===== *)
theory Spec2Isabelle
  imports Engine_Properties Md_Properties Pipeline Simulator Demo_Text Latency_Ring Bench_Contention
    Bench_Anomalies Bench_Matching Profile_Structures Profile_Properties
begin

text \<open>
  A model of a limit order book simulator in C++, with the theorems that make it correct.

  \<^bold>\<open>The program.\<close> An order book (include/lob/order_book.hpp, src/order_book.cpp) keeps two sides of
  price levels in sorted vectors (include/lob/price_ladder.hpp); a level is an intrusive list
  of orders, which come from a slab (include/lob/order_pool.hpp) and are found by id in a dense
  table. A matching engine (src/matching_engine.cpp) puts matching policies and stop orders on
  top. Commands reach a book through a ring with many producers (include/lob/mpsc_queue.hpp)
  in the single-writer pipeline, or under a mutex in the sharded books
  (include/lob/pipeline.hpp); the pipeline publishes its inside market under a sequence lock
  (include/lob/seqlock.hpp). Events leave through a ring with one producer
  (include/lob/spsc_queue.hpp) to a publisher thread that packs them into datagrams
  (net/itch_protocol.hpp, net/md_publisher.cpp), which a receiver decodes
  (net/md_receiver.cpp). A simulator (src/simulator.cpp) drives random orders into a book. The
  benchmark programs (bench/bench_lob.cpp, bench/bench_contention.cpp, bench/profile_pipeline.cpp) run
  these parts alone and together, collect samples and report on them.

  \<^bold>\<open>The theories.\<close>

  \<^item> \<open>Lob_Prelude\<close>, \<open>Lob_Types\<close>: words, the collections of facts, the enums and the order struct.
    Every \<open>Order*\<close> is an address in a store, \<open>nullptr\<close> is \<open>None\<close>.
  \<^item> \<open>Order_Pool\<close>, \<open>Price_Level\<close>, \<open>Price_Ladder\<close>, \<open>Order_Book\<close>: one definition per member function,
    in the order of the code. The ladder is an interface (the locale of \<open>Price_Ladder\<close>) that both
    comparators implement.
  \<^item> \<open>Book_Invariant\<close>, \<open>Book_Spec\<close>, \<open>Book_View\<close>: well-formedness of the linked book (\<open>book_inv\<close>), the
    abstract book of price-time queues with its operations (\<open>sp_add\<close>, \<open>sp_remove\<close>, \<open>sp_match\<close>,
    \<open>sp_fill\<close>), and the view that relates them (\<open>book_view\<close>).
  \<^item> \<open>Level_Ops\<close>, \<open>Book_Ops\<close>, \<open>Book_Fills\<close>, \<open>Book_Changes\<close>, \<open>Book_Lifecycle\<close>: every operation keeps the
    invariant and refines its abstract counterpart. \<open>Book_Properties\<close> states the results.
  \<^item> \<open>Matching_Engine\<close>, \<open>Engine_Invariant\<close>, \<open>Pro_Rata\<close>, \<open>Engine_Properties\<close>: limit, market and stop
    orders, the cascade of triggers, the FIFO and pro-rata policies.
  \<^item> \<open>Spsc_Ring\<close>, \<open>Mpsc_Ring\<close>, \<open>Mpsc_Run\<close>, \<open>Seqlock\<close>: the concurrent structures. The operations alone
    implement the locale of a bounded queue (both rings interpret it); then step relations at the
    grain of single memory accesses, for any interleaving.
  \<^item> \<open>Itch_Protocol\<close>, \<open>Md_Publisher\<close>, \<open>Md_Receiver\<close>, \<open>Md_Sockets\<close>, \<open>Md_Properties\<close>: the wire format byte by
    byte, the two ends, starting and stopping with the system calls they make, and the stream from
    queue to receiver.
  \<^item> \<open>Ingress\<close>, \<open>Pipeline\<close>, \<open>Simulator\<close>: the abstract exchange (two sides, the next id, the
    capacity) that commands act on; the pipeline, the shards and the simulator as
    refinements of it.
  \<^item> \<open>Text_Format\<close>, \<open>Demo_Text\<close>: printing and reading of integers, words and lines; the snapshot of a
    book (src/order_book.cpp) and the demo program (demo/lob_demo.cpp), from the text of a command to the
    text of the answer, again over the abstract exchange. \<open>Latency_Ring\<close>: bench/latency_ring.hpp.
  \<^item> \<open>Contention_Run\<close>, \<open>Bench_Contention\<close>: bench/bench_contention.cpp. Producers push into the ring of the
    pipeline while its consumer drains it, one step for each whole call of the rings; a schedule is a
    list of threads. In every schedule the run that returns has applied every command of every producer, and
    from every reachable state a bounded number of steps lets it return. What becomes of a run is an
    \<open>outcome\<close>: it returns, its schedule ends before it does, or it makes a call that does not return, which
    \<open>contention_passes\<close> excludes. The rows, the thread counts and the exit code.
  \<^item> \<open>Bench_Ladder\<close>, \<open>Bench_Matching\<close>, \<open>Bench_Report\<close>, \<open>Bench_Anomalies\<close>: bench/bench_lob.cpp. The seeded
    ladder and the iterations of the benchmarks, which leave it as deep as it was, or the book empty; the
    table of rows by key, the reporter that joins the framework's runs to it, and the flags of the anomaly
    report.
  \<^item> \<open>Profile_Structures\<close>, \<open>Profile_Run\<close>, \<open>Profile_Stream\<close>, \<open>Profile_Properties\<close>:
    bench/profile_pipeline.cpp. What its loops over trees, vectors, chains and the heap compute and
    leave behind; the event loop over engine and publisher, which does to the book what its
    commands do to the abstract exchange and publishes the stream they should give.

  \<^bold>\<open>Bounds and fuel.\<close> Loops over a finite structure are recursive; the loops of a market order and
  of the walk of a level are \<open>while_option\<close>, with \<open>None\<close> for a loop that does not end, and the
  properties show that it ends on every well-formed book. The mutual recursion of
  \<open>submit_market\<close> and \<open>process_triggers\<close> takes fuel; \<open>submit_market_total\<close> states an
  amount, computed from the number of pending stops, that is enough; the profiler and the
  matching benchmarks submit no stops, so any positive fuel is enough there. The push of the
  many-producer ring run alone and the mutual calls of the simulator are \<open>partial_function\<close>,
  and are shown to return. Prices are
  signed and quantities unsigned 64-bit words that wrap; the properties that need room say how
  much (the quantity of a level, or of a book, below a power of two). Order ids are natural
  numbers: every id given out has an entry in the id table, so a book that used up 64 bits of them would need
  a table of \<open>2 ^ 64\<close> pointers. The number of orders of a level is a natural number as well; \<open>remove\<close> on an
  empty level would make it 0 where the code wraps, which no well-formed book allows. \<open>adjust_aggregate\<close>
  subtracts by wrapping, also in the one case where the code negates exactly \<open>- 2 ^ 63\<close>, which C++ leaves
  undefined.

  \<^bold>\<open>Memory model.\<close> In the rings a load of a counter that another thread advances may return
  any value not older than what the thread saw before (single producer) or any earlier value (many
  producers); data is only read after the load that publishes it. In the sequence lock the
  accesses of a thread take effect in program order, which is what its fences are for. Positions of
  the many-producer ring stay below \<open>2 ^ 63\<close>; beyond, the code subtracts signed words that
  overflow. The step relations are about the rings and the lock; above them a call is one step: a
  push or a pop in the contention run, which \<open>mpsc_fifo\<close> and \<open>mpsc_exclusive\<close> justify, a submission
  under a shard's mutex, and a round of the publisher, during which nothing is enqueued (what arrives while the
  code drains is left to the next round).

  \<^bold>\<open>What modelling showed.\<close> A few theorems state what the code does where it is not what it means to
  do: \<open>cancel_pending_dangles\<close> and \<open>cancel_pending_corrupts_level\<close> (cancelling a pending stop),
  \<open>submit_stop_registers_twice\<close>, \<open>cascade_misses_stop\<close> and \<open>stop_none_lost\<close> (stop orders),
  \<open>pro_rata_overflow\<close>, \<open>sim_divides_by_zero\<close> and \<open>receiver_start_twice_leaks\<close>. The profiler's
  first loop overflows its signed sum (\<open>lookup_sink\<close>), so the behaviour of the program as a whole is
  undefined (\<open>profile_main_undefined\<close>); and the order it adds when nothing is left to cancel is
  never published (\<open>profile_run\<close>).

  \<^bold>\<open>Parameters.\<close> The operating system is a function that answers system calls, with the trace
  of the calls so far; the results of \<open>recvfrom\<close> and the readings of the clock are arguments.
  The random generator of the simulator is a state with two draws. The schedule of the contention
  benchmark's threads and what the publisher's thread does between the profiler's calls are arguments
  too. Doubles are real numbers, so their rounding is not modelled. In particular a sample or a count is
  converted exactly, which a double does below \<open>2 ^ 53\<close>; beyond, interpolated percentiles may come out of
  order, so no property claims that the percentiles of a row increase, or that the report's flag for
  a tail below the 99th percentile never appears.

  \<^bold>\<open>Not modelled.\<close> Of the benchmark programs, the text of the tables they print, and Google
  Benchmark itself (its iterations and its timing are arguments); the tests; the Python server and
  the page around the demo; the sample function of src/lob.cpp; files that CMake generates under build-tsan. The heap's
  exhaustion (\<open>std::bad_alloc\<close>) is not modelled either.
\<close>

end
